(* ===== verification/Prelude.thy ===== *)
theory Prelude
  imports Main "HOL-Library.Word"
begin

unbundle bit_operations_syntax

text \<open>
  The prelude of the SIMpad development: the machine types the sources use, and the generic
  lemmas on words and lists that several components share.  A C \<open>unsigned char\<close> is a
  \<open>u8\<close>, an \<open>unsigned long\<close> of the 32-bit ARM target is a \<open>u32\<close>.
\<close>

type_synonym u8 = "8 word"
type_synonym u16 = "16 word"
type_synonym u32 = "32 word"

section \<open>Words\<close>

lemma push_bit_all_out [simp]:
  fixes w :: "'a::len word"
  assumes "LENGTH('a) \<le> n"
  shows "push_bit n w = 0"
  using assms by (intro bit_word_eqI) (auto simp: bit_simps)

lemma push_bit_Suc_xor:
  fixes a b :: "'a::len word"
  shows "push_bit n (push_bit 1 a XOR b) = push_bit (Suc n) a XOR push_bit n b"
  by (simp add: push_bit_xor ac_simps)

section \<open>Lists\<close>

lemma concat_map_singleton_append:
  "concat (map f (xs @ [x])) = concat (map f xs) @ f x"
  by simp

lemma map_nth_pad:
  assumes "length xs = n" "n \<le> m"
  shows "map (\<lambda>i. if i < n then xs ! i else y) [0..<m] = xs @ replicate (m - n) y"
  using assms by (intro nth_equalityI) (auto simp: nth_append)

lemma all_range_Suc:
  "i < n \<Longrightarrow> (\<forall>k. i \<le> k \<longrightarrow> k < n \<longrightarrow> P k) \<longleftrightarrow> P i \<and> (\<forall>k. Suc i \<le> k \<longrightarrow> k < n \<longrightarrow> P k)"
  by (metis Suc_leI Suc_leD order_refl le_neq_implies_less)

section \<open>Runs of operations\<close>

text \<open>
  The shape every stateful component shares: operations that take a state to a state, and an
  invariant each of them keeps.  Components interpret the locale on their own operations and
  obtain that whole runs keep the invariant.
\<close>

locale op_invariant =
  fixes exec :: "'op \<Rightarrow> 's \<Rightarrow> 's" and inv :: "'s \<Rightarrow> bool"
  assumes exec_inv: "inv s \<Longrightarrow> inv (exec op s)"
begin

lemma run_inv: "inv s \<Longrightarrow> inv (fold exec ops s)"
  by (induction ops arbitrary: s) (auto intro: exec_inv)

lemma run_prefix_inv: "inv s \<Longrightarrow> inv (fold exec (take n ops) s)"
  by (rule run_inv)

end

section \<open>Exclusive claims\<close>

text \<open>
  What drivers rely on when they claim ranges, channels or ports: a claim keeps the books in
  order, it can be undone, and while it is held nothing that clashes with it can be claimed.
\<close>

primrec claim_all :: "('t \<Rightarrow> 'r \<Rightarrow> 't option) \<Rightarrow> 't \<Rightarrow> 'r list \<Rightarrow> 't option" where
  "claim_all claim t [] = Some t"
| "claim_all claim t (r # rs) = (case claim t r of None \<Rightarrow> None | Some t' \<Rightarrow> claim_all claim t' rs)"

locale exclusive_claims =
  fixes claim release :: "'t \<Rightarrow> 'r \<Rightarrow> 't option"
    and inv :: "'t \<Rightarrow> bool" and clash :: "'r \<Rightarrow> 'r \<Rightarrow> bool"
  assumes claim_inv: "inv t \<Longrightarrow> claim t r = Some t' \<Longrightarrow> inv t'"
    and release_claim: "inv t \<Longrightarrow> claim t r = Some t' \<Longrightarrow> release t' r = Some t"
    and claim_clash: "inv t \<Longrightarrow> claim t r = Some t' \<Longrightarrow> clash r q \<Longrightarrow> claim t' q = None"
begin

lemma claim_all_inv: "inv t \<Longrightarrow> claim_all claim t rs = Some t' \<Longrightarrow> inv t'"
  by (induction rs arbitrary: t) (auto split: option.splits dest: claim_inv)

lemma claim_all_release:
  "inv t \<Longrightarrow> claim_all claim t rs = Some t' \<Longrightarrow> claim_all release t' (rev rs) = Some t"
proof (induction rs arbitrary: t)
  case (Cons r rs)
  then obtain u where u: "claim t r = Some u" "claim_all claim u rs = Some t'"
    by (auto split: option.splits)
  have app: "claim_all release t' (xs @ [r]) =
      (case claim_all release t' xs of None \<Rightarrow> None | Some v \<Rightarrow> release v r)" for xs t'
    by (induction xs arbitrary: t') (auto split: option.splits)
  have "inv u" using Cons.prems(1) u(1) by (rule claim_inv)
  then have "claim_all release t' (rev rs) = Some u" using u(2) by (rule Cons.IH)
  then show ?case using release_claim [OF Cons.prems(1) u(1)] by (simp add: app)
qed simp

end

section \<open>Bit masks\<close>

lemma and_2p_ne_0: "(w :: 'a::len word) AND 2 ^ n \<noteq> 0 \<longleftrightarrow> bit w n"
  by (simp add: and_exp_eq_0_iff_not_bit)

lemma bit_2p_iff: "n < LENGTH('a) \<Longrightarrow> bit (2 ^ n :: 'a::len word) m \<longleftrightarrow> m = n"
  by (auto simp: bit_exp_iff)

lemma unat_drop_bit_1_less: "w \<noteq> 0 \<Longrightarrow> unat (drop_bit 1 (w :: 'a::len word)) < unat w"
proof -
  assume "w \<noteq> 0"
  then have "0 < unat w" by (simp add: unat_gt_0)
  moreover have "unat (drop_bit 1 w) = unat w div 2"
    by (simp only: unat_drop_bit_eq) (simp add: drop_bit_eq_div)
  ultimately show ?thesis by simp
qed

section \<open>Rounding\<close>

lemma unat_2p: "k < LENGTH('a) \<Longrightarrow> unat (2 ^ k :: 'a::len word) = 2 ^ k"
proof -
  assume k: "k < LENGTH('a)"
  have "unat (of_nat (2 ^ k) :: 'a word) = 2 ^ k mod 2 ^ LENGTH('a)" by (rule unat_of_nat)
  then show ?thesis using k by simp
qed

lemma unat_2p_minus_1: "k < LENGTH('a) \<Longrightarrow> unat (2 ^ k - 1 :: 'a::len word) = 2 ^ k - 1"
  by (subst unat_sub) (simp_all add: word_le_nat_alt unat_2p)

lemma unat_and_not_mask:
  fixes w :: "'a::len word"
  assumes "k < LENGTH('a)"
  shows "unat (w AND NOT (2 ^ k - 1)) = unat w div 2 ^ k * 2 ^ k"
proof -
  have t: "unat (take_bit k w) = unat w mod 2 ^ k"
    by (simp only: unsigned_take_bit_eq) (simp add: take_bit_eq_mod)
  have "w AND NOT (2 ^ k - 1) = w AND NOT (take_bit k w)"
    by (intro bit_word_eqI) (auto simp: bit_simps mask_eq_exp_minus_1 [symmetric])
  also have "\<dots> = w - take_bit k w"
    by (rule disjunctive_diff_eq_and_not [symmetric]) (auto intro!: bit_word_eqI simp: bit_simps)
  finally have "unat (w AND NOT (2 ^ k - 1)) = unat (w - take_bit k w)" by simp
  also have "\<dots> = unat w - unat (take_bit k w)"
    by (rule unat_sub) (simp only: word_le_nat_alt t mod_less_eq_dividend)
  finally show ?thesis by (simp only: t minus_mod_eq_div_mult)
qed

lemma unat_align_up:
  fixes w :: "'a::len word"
  assumes "k < LENGTH('a)" "unat w + 2 ^ k - 1 < 2 ^ LENGTH('a)"
  shows "unat ((w + 2 ^ k - 1) AND NOT (2 ^ k - 1)) = (unat w + 2 ^ k - 1) div 2 ^ k * 2 ^ k"
proof -
  note u = unat_2p_minus_1 [OF assms(1)]
  have "unat (w + (2 ^ k - 1)) = unat w + (2 ^ k - 1)"
    using assms(2) by (subst unat_add_lem [THEN iffD1]) (auto simp: u)
  then have "unat (w + 2 ^ k - 1) = unat w + 2 ^ k - 1" by (simp add: algebra_simps)
  then show ?thesis by (simp only: unat_and_not_mask [OF assms(1)])
qed

lemma round_up_bounds:
  fixes n m :: nat
  assumes "0 < m"
  shows "n \<le> (n + m - 1) div m * m" "(n + m - 1) div m * m < n + m"
proof -
  have "(n + m - 1) div m * m + (n + m - 1) mod m = n + m - 1" by simp
  moreover have "(n + m - 1) mod m < m" using assms by simp
  ultimately show "n \<le> (n + m - 1) div m * m" "(n + m - 1) div m * m < n + m"
    using assms by linarith+
qed

end
