(* ===== verification/Serload.thy ===== *)
theory Serload
  imports Prelude "HOL-Library.Monad_Syntax"
begin

unbundle bit_operations_syntax

text \<open>
  The serial downloader \<^verbatim>\<open>serload\<close> (\<^verbatim>\<open>serload/serialdownload.cpp\<close>,
  \<^verbatim>\<open>serload/main.cpp\<close>): the host program that sends a flash image to the SIMpad boot
  loader.  The port is a record of what the operating system will deliver and accept: the
  outcomes of the coming \<open>read\<close> calls, the results of the coming \<open>write\<close> and
  \<open>termios\<close> calls, and everything transmitted so far.  A call that waits for input which
  never comes has the value \<open>None\<close>.
\<close>

section \<open>The port\<close>

definition STX :: u8 where "STX = 2"
definition ETX :: u8 where "ETX = 3"
definition BEL :: u8 where "BEL = 7"
definition ACK_BD :: u8 where "ACK_BD = 11"
definition ACK_OK :: u8 where "ACK_OK = 6"
definition ACK_NOK :: u8 where "ACK_NOK = 15"
definition FILLER :: u8 where "FILLER = 0xff"

lemmas control_defs = STX_def ETX_def BEL_def ACK_BD_def ACK_OK_def ACK_NOK_def FILLER_def

text \<open>One outcome of \<open>read(fd, &c, 1)\<close>: a byte, no byte (0), or an error (-1).\<close>

datatype rd = RdByte u8 | RdNone | RdErr

record termios =
  c_iflag :: u32
  c_oflag :: u32
  c_cflag :: u32
  c_lflag :: u32
  c_vtime :: u8
  c_vmin :: u8
  c_ispeed :: int
  c_ospeed :: int

text \<open>
  \<open>wres\<close> holds the results of the coming \<open>write\<close> calls and \<open>tcres\<close> those of
  \<open>tcgetattr\<close> and \<open>tcsetattr\<close>; when a list is used up, the calls succeed in full.
\<close>

record serial =
  rx :: "rd list"
  tx :: "u8 list"
  echo :: "u8 list"
  wres :: "int list"
  tcres :: "int list"
  tio :: termios
  os_errno :: int
  errorNumber :: int

definition sys_write :: "u8 list \<Rightarrow> serial \<Rightarrow> int \<times> serial" where
  "sys_write bs s =
     (case wres s of
        [] \<Rightarrow> (int (length bs), s\<lparr>tx := tx s @ bs\<rparr>)
      | r # rs \<Rightarrow> (r, s\<lparr>wres := rs, tx := tx s @ take (nat r) bs\<rparr>))"

definition tc_call :: "serial \<Rightarrow> int \<times> serial" where
  "tc_call s = (case tcres s of [] \<Rightarrow> (0, s) | r # rs \<Rightarrow> (r, s\<lparr>tcres := rs\<rparr>))"

section \<open>Opening the port and loading the image\<close>

text \<open>Flag values of the Linux \<open>termbits.h\<close>.\<close>

definition CSTOPB :: u32 where "CSTOPB = 0x40"
definition PARENB :: u32 where "PARENB = 0x100"
definition CRTSCTS :: u32 where "CRTSCTS = 0x80000000"
definition CS8 :: u32 where "CS8 = 0x30"
definition CLOCAL :: u32 where "CLOCAL = 0x800"

definition openSerialPort :: "int \<Rightarrow> serial \<Rightarrow> int \<times> serial" where
  "openSerialPort fd s =
     (if fd = -1 then (-1, s\<lparr>errorNumber := os_errno s\<rparr>)
      else let (success, s1) = tc_call s in
      if success < 0 then (-1, s1\<lparr>errorNumber := os_errno s1\<rparr>)
      else let t = (tio s1)\<lparr>c_iflag := 0, c_oflag := 0,
                     c_cflag := (c_cflag (tio s1) AND NOT (CSTOPB OR PARENB OR CRTSCTS))
                                 OR (CS8 OR CLOCAL),
                     c_lflag := 0, c_vtime := 0, c_vmin := 0,
                     c_ispeed := 38400, c_ospeed := 38400\<rparr>;
               (success, s2) = tc_call s1 in
      if success < 0 then (-1, s2\<lparr>errorNumber := os_errno s2\<rparr>)
      else (0, s2\<lparr>tio := t\<rparr>))"

text \<open>
  The outcome of \<open>fopen\<close> on the image (its contents, or \<open>None\<close> when it cannot be
  opened), whether \<open>malloc\<close> succeeds and whether the \<open>fread\<close> completes are
  arguments.  \<open>fread\<close> of one item of size 0 returns 0, so an empty file is an error.
\<close>

definition loadFile :: "u8 list option \<Rightarrow> bool \<Rightarrow> bool \<Rightarrow> int \<times> u8 list" where
  "loadFile file malloc_ok fread_ok =
     (case file of
        None \<Rightarrow> (-1, [])
      | Some bytes \<Rightarrow>
          if \<not> malloc_ok then (-2, [])
          else if length bytes = 0 \<or> \<not> fread_ok then (-3, [])
          else (0, bytes))"

definition supportedBaudRate :: "int \<Rightarrow> bool" where
  "supportedBaudRate r \<longleftrightarrow>
     r = 9600 \<or> r = 19200 \<or> r = 38400 \<or> r = 57600 \<or> r = 115200 \<or> r = 230400 \<or> r = 460800"

definition changeBaudRate :: "int \<Rightarrow> serial \<Rightarrow> bool \<times> serial" where
  "changeBaudRate newBaudRate s =
     (if \<not> supportedBaudRate newBaudRate then (False, s)
      else let (success, s1) = tc_call s in
      if success < 0 then (False, s1\<lparr>errorNumber := os_errno s1\<rparr>)
      else let (success, s2) = tc_call s1 in
      if success < 0 then (False, s2\<lparr>errorNumber := os_errno s2\<rparr>)
      else (True, s2\<lparr>tio := (tio s1)\<lparr>c_ispeed := newBaudRate, c_ospeed := newBaudRate\<rparr>\<rparr>))"

section \<open>Waiting for the boot loader\<close>

definition control :: "u8 \<Rightarrow> bool" where
  "control c \<longleftrightarrow> c = STX \<or> c = ETX \<or> c = BEL \<or> c = ACK_OK \<or> c = ACK_NOK"

text \<open>The loop of \<open>waitForReply\<close>; \<open>c\<close> keeps its value when a read brings no byte.\<close>

fun waitForReply_loop :: "bool \<Rightarrow> u8 \<Rightarrow> rd list \<Rightarrow> u8 list \<Rightarrow> (u8 \<times> rd list \<times> u8 list) option" where
  "waitForReply_loop transparent c [] out = None"
| "waitForReply_loop transparent c (r # rs) out =
     (let c' = (case r of RdByte b \<Rightarrow> b | _ \<Rightarrow> c);
          out' = (if transparent \<and> r \<noteq> RdNone then out @ [c'] else out)
      in if control c' then Some (c', rs, out') else waitForReply_loop transparent c' rs out')"

definition waitForReply :: "bool \<Rightarrow> serial \<Rightarrow> (u8 \<times> serial) option" where
  "waitForReply transparent s =
     (case waitForReply_loop transparent 0 (rx s) (echo s) of
        None \<Rightarrow> None
      | Some (c, rs, out) \<Rightarrow> Some (c, s\<lparr>rx := rs, echo := out\<rparr>))"

lemma waitForReply_loop_shorter:
  "waitForReply_loop t c rs out = Some (d, rs', out') \<Longrightarrow> length rs' < length rs"
proof (induction rs arbitrary: c out)
  case (Cons r rs)
  then show ?case by (fastforce simp: Let_def split: if_splits)
qed simp

lemma waitForReply_shorter:
  "waitForReply t s = Some (c, s') \<Longrightarrow> length (rx s') < length (rx s)"
  by (auto simp: waitForReply_def dest: waitForReply_loop_shorter split: option.splits)

text \<open>The idiom \<open>while(waitForReply(1) != x);\<close>\<close>

function waitUntil :: "u8 \<Rightarrow> serial \<Rightarrow> serial option" where
  "waitUntil x s =
     (case waitForReply True s of
        None \<Rightarrow> None
      | Some (c, s') \<Rightarrow> if c = x then Some s' else waitUntil x s')"
  by pat_completeness auto
termination
  by (relation "measure (\<lambda>(x, s). length (rx s))") (auto dest: waitForReply_shorter)

declare waitUntil.simps [simp del]

lemma waitUntil_shorter: "waitUntil x s = Some s' \<Longrightarrow> length (rx s') < length (rx s)"
proof (induction x s rule: waitUntil.induct)
  case (1 x s)
  then show ?case
    by (subst (asm) (2) waitUntil.simps)
       (fastforce split: option.splits if_splits dest: waitForReply_shorter)
qed

section \<open>The download protocol\<close>

definition write_failed :: "serial \<Rightarrow> serial" where
  "write_failed s = s\<lparr>errorNumber := os_errno s\<rparr>"

definition connectToSimpad :: "int \<Rightarrow> serial \<Rightarrow> (int \<times> serial) option" where
  "connectToSimpad fastBaudRate s =
     (let (ok, s1) = changeBaudRate 38400 (s\<lparr>errorNumber := 0\<rparr>) in
      if \<not> ok then Some (-1, s1) else do {
        s2 \<leftarrow> waitUntil STX s1;
        s3 \<leftarrow> waitUntil BEL s2;
        let (n, s4) = sys_write [ACK_BD] s3;
        if n = 0 then Some (-2, write_failed s4) else do {
        let (n, s5) = sys_write [word_of_int (fastBaudRate div 2 ^ 16)] s4;
        if n = 0 then Some (-2, write_failed s5) else do {
        let (n, s6) = sys_write [word_of_int (fastBaudRate div 2 ^ 8)] s5;
        if n = 0 then Some (-2, write_failed s6) else do {
        let (n, s7) = sys_write [word_of_int fastBaudRate] s6;
        if n = 0 then Some (-2, write_failed s7) else do {
        (c, s8) \<leftarrow> waitForReply True s7;
        let (ok, s9) = (if c = ACK_OK then changeBaudRate fastBaudRate s8 else (True, s8));
        if \<not> ok then Some (-3, s9) else do {
        s10 \<leftarrow> waitUntil STX s9;
        let (n, s11) = sys_write [STX] s10;
        if n = 0 then Some (-4, write_failed s11) else do {
        s12 \<leftarrow> waitUntil STX s11;
        Some (0, s12) }}}}}}})"

text \<open>The running checksum \<open>check = (check<<1) ^ buffer[i]\<close> over one block.\<close>

fun checksum :: "u8 \<Rightarrow> u8 list \<Rightarrow> u8" where
  "checksum check [] = check"
| "checksum check (b # bs) = checksum (push_bit 1 check XOR b) bs"

text \<open>The 512 bytes on the wire: the buffer itself, or the buffer filled up with \<open>FILLER\<close>.\<close>

definition wireBlock :: "u8 list \<Rightarrow> nat \<Rightarrow> u8 list" where
  "wireBlock buffer len =
     (if len = 512 then take 512 buffer
      else map (\<lambda>i. if i < len then buffer ! i else FILLER) [0..<512])"

text \<open>
  The \<open>while(1)\<close> of \<open>sendBlock\<close>.  As in the source, \<open>check\<close> is initialised once,
  before the loop, and carried into a retransmission.
\<close>

function sendBlock_loop :: "u8 \<Rightarrow> u8 list \<Rightarrow> nat \<Rightarrow> serial \<Rightarrow> (bool \<times> serial) option" where
  "sendBlock_loop check buffer len s =
     (case sys_write (wireBlock buffer len) s of (n, s1) \<Rightarrow>
      if n = 0 then Some (False, write_failed s1)
      else case waitUntil STX s1 of
        None \<Rightarrow> None
      | Some s2 \<Rightarrow>
      (case sys_write [if len = 512 then STX else ETX] s2 of (n, s3) \<Rightarrow>
      if n = 0 then Some (False, write_failed s3)
      else case sys_write [checksum check (wireBlock buffer len)] s3 of (n, s4) \<Rightarrow>
      if n = 0 then Some (False, write_failed s4)
      else case waitForReply True s4 of
        None \<Rightarrow> None
      | Some (c, s5) \<Rightarrow>
          if c = ACK_OK then Some (True, s5)
          else sendBlock_loop (checksum check (wireBlock buffer len)) buffer len s5))"
  by pat_completeness auto

lemma rx_sys_write: "sys_write bs s = (n, s') \<Longrightarrow> rx s' = rx s"
  by (auto simp: sys_write_def split: list.splits)

termination sendBlock_loop
  by (relation "measure (\<lambda>(c, b, l, s). length (rx s))")
     (auto dest!: waitUntil_shorter waitForReply_shorter rx_sys_write [OF sym])

declare sendBlock_loop.simps [simp del]

definition sendBlock :: "u8 list \<Rightarrow> nat \<Rightarrow> serial \<Rightarrow> (bool \<times> serial) option" where
  "sendBlock buffer len s = sendBlock_loop 0xff buffer len (s\<lparr>errorNumber := 0\<rparr>)"

definition waitForEndOfBurning :: "serial \<Rightarrow> serial option" where
  "waitForEndOfBurning s = do {
     s1 \<leftarrow> waitUntil ETX s;
     let (_, s2) = sys_write [114] s1;
     let (_, s3) = sys_write [111] s2;
     Some s3 }"

section \<open>The main program\<close>

text \<open>
  The loop over the complete blocks; \<open>image\<close> is advanced by 512 bytes per block, and the
  result of \<open>sendBlock\<close> is not looked at.
\<close>

fun sendBlocks :: "nat \<Rightarrow> u8 list \<Rightarrow> serial \<Rightarrow> (u8 list \<times> serial) option" where
  "sendBlocks 0 img s = Some (img, s)"
| "sendBlocks (Suc n) img s = do {
     (_, s') \<leftarrow> sendBlock img 512 s;
     sendBlocks n (drop 512 img) s' }"

definition download :: "u8 list \<Rightarrow> serial \<Rightarrow> serial option" where
  "download img s = do {
     (rest, s1) \<leftarrow> sendBlocks (length img div 512) img s;
     s2 \<leftarrow> (if length img mod 512 \<noteq> 0
           then do { (_, s') \<leftarrow> sendBlock rest (length img mod 512) s1; Some s' }
           else Some s1);
     waitForEndOfBurning s2 }"

record host =
  opn :: "string \<Rightarrow> int"
  files :: "string \<Rightarrow> u8 list option"
  malloc_ok :: bool
  fread_ok :: bool

text \<open>
  \<open>Exit\<close> carries the exit status; \<open>DeviceOverflow\<close> is the undefined behaviour of
  \<open>strcat\<close> past the 128 bytes of \<open>device\<close>.
\<close>

datatype outcome = Exit int | DeviceOverflow

definition main :: "host \<Rightarrow> string list \<Rightarrow> serial \<Rightarrow> (outcome \<times> serial) option" where
  "main h argv s =
     (if ''--help'' \<in> set argv then Some (Exit 0, s)
      else if length argv \<noteq> 3 \<and> length argv \<noteq> 2 then Some (Exit 1, s)
      else let device = (if length argv = 3 then ''/dev/ttyS'' @ argv ! 2 else ''/dev/ttyS0'') in
      if 128 \<le> length device then Some (DeviceOverflow, s)
      else let (success, s1) = openSerialPort (opn h device) s in
      if success \<noteq> 0 then Some (Exit 2, s1)
      else let (myError, img) = loadFile (files h (argv ! 1)) (malloc_ok h) (fread_ok h) in
      if myError \<noteq> 0 then Some (Exit 3, s1)
      else do {
        (reply, s2) \<leftarrow> connectToSimpad 115200 s1;
        if reply \<noteq> 0 then Some (Exit 4, s2)
        else do { s3 \<leftarrow> download img s2; Some (Exit 0, s3) } })"

section \<open>The checksum\<close>

lemma checksum_shift: "checksum c bs = push_bit (length bs) c XOR checksum 0 bs"
proof (induction bs arbitrary: c)
  case (Cons b bs)
  have "checksum c (b # bs) = push_bit (length bs) (push_bit 1 c XOR b) XOR checksum 0 bs"
    using Cons.IH [of "push_bit 1 c XOR b"] by simp
  also have "\<dots> = push_bit (Suc (length bs)) c XOR (push_bit (length bs) b XOR checksum 0 bs)"
    by (simp only: push_bit_Suc_xor xor.assoc)
  also have "push_bit (length bs) b XOR checksum 0 bs = checksum 0 (b # bs)"
    using Cons.IH [of b] by simp
  finally show ?case by simp
qed simp

lemma checksum_append: "checksum c (xs @ ys) = checksum (checksum c xs) ys"
  by (induction xs arbitrary: c) simp_all

lemma checksum_forgets: "8 \<le> length bs \<Longrightarrow> checksum c bs = checksum d bs"
  using checksum_shift [of c bs] checksum_shift [of d bs] by simp

lemma length_wireBlock [simp]:
  "(len = 512 \<Longrightarrow> 512 \<le> length buffer) \<Longrightarrow> length (wireBlock buffer len) = 512"
  by (auto simp: wireBlock_def)

section \<open>Behaviour against a boot loader\<close>

text \<open>
  What the boot loader sends is split at the control characters it answers with; between them
  any chatter (boot messages, empty reads, read errors) may arrive.
\<close>

fun chatter :: "rd \<Rightarrow> bool" where
  "chatter (RdByte b) = (\<not> control b)"
| "chatter RdNone = True"
| "chatter RdErr = True"

lemma control_simps [simp]:
  "control STX" "control ETX" "control BEL" "control ACK_OK" "control ACK_NOK" "\<not> control 0"
  by (simp_all add: control_def control_defs)

lemma waitForReply_loop_reads:
  "list_all chatter ns \<Longrightarrow> \<not> control c \<Longrightarrow> control d \<Longrightarrow>
   \<exists>e. waitForReply_loop t c (ns @ RdByte d # rest) out = Some (d, rest, e)"
proof (induction ns arbitrary: c out)
  case (Cons r ns)
  then show ?case by (cases r) (auto simp: Let_def)
qed (simp add: Let_def)

lemma waitForReply_reads:
  assumes "list_all chatter ns" "control d" "rx s = ns @ RdByte d # rest"
  shows "\<exists>e. waitForReply t s = Some (d, s\<lparr>rx := rest, echo := e\<rparr>)"
  using waitForReply_loop_reads [OF assms(1) _ assms(2), of 0 t rest "echo s"] assms(3)
  by (auto simp: waitForReply_def)

lemma waitUntil_reads:
  assumes "list_all chatter ns" "control d" "rx s = ns @ RdByte d # rest"
  shows "\<exists>e. waitUntil d s = Some (s\<lparr>rx := rest, echo := e\<rparr>)"
  using waitForReply_reads [OF assms, of True] by (auto simp: waitUntil.simps [of d s])

text \<open>One answer to a block: \<open>STX\<close> asks for the trailer, then the verdict \<open>c\<close>.\<close>

fun exchange :: "rd list \<times> rd list \<times> u8 \<Rightarrow> rd list" where
  "exchange (n1, n2, c) = n1 @ RdByte STX # n2 @ [RdByte c]"

fun exchange_ok :: "rd list \<times> rd list \<times> u8 \<Rightarrow> bool" where
  "exchange_ok (n1, n2, c) = (list_all chatter n1 \<and> list_all chatter n2 \<and> control c)"

definition frame :: "u8 list \<Rightarrow> nat \<Rightarrow> u8 list" where
  "frame buffer len = wireBlock buffer len @
     [if len = 512 then STX else ETX, checksum 0xff (wireBlock buffer len)]"

lemma sendBlock_loop_step:
  assumes "wres s = []" "len = 512 \<Longrightarrow> 512 \<le> length buffer"
    and x: "exchange_ok x" "rx s = exchange x @ rest"
  shows "\<exists>e. sendBlock_loop check buffer len s =
     (let s' = s\<lparr>tx := tx s @ frame buffer len, rx := rest, echo := e\<rparr>
      in if snd (snd x) = ACK_OK then Some (True, s')
         else sendBlock_loop (checksum check (wireBlock buffer len)) buffer len s')"
proof -
  obtain n1 n2 c where x_def: "x = (n1, n2, c)" by (cases x)
  let ?w = "wireBlock buffer len" and ?b = "if len = 512 then STX else ETX"
  have w: "length ?w = 512" using assms(2) by simp
  have chk: "checksum check ?w = checksum 0xff ?w"
    by (rule checksum_forgets) (simp add: w)
  have s1: "sys_write ?w s = (512, s\<lparr>tx := tx s @ ?w\<rparr>)"
    using assms(1) w by (simp add: sys_write_def)
  obtain e1 where s2: "waitUntil STX (s\<lparr>tx := tx s @ ?w\<rparr>) =
      Some (s\<lparr>tx := tx s @ ?w, rx := n2 @ RdByte c # rest, echo := e1\<rparr>)"
    using waitUntil_reads [of n1 STX "s\<lparr>tx := tx s @ ?w\<rparr>" "n2 @ RdByte c # rest"] x x_def
    by auto
  let ?s4 = "s\<lparr>rx := n2 @ RdByte c # rest, echo := e1, tx := tx s @ frame buffer len\<rparr>"
  obtain e2 where "waitForReply True ?s4 =
      Some (c, s\<lparr>tx := tx s @ frame buffer len, rx := rest, echo := e2\<rparr>)"
    using waitForReply_reads [of n2 c ?s4 rest True] x x_def by auto
  then show ?thesis
    using assms(1) chk x_def w
    by (auto simp: sendBlock_loop.simps [of check] s1 s2 sys_write_def frame_def Let_def
        split: if_splits)
qed

lemma sendBlock_loop_delivers:
  assumes "len = 512 \<Longrightarrow> 512 \<le> length buffer"
    and "exchange_ok (m1, m2, ACK_OK)"
  shows "wres s = [] \<Longrightarrow> list_all exchange_ok naks \<Longrightarrow>
     list_all (\<lambda>(n1, n2, c). c \<noteq> ACK_OK) naks \<Longrightarrow>
     rx s = concat (map exchange naks) @ exchange (m1, m2, ACK_OK) @ rest \<Longrightarrow>
     \<exists>e. sendBlock_loop check buffer len s = Some (True, s\<lparr>
        tx := tx s @ concat (replicate (Suc (length naks)) (frame buffer len)), rx := rest, echo := e\<rparr>)"
proof (induction naks arbitrary: s check)
  case Nil
  then show ?case
    using sendBlock_loop_step [of s len buffer "(m1, m2, ACK_OK)" rest check] assms
    by (auto simp: Let_def)
next
  case (Cons x naks)
  let ?rest = "concat (map exchange naks) @ exchange (m1, m2, ACK_OK) @ rest"
  obtain e where step: "sendBlock_loop check buffer len s =
      sendBlock_loop (checksum check (wireBlock buffer len)) buffer len
        (s\<lparr>tx := tx s @ frame buffer len, rx := ?rest, echo := e\<rparr>)" (is "_ = sendBlock_loop _ _ _ ?s'")
    using sendBlock_loop_step [of s len buffer x ?rest check] assms(1) Cons.prems
    by (auto simp: Let_def split: prod.splits)
  show ?case
    using Cons.IH [of ?s' "checksum check (wireBlock buffer len)"] Cons.prems
    by (auto simp: step)
qed

lemma sendBlock_delivers_aux:
  assumes "len = 512 \<Longrightarrow> 512 \<le> length buffer" "wres s = []"
    and "list_all exchange_ok naks" "list_all (\<lambda>(n1, n2, c). c \<noteq> ACK_OK) naks"
    and "exchange_ok (m1, m2, ACK_OK)"
    and "rx s = concat (map exchange naks) @ exchange (m1, m2, ACK_OK) @ rest"
  shows "\<exists>s'. sendBlock buffer len s = Some (True, s') \<and> rx s' = rest \<and> wres s' = [] \<and>
     tx s' = tx s @ concat (replicate (Suc (length naks)) (frame buffer len))"
proof -
  let ?s = "s\<lparr>errorNumber := 0\<rparr>"
  obtain e where "sendBlock_loop 0xff buffer len ?s = Some (True, ?s\<lparr>
      tx := tx ?s @ concat (replicate (Suc (length naks)) (frame buffer len)), rx := rest, echo := e\<rparr>)"
    using sendBlock_loop_delivers [OF assms(1,5) _ assms(3,4), where s = ?s and rest = rest and check = "0xff"]
      assms(2,6) by auto
  then show ?thesis using assms(2) by (simp add: sendBlock_def)
qed

section \<open>The image in blocks\<close>

function blocks :: "u8 list \<Rightarrow> u8 list list" where
  "blocks xs = (if xs = [] then [] else take 512 xs # blocks (drop 512 xs))"
  by pat_completeness auto
termination by (relation "measure length") auto

declare blocks.simps [simp del]

lemma blocks_Nil [simp]: "blocks [] = []"
  by (simp add: blocks.simps)

lemma concat_blocks: "concat (blocks xs) = xs"
proof (induction xs rule: blocks.induct)
  case (1 xs)
  then show ?case by (auto simp: blocks.simps [of xs])
qed

lemma wireBlock_take [simp]: "len \<le> 512 \<Longrightarrow> wireBlock (take len buffer) len = wireBlock buffer len"
  by (auto simp: wireBlock_def)

lemma wireBlock_pad:
  assumes "length b \<le> 512"
  shows "wireBlock b (length b) = b @ replicate (512 - length b) FILLER"
proof (cases "length b = 512")
  case False
  with map_nth_pad [of b "length b" 512 FILLER] assms show ?thesis by (simp add: wireBlock_def)
qed (simp add: wireBlock_def)

lemma frame_take: "len \<le> 512 \<Longrightarrow> frame (take len buffer) len = frame buffer len"
  by (simp add: frame_def)

text \<open>
  The answers to one block: refusals, then an acknowledgement; and what \<open>serload\<close> puts on
  the wire for the blocks of an image against such answers.
\<close>

type_synonym answers = "(rd list \<times> rd list \<times> u8) list \<times> rd list \<times> rd list"

fun answers_rx :: "answers \<Rightarrow> rd list" where
  "answers_rx (naks, m1, m2) = concat (map exchange naks) @ exchange (m1, m2, ACK_OK)"

fun answers_ok :: "answers \<Rightarrow> bool" where
  "answers_ok (naks, m1, m2) \<longleftrightarrow> list_all exchange_ok naks \<and>
     list_all (\<lambda>(n1, n2, c). c \<noteq> ACK_OK) naks \<and> exchange_ok (m1, m2, ACK_OK)"

fun transmissions :: "u8 list list \<Rightarrow> answers list \<Rightarrow> u8 list" where
  "transmissions (b # bs) (a # as) =
     concat (replicate (Suc (length (fst a))) (frame b (length b))) @ transmissions bs as"
| "transmissions _ _ = []"

lemma transmissions_append:
  "length bs = length as \<Longrightarrow>
   transmissions (bs @ bs') (as @ as') = transmissions bs as @ transmissions bs' as'"
  by (induction bs as rule: list_induct2) simp_all

lemma sendBlock_answers:
  assumes "len = 512 \<Longrightarrow> 512 \<le> length buffer" "wres s = []" "answers_ok a"
    and "rx s = answers_rx a @ rest"
  shows "\<exists>s'. sendBlock buffer len s = Some (True, s') \<and> rx s' = rest \<and> wres s' = [] \<and>
     tx s' = tx s @ concat (replicate (Suc (length (fst a))) (frame buffer len))"
proof -
  obtain naks m1 m2 where "a = (naks, m1, m2)" by (cases a)
  then show ?thesis
    using sendBlock_delivers_aux [of len buffer s naks m1 m2 rest] assms by simp
qed

lemma blocks_take_Suc:
  assumes "512 \<le> length img"
  shows "blocks (take (512 + n) img) = take 512 img # blocks (take n (drop 512 img))"
  using assms by (auto simp: blocks.simps [of "take (512 + n) img"] drop_take)

lemma sendBlocks_answers:
  "n * 512 \<le> length img \<Longrightarrow> wres s = [] \<Longrightarrow> length as = n \<Longrightarrow> list_all answers_ok as \<Longrightarrow>
   rx s = concat (map answers_rx as) @ rest \<Longrightarrow>
   \<exists>s'. sendBlocks n img s = Some (drop (n * 512) img, s') \<and> rx s' = rest \<and> wres s' = [] \<and>
     tx s' = tx s @ transmissions (blocks (take (n * 512) img)) as"
proof (induction n arbitrary: img s as)
  case (Suc n)
  then obtain a as' where as: "as = a # as'" by (cases as) auto
  obtain s1 where s1: "sendBlock img 512 s = Some (True, s1)" "wres s1 = []"
      "rx s1 = concat (map answers_rx as') @ rest"
      "tx s1 = tx s @ concat (replicate (Suc (length (fst a))) (frame img 512))"
    using sendBlock_answers [of 512 img s a "concat (map answers_rx as') @ rest"] Suc.prems as
    by auto
  have n: "n * 512 \<le> length (drop 512 img)" using Suc.prems(1) by simp
  obtain s2 where "sendBlocks n (drop 512 img) s1 = Some (drop (n * 512) (drop 512 img), s2)"
      "rx s2 = rest" "wres s2 = []"
      "tx s2 = tx s1 @ transmissions (blocks (take (n * 512) (drop 512 img))) as'"
    using Suc.IH [OF n, of s1 as'] Suc.prems as s1 by auto
  moreover have "blocks (take (Suc n * 512) img) = take 512 img # blocks (take (n * 512) (drop 512 img))"
    using blocks_take_Suc [of img "n * 512"] Suc.prems(1) by simp
  ultimately show ?case
    using s1 as Suc.prems(1) frame_take [of 512 img] by (simp add: ac_simps)
qed simp

lemma blocks_split:
  assumes "n * 512 \<le> length img"
  shows "blocks img = blocks (take (n * 512) img) @ blocks (drop (n * 512) img) \<and>
     length (blocks (take (n * 512) img)) = n"
  using assms
proof (induction n arbitrary: img)
  case (Suc n)
  have "blocks (take (Suc n * 512) img) = take 512 img # blocks (take (n * 512) (drop 512 img))"
    using blocks_take_Suc [of img "n * 512"] Suc.prems by simp
  moreover have "blocks img = take 512 img # blocks (drop 512 img)"
    using Suc.prems by (auto simp: blocks.simps [of img])
  ultimately show ?case using Suc.IH [of "drop 512 img"] Suc.prems by (simp add: ac_simps)
qed simp

lemma blocks_short: "xs \<noteq> [] \<Longrightarrow> length xs \<le> 512 \<Longrightarrow> blocks xs = [xs]"
  by (simp add: blocks.simps [of xs])

section \<open>Properties\<close>

text \<open>
  Sending a block against a boot loader that refuses it any number of times before
  acknowledging it: \<open>sendBlock\<close> returns success and has put exactly one more copy of the
  frame on the wire than there were refusals.  Every copy is the same frame (512 data bytes,
  \<open>STX\<close> or, for a short block, \<open>ETX\<close>, and the checksum), although the running
  checksum is not reset between attempts; input after the acknowledgement is left unread.
\<close>

theorem sendBlock_delivers:
  assumes "len = 512 \<Longrightarrow> 512 \<le> length buffer" "wres s = []" "answers_ok a"
    and "rx s = answers_rx a @ rest"
  shows "\<exists>s'. sendBlock buffer len s = Some (True, s') \<and> rx s' = rest \<and>
     tx s' = tx s @ concat (replicate (Suc (length (fst a))) (frame buffer len))"
  using sendBlock_answers [OF assms] by blast

definition port0 :: "rd list \<Rightarrow> serial" where
  "port0 input = \<lparr>rx = input, tx = [], echo = [], wres = [], tcres = [],
     tio = \<lparr>c_iflag = 0, c_oflag = 0, c_cflag = 0, c_lflag = 0, c_vtime = 0, c_vmin = 0,
            c_ispeed = 38400, c_ospeed = 38400\<rparr>,
     os_errno = 5, errorNumber = 0\<rparr>"

definition refused_once :: answers where
  "refused_once = ([([RdByte 65], [RdNone], ACK_NOK)], [RdErr], [])"

lemma refused_once_ok: "answers_ok refused_once"
  by (simp add: refused_once_def control_def control_defs)

theorem sendBlock_delivers_witness:
  "\<exists>s'. sendBlock [1, 2, 3] 3 (port0 (answers_rx refused_once @ [RdByte 7])) = Some (True, s') \<and>
     rx s' = [RdByte 7] \<and> tx s' = frame [1, 2, 3] 3 @ frame [1, 2, 3] 3"
  using sendBlock_delivers [of 3 "[1, 2, 3]" "port0 (answers_rx refused_once @ [RdByte 7])"
      refused_once "[RdByte 7]"] refused_once_ok
  by (simp add: port0_def) (simp add: refused_once_def)

text \<open>
  C1: downloading a whole image.  If the boot loader eventually acknowledges each block and
  then reports the end of burning, the download completes; the wire carries the frames of the
  512-byte blocks of the image in order, each repeated once per refusal, followed by the two
  commands \<open>r\<close> and \<open>o\<close>.
\<close>

theorem download_delivers:
  assumes "wres s = []" "length as = length (blocks img)" "list_all answers_ok as"
    and "list_all chatter ns" "rx s = concat (map answers_rx as) @ ns @ RdByte ETX # rest"
  shows "\<exists>s'. download img s = Some s' \<and> rx s' = rest \<and>
     tx s' = tx s @ transmissions (blocks img) as @ [114, 111]"
proof -
  define n m tail front where "n = length img div 512" and "m = length img mod 512"
    and "tail = drop (n * 512) img" and "front = blocks (take (n * 512) img)"
  have le: "n * 512 \<le> length img" by (simp add: n_def)
  have split: "blocks img = front @ blocks tail" "length front = n"
    using blocks_split [OF le] by (auto simp: tail_def front_def)
  have len_tail: "length tail = m" "m < 512"
    by (simp_all add: tail_def n_def m_def minus_div_mult_eq_mod)
  then have tail: "blocks tail = (if m = 0 then [] else [tail])"
    using blocks_short [of tail] by (cases tail) auto
  define as1 as2 where "as1 = take n as" and "as2 = drop n as"
  have as: "as = as1 @ as2" "length as1 = n" "length as2 = (if m = 0 then 0 else 1)"
    using assms(2) split tail by (auto simp: as1_def as2_def)
  then have ok: "list_all answers_ok as1" "list_all answers_ok as2" using assms(3) by auto
  define rest' where "rest' = ns @ RdByte ETX # rest"
  obtain s1 where s1: "sendBlocks n img s = Some (tail, s1)" "wres s1 = []"
      "rx s1 = concat (map answers_rx as2) @ rest'" "tx s1 = tx s @ transmissions front as1"
    using sendBlocks_answers [OF le assms(1) as(2) ok(1), of "concat (map answers_rx as2) @ rest'"]
      assms(5) as(1) by (auto simp: rest'_def tail_def front_def)
  obtain s2 where s2: "(if m \<noteq> 0 then do { (_, s') \<leftarrow> sendBlock tail m s1; Some s' } else Some s1) = Some s2"
      "wres s2 = []" "rx s2 = rest'" "tx s2 = tx s1 @ transmissions (blocks tail) as2"
  proof (cases "m = 0")
    case True
    then show ?thesis using that [of s1] s1 as tail by simp
  next
    case False
    then obtain a where a: "as2 = [a]" using as(3) by (auto simp: length_Suc_conv)
    obtain s' where "sendBlock tail m s1 = Some (True, s')" "rx s' = rest'" "wres s' = []"
        "tx s' = tx s1 @ concat (replicate (Suc (length (fst a))) (frame tail m))"
      using sendBlock_answers [of m tail s1 a rest'] ok s1 len_tail a by auto
    then show ?thesis using that [of s'] False a tail len_tail by simp
  qed
  obtain e where e: "waitUntil ETX s2 = Some (s2\<lparr>rx := rest, echo := e\<rparr>)"
    using waitUntil_reads [of ns ETX s2 rest] assms(4) s2(3) by (auto simp: rest'_def)
  have "tx s2 = tx s @ transmissions (blocks img) as"
    using s1 s2 split as transmissions_append [of front as1 "blocks tail" as2] by simp
  moreover have "waitForEndOfBurning s2 = Some (s2\<lparr>rx := rest, echo := e, tx := tx s2 @ [114, 111]\<rparr>)"
    using s2(2) by (simp add: waitForEndOfBurning_def e sys_write_def)
  moreover have "download img s = waitForEndOfBurning s2"
    unfolding download_def n_def [symmetric] m_def [symmetric] s1(1) Option.bind.simps prod.case s2(1) ..
  ultimately show ?thesis by simp
qed

theorem download_delivers_witness:
  "\<exists>s'. download [1, 2, 3] (port0 (answers_rx refused_once @ [RdByte 65, RdByte ETX])) = Some s' \<and>
     rx s' = [] \<and> tx s' = frame [1, 2, 3] 3 @ frame [1, 2, 3] 3 @ [114, 111]"
proof -
  have "blocks [1, 2, 3] = [[1, 2, 3]]" by (simp add: blocks_short)
  then show ?thesis
    using download_delivers [of "port0 (answers_rx refused_once @ [RdByte 65, RdByte ETX])"
        "[refused_once]" "[1, 2, 3]" "[RdByte 65]" "[]"] refused_once_ok
    by (simp add: port0_def control_def control_defs)
       (simp add: refused_once_def numeral_3_eq_3)
qed


text \<open>
  C16: the checksum of a block sees nothing but its last eight bytes: two runs of bytes that
  agree there have the same checksum from any start value, so the check does not detect an
  error anywhere in the first 504 bytes of a block.
\<close>

theorem checksum_last_eight:
  assumes "8 \<le> length xs" "8 \<le> length ys"
    and "drop (length xs - 8) xs = drop (length ys - 8) ys"
  shows "checksum c xs = checksum d ys"
proof -
  let ?t = "drop (length xs - 8) xs"
  have "checksum c xs = checksum (checksum c (take (length xs - 8) xs)) ?t"
    by (simp flip: checksum_append)
  moreover have "checksum d ys = checksum (checksum d (take (length ys - 8) ys)) ?t"
    by (simp add: assms(3) flip: checksum_append)
  ultimately show ?thesis using checksum_forgets [of ?t] assms(1) by simp
qed

theorem checksum_last_eight_witness:
  "checksum 0xff ([0, 0] @ [1, 2, 3, 4, 5, 6, 7, 8]) = checksum 0xff ([9] @ [1, 2, 3, 4, 5, 6, 7, 8])"
  by (rule checksum_last_eight) simp_all

end
