(* ===== verification/Bootmem.thy ===== *)
theory Bootmem
  imports Prelude
begin

unbundle bit_operations_syntax

text \<open>
  The boot-time page allocator of \<^verbatim>\<open>mm/bootmem.c\<close>.  Physical addresses and sizes are
  32-bit words and wrap as the C does; page indices into the bitmap are natural numbers (the
  value of the C index, which stays far below the word size).  The bitmap is a predicate on
  indices, true for a reserved page.  A \<open>BUG()\<close> is the value \<open>None\<close>, or \<open>Bug\<close> for
  an allocation.
\<close>

section \<open>The allocator\<close>

abbreviation PAGE_SHIFT :: nat where "PAGE_SHIFT \<equiv> 12"
abbreviation PAGE_SIZE :: u32 where "PAGE_SIZE \<equiv> 4096"

record bootmem_data =
  node_boot_start :: u32
  node_low_pfn :: u32
  bootmem_map :: "nat \<Rightarrow> bool"
  last_offset :: u32
  last_pos :: nat

definition bootmem_bootmap_pages :: "u32 \<Rightarrow> u32" where
  "bootmem_bootmap_pages pages =
     drop_bit PAGE_SHIFT (((pages + 7) div 8 + (PAGE_SIZE - 1)) AND NOT (PAGE_SIZE - 1))"

text \<open>
  \<open>init_bootmem_core\<close> without the node list and the placement of the map: all pages start
  reserved.  The second component is the size of the map in bytes.
\<close>

definition init_bootmem_core :: "bootmem_data \<Rightarrow> u32 \<Rightarrow> u32 \<Rightarrow> bootmem_data \<times> u32" where
  "init_bootmem_core b start end_pfn =
     (let mapsize = ((end_pfn - start) + 7) div 8;
          mapsize = (mapsize + 3) AND NOT 3
      in (b\<lparr>node_boot_start := push_bit PAGE_SHIFT start, node_low_pfn := end_pfn,
            bootmem_map := (\<lambda>i. i < unat mapsize * 8 \<or> bootmem_map b i)\<rparr>, mapsize))"

text \<open>The marking loop, with the pages that were \<^emph>\<open>reserved twice\<close>.\<close>

function reserve_loop :: "nat \<Rightarrow> nat \<Rightarrow> (nat \<Rightarrow> bool) \<Rightarrow> nat list \<Rightarrow> (nat \<Rightarrow> bool) \<times> nat list" where
  "reserve_loop i eidx bm twice =
     (if i < eidx
      then reserve_loop (Suc i) eidx (bm(i := True)) (if bm i then twice @ [i] else twice)
      else (bm, twice))"
  by pat_completeness auto
termination by (relation "measure (\<lambda>(i, eidx, bm, t). eidx - i)") auto

declare reserve_loop.simps [simp del]

definition reserve_bootmem_core :: "bootmem_data \<Rightarrow> u32 \<Rightarrow> u32 \<Rightarrow> (bootmem_data \<times> nat list) option" where
  "reserve_bootmem_core b addr sz =
     (let sidx = (addr - node_boot_start b) div PAGE_SIZE;
          eidx = (addr + sz - node_boot_start b + PAGE_SIZE - 1) div PAGE_SIZE;
          end_pfn = (addr + sz + PAGE_SIZE - 1) div PAGE_SIZE
      in if sz = 0 then None
         else if eidx \<le> sidx then None
         else if node_low_pfn b \<le> drop_bit PAGE_SHIFT addr then None
         else if node_low_pfn b < end_pfn then None
         else let (bm, twice) = reserve_loop (unat sidx) (unat eidx) (bootmem_map b) []
              in Some (b\<lparr>bootmem_map := bm\<rparr>, twice))"

function free_loop :: "nat \<Rightarrow> nat \<Rightarrow> (nat \<Rightarrow> bool) \<Rightarrow> (nat \<Rightarrow> bool) option" where
  "free_loop i eidx bm =
     (if i < eidx then if bm i then free_loop (Suc i) eidx (bm(i := False)) else None
      else Some bm)"
  by pat_completeness auto
termination by (relation "measure (\<lambda>(i, eidx, bm). eidx - i)") auto

declare free_loop.simps [simp del]

definition free_bootmem_core :: "bootmem_data \<Rightarrow> u32 \<Rightarrow> u32 \<Rightarrow> bootmem_data option" where
  "free_bootmem_core b addr sz =
     (let eidx = (addr + sz - node_boot_start b) div PAGE_SIZE;
          end_pfn = (addr + sz) div PAGE_SIZE;
          start = (addr + PAGE_SIZE - 1) div PAGE_SIZE;
          sidx = start - node_boot_start b div PAGE_SIZE
      in if sz = 0 then None
         else if node_low_pfn b < end_pfn then None
         else map_option (\<lambda>bm. b\<lparr>bootmem_map := bm\<rparr>) (free_loop (unat sidx) (unat eidx) (bootmem_map b)))"

text \<open>The inner loop of the scan: are the pages from \<open>j\<close> up to \<open>stop\<close> free and in range?\<close>

function block_free :: "nat \<Rightarrow> nat \<Rightarrow> nat \<Rightarrow> (nat \<Rightarrow> bool) \<Rightarrow> bool" where
  "block_free j stop eidx bm =
     (if j < stop then if eidx \<le> j then False else if bm j then False
                       else block_free (Suc j) stop eidx bm
      else True)"
  by pat_completeness auto
termination by (relation "measure (\<lambda>(j, stop, eidx, bm). stop - j)") auto

declare block_free.simps [simp del]

function scan :: "nat \<Rightarrow> nat \<Rightarrow> nat \<Rightarrow> nat \<Rightarrow> (nat \<Rightarrow> bool) \<Rightarrow> nat option" where
  "scan i eidx incr areasize bm =
     (if i < eidx \<and> 0 < incr
      then if bm i then scan (i + incr) eidx incr areasize bm
           else if block_free (i + 1) (i + areasize) eidx bm then Some i
           else scan (i + incr) eidx incr areasize bm
      else None)"
  by pat_completeness auto
termination by (relation "measure (\<lambda>(i, eidx, incr, a, bm). eidx - i)") auto

declare scan.simps [simp del]

text \<open>
  \<open>Loops\<close> stands for the jump back to \<open>restart_scan\<close> that never ends: when the second
  scan fails and it started at a non-zero page, \<open>preferred\<close> is still non-zero and the same scan
  is repeated.
\<close>

datatype alloc = Bug | Null | Loops | Mem u32 bootmem_data

text \<open>The final marking loop; a page already marked is a \<open>BUG()\<close>.\<close>

function claim_loop :: "nat \<Rightarrow> nat \<Rightarrow> (nat \<Rightarrow> bool) \<Rightarrow> (nat \<Rightarrow> bool) option" where
  "claim_loop i stop bm =
     (if i < stop then if bm i then None else claim_loop (Suc i) stop (bm(i := True)) else Some bm)"
  by pat_completeness auto
termination by (relation "measure (\<lambda>(i, stop, bm). stop - i)") auto

declare claim_loop.simps [simp del]

text \<open>
  What happens at label \<open>found\<close>: merge with the partly used page of the last allocation or
  start on a fresh page; then mark the pages.
\<close>

definition alloc_found :: "bootmem_data \<Rightarrow> u32 \<Rightarrow> u32 \<Rightarrow> nat \<Rightarrow> nat \<Rightarrow> nat \<Rightarrow> alloc" where
  "alloc_found b sz align eidx areasize start =
     (if eidx \<le> start then Bug
      else if align \<le> PAGE_SIZE \<and> last_offset b \<noteq> 0 \<and> last_pos b + 1 = start then
        let off = (last_offset b + align - 1) AND NOT (align - 1) in
        if PAGE_SIZE < off then Bug
        else let remaining = PAGE_SIZE - off;
                 ret = of_nat (last_pos b) * PAGE_SIZE + off + node_boot_start b in
        if sz < remaining then
          Mem ret (b\<lparr>last_offset := (off + sz) AND (PAGE_SIZE - 1)\<rparr>)
        else let rest = sz - remaining;
                 area = unat ((rest + PAGE_SIZE - 1) div PAGE_SIZE) in
          (case claim_loop start (start + area) (bootmem_map b) of
             None \<Rightarrow> Bug
           | Some bm \<Rightarrow> Mem ret (b\<lparr>last_pos := start + area - 1, last_offset := rest AND (PAGE_SIZE - 1),
                                 bootmem_map := bm\<rparr>))
      else
        (case claim_loop start (start + areasize) (bootmem_map b) of
           None \<Rightarrow> Bug
         | Some bm \<Rightarrow> Mem (of_nat start * PAGE_SIZE + node_boot_start b)
             (b\<lparr>last_pos := start + areasize - 1, last_offset := sz AND (PAGE_SIZE - 1),
                bootmem_map := bm\<rparr>)))"

definition alloc_bootmem_core :: "bootmem_data \<Rightarrow> u32 \<Rightarrow> u32 \<Rightarrow> u32 \<Rightarrow> alloc" where
  "alloc_bootmem_core b sz align goal =
     (let eidx = unat (node_low_pfn b - drop_bit PAGE_SHIFT (node_boot_start b)) in
      if sz = 0 then Bug
      else if align AND (align - 1) \<noteq> 0 then Bug
      else
       let off = (if align \<noteq> 0 \<and> node_boot_start b AND (align - 1) \<noteq> 0
                  then align - (node_boot_start b AND (align - 1)) else 0);
           off = drop_bit PAGE_SHIFT off;
           preferred = (if goal \<noteq> 0 \<and> node_boot_start b \<le> goal \<and>
                           drop_bit PAGE_SHIFT goal < node_low_pfn b
                        then goal - node_boot_start b else 0);
           preferred = drop_bit PAGE_SHIFT ((preferred + align - 1) AND NOT (align - 1));
           preferred = preferred + off;
           areasize = unat ((sz + PAGE_SIZE - 1) div PAGE_SIZE);
           incr = (if drop_bit PAGE_SHIFT align \<noteq> 0 then unat (drop_bit PAGE_SHIFT align) else 1)
       in case scan (unat preferred) eidx incr areasize (bootmem_map b) of
            Some start \<Rightarrow> alloc_found b sz align eidx areasize start
          | None \<Rightarrow>
              if preferred \<noteq> 0 then
                (case scan (unat off) eidx incr areasize (bootmem_map b) of
                   Some start \<Rightarrow> alloc_found b sz align eidx areasize start
                 | None \<Rightarrow> if off \<noteq> 0 then Loops else Null)
              else Null)"

text \<open>
  \<open>free_all_bootmem_core\<close>: every page whose bit is clear goes to the page allocator, then
  the pages that hold the map itself, which start at page index \<open>mapidx\<close> of the node.  The
  result is the number the function returns and the page indices passed to \<open>__free_page\<close>, in
  order.
\<close>

function free_pages_loop :: "nat \<Rightarrow> nat \<Rightarrow> (nat \<Rightarrow> bool) \<Rightarrow> nat \<Rightarrow> nat list \<Rightarrow> nat \<times> nat list" where
  "free_pages_loop i idx bm count freed =
     (if i < idx
      then if \<not> bm i then free_pages_loop (Suc i) idx bm (count + 1) (freed @ [i])
           else free_pages_loop (Suc i) idx bm count freed
      else (count, freed))"
  by pat_completeness auto
termination by (relation "measure (\<lambda>(i, idx, bm, c, f). idx - i)") auto

declare free_pages_loop.simps [simp del]

definition bitmap_pages :: "bootmem_data \<Rightarrow> nat" where
  "bitmap_pages b =
     unat (((node_low_pfn b - drop_bit PAGE_SHIFT (node_boot_start b)) div 8 + PAGE_SIZE - 1) div PAGE_SIZE)"

definition free_all_bootmem_core :: "bootmem_data \<Rightarrow> nat \<Rightarrow> nat \<times> nat list" where
  "free_all_bootmem_core b mapidx =
     (let idx = unat (node_low_pfn b - drop_bit PAGE_SHIFT (node_boot_start b));
          (count, freed) = free_pages_loop 0 idx (bootmem_map b) 0 [];
          (count', freed') = free_pages_loop 0 (bitmap_pages b) (\<lambda>_. False) 0 []
      in (count + count', freed @ map (\<lambda>i. mapidx + i) freed'))"

text \<open>
  \<open>__alloc_bootmem\<close>: the nodes of \<open>pgdat_list\<close> are tried in order.  Out of memory is a
  panic; a \<open>BUG()\<close> or an endless scan in a node is passed on.
\<close>

datatype node_alloc = Panic | NBug | NLoops | NMem u32 "bootmem_data list"

fun alloc_bootmem :: "bootmem_data list \<Rightarrow> u32 \<Rightarrow> u32 \<Rightarrow> u32 \<Rightarrow> node_alloc" where
  "alloc_bootmem [] sz align goal = Panic"
| "alloc_bootmem (b # bs) sz align goal =
     (case alloc_bootmem_core b sz align goal of
        Mem ret b' \<Rightarrow> NMem ret (b' # bs)
      | Bug \<Rightarrow> NBug
      | Loops \<Rightarrow> NLoops
      | Null \<Rightarrow> (case alloc_bootmem bs sz align goal of
                  NMem ret bs' \<Rightarrow> NMem ret (b # bs')
                | r \<Rightarrow> r))"

definition alloc_bootmem_node :: "bootmem_data \<Rightarrow> u32 \<Rightarrow> u32 \<Rightarrow> u32 \<Rightarrow> node_alloc" where
  "alloc_bootmem_node b sz align goal =
     (case alloc_bootmem_core b sz align goal of
        Mem ret b' \<Rightarrow> NMem ret [b']
      | Bug \<Rightarrow> NBug
      | Loops \<Rightarrow> NLoops
      | Null \<Rightarrow> Panic)"

section \<open>The loops\<close>

lemma reserve_loop_map:
  "fst (reserve_loop i eidx bm tw) = (\<lambda>k. bm k \<or> i \<le> k \<and> k < eidx)"
proof (induction i eidx bm tw rule: reserve_loop.induct)
  case (1 i eidx bm tw)
  show ?case
  proof (cases "i < eidx")
    case True
    then have "fst (reserve_loop i eidx bm tw) = (\<lambda>k. (bm(i := True)) k \<or> Suc i \<le> k \<and> k < eidx)"
      using 1 by (subst reserve_loop.simps) (simp del: fun_upd_apply)
    also have "\<dots> = (\<lambda>k. bm k \<or> i \<le> k \<and> k < eidx)" using True by (auto simp: fun_eq_iff)
    finally show ?thesis .
  next
    case False
    then show ?thesis by (auto simp: reserve_loop.simps [of i] fun_eq_iff)
  qed
qed

lemma free_loop_Some_iff:
  "free_loop i eidx bm = Some bm' \<longleftrightarrow>
   (\<forall>k. i \<le> k \<longrightarrow> k < eidx \<longrightarrow> bm k) \<and> bm' = (\<lambda>k. bm k \<and> \<not> (i \<le> k \<and> k < eidx))"
proof (induction i eidx bm rule: free_loop.induct)
  case (1 i eidx bm)
  show ?case
  proof (cases "i < eidx \<and> bm i")
    case True
    have "(\<forall>k. Suc i \<le> k \<longrightarrow> k < eidx \<longrightarrow> (bm(i := False)) k) \<longleftrightarrow> (\<forall>k. i \<le> k \<longrightarrow> k < eidx \<longrightarrow> bm k)"
      using True all_range_Suc [of i eidx bm] by auto
    moreover have "(\<lambda>k. (bm(i := False)) k \<and> \<not> (Suc i \<le> k \<and> k < eidx)) = (\<lambda>k. bm k \<and> \<not> (i \<le> k \<and> k < eidx))"
      using True by (auto simp: fun_eq_iff)
    ultimately show ?thesis using 1 True by (simp add: free_loop.simps [of i] del: fun_upd_apply)
  next
    case False
    then show ?thesis by (auto simp: free_loop.simps [of i] fun_eq_iff)
  qed
qed

lemma block_free_iff:
  "block_free j stop eidx bm \<longleftrightarrow> (\<forall>k. j \<le> k \<longrightarrow> k < stop \<longrightarrow> k < eidx \<and> \<not> bm k)"
proof (induction j stop eidx bm rule: block_free.induct)
  case (1 j stop eidx bm)
  show ?case
  proof (cases "j < stop \<and> j < eidx \<and> \<not> bm j")
    case True
    then have "block_free j stop eidx bm \<longleftrightarrow> block_free (Suc j) stop eidx bm"
      by (simp add: block_free.simps [of j])
    then show ?thesis
      using 1 True all_range_Suc [of j stop "\<lambda>k. k < eidx \<and> \<not> bm k"] by simp
  next
    case False
    then show ?thesis by (auto simp: block_free.simps [of j])
  qed
qed

lemma scan_Some:
  "scan i eidx incr area bm = Some s \<Longrightarrow>
   i \<le> s \<and> s < eidx \<and> \<not> bm s \<and> (\<forall>k. s \<le> k \<longrightarrow> k < s + area \<longrightarrow> k < eidx \<and> \<not> bm k)"
proof (induction i eidx incr area bm rule: scan.induct)
  case (1 i eidx incr area bm)
  have run: "i < eidx" "0 < incr" using "1.prems" by (auto simp: scan.simps [of i] split: if_splits)
  show ?case
  proof (cases "\<not> bm i \<and> block_free (i + 1) (i + area) eidx bm")
    case True
    then have "s = i" using "1.prems" run by (simp add: scan.simps [of i])
    then show ?thesis
      using True run all_range_Suc [of i "i + area" "\<lambda>k. k < eidx \<and> \<not> bm k"]
      by (cases "area = 0") (simp_all add: block_free_iff)
  next
    case False
    then have rec: "scan (i + incr) eidx incr area bm = Some s"
      using "1.prems" run by (auto simp: scan.simps [of i] split: if_splits)
    have "i + incr \<le> s \<and> s < eidx \<and> \<not> bm s \<and> (\<forall>k. s \<le> k \<longrightarrow> k < s + area \<longrightarrow> k < eidx \<and> \<not> bm k)"
    proof (cases "bm i")
      case True
      then show ?thesis using "1.IH"(1) run rec by blast
    next
      case f: False
      then show ?thesis using "1.IH"(2) run rec False by blast
    qed
    then show ?thesis by simp
  qed
qed

lemma claim_loop_Some_iff:
  "claim_loop i stop bm = Some bm' \<longleftrightarrow>
   (\<forall>k. i \<le> k \<longrightarrow> k < stop \<longrightarrow> \<not> bm k) \<and> bm' = (\<lambda>k. bm k \<or> i \<le> k \<and> k < stop)"
proof (induction i stop bm rule: claim_loop.induct)
  case (1 i stop bm)
  show ?case
  proof (cases "i < stop \<and> \<not> bm i")
    case True
    have "(\<forall>k. Suc i \<le> k \<longrightarrow> k < stop \<longrightarrow> \<not> (bm(i := True)) k) \<longleftrightarrow> (\<forall>k. i \<le> k \<longrightarrow> k < stop \<longrightarrow> \<not> bm k)"
      using True all_range_Suc [of i stop "\<lambda>k. \<not> bm k"] by auto
    moreover have "(\<lambda>k. (bm(i := True)) k \<or> Suc i \<le> k \<and> k < stop) = (\<lambda>k. bm k \<or> i \<le> k \<and> k < stop)"
      using True by (auto simp: fun_eq_iff)
    ultimately show ?thesis using 1 True by (simp add: claim_loop.simps [of i] del: fun_upd_apply)
  next
    case False
    show ?thesis
    proof (cases "i < stop")
      case True
      then show ?thesis using False by (simp add: claim_loop.simps [of i]) blast
    next
      case f: False
      then have "(\<lambda>k. bm k \<or> i \<le> k \<and> k < stop) = bm" by auto
      then show ?thesis using f by (auto simp: claim_loop.simps [of i])
    qed
  qed
qed

lemma scan_None:
  "scan i eidx incr area bm = None \<Longrightarrow> 0 < incr \<Longrightarrow> i + m * incr < eidx \<Longrightarrow> 0 < area \<Longrightarrow>
   \<exists>k. i + m * incr \<le> k \<and> k < i + m * incr + area \<and> (eidx \<le> k \<or> bm k)"
proof (induction i eidx incr area bm arbitrary: m rule: scan.induct)
  case (1 i eidx incr area bm)
  have i: "i < eidx" using "1.prems"(3) by simp
  show ?case
  proof (cases m)
    case 0
    have "bm i \<or> \<not> block_free (i + 1) (i + area) eidx bm"
      using "1.prems"(1,2) i by (auto simp: scan.simps [of i] split: if_splits)
    then show ?thesis
    proof
      assume "bm i"
      then show ?thesis using 0 "1.prems"(4) by (intro exI [of _ i]) auto
    next
      assume "\<not> block_free (i + 1) (i + area) eidx bm"
      then obtain k where "i + 1 \<le> k" "k < i + area" "eidx \<le> k \<or> bm k"
        by (auto simp: block_free_iff not_less)
      then show ?thesis using 0 by (intro exI [of _ k]) simp
    qed
  next
    case (Suc m')
    have rec: "scan (i + incr) eidx incr area bm = None"
      using "1.prems"(1,2) i by (auto simp: scan.simps [of i] split: if_splits)
    have next': "i + incr + m' * incr < eidx" using "1.prems"(3) Suc by simp
    have IH: "\<exists>k. i + incr + m' * incr \<le> k \<and> k < i + incr + m' * incr + area \<and> (eidx \<le> k \<or> bm k)"
    proof (cases "bm i")
      case True
      then show ?thesis using i "1.prems"(2,4) next' rec by (intro "1.IH"(1)) auto
    next
      case False
      then have "\<not> block_free (i + 1) (i + area) eidx bm"
        using "1.prems"(1,2) i by (auto simp: scan.simps [of i] split: if_splits)
      then show ?thesis using False i "1.prems"(2,4) next' rec by (intro "1.IH"(2)) auto
    qed
    then show ?thesis by (simp only: Suc mult_Suc add.assoc)
  qed
qed

lemma scan_Some_step:
  "scan i eidx incr area bm = Some s \<Longrightarrow> \<exists>m. s = i + m * incr"
proof (induction i eidx incr area bm rule: scan.induct)
  case (1 i eidx incr area bm)
  have run: "i < eidx \<and> 0 < incr" using "1.prems" by (auto simp: scan.simps [of i] split: if_splits)
  show ?case
  proof (cases "s = i")
    case True
    then show ?thesis by (intro exI [of _ 0]) simp
  next
    case False
    then have step: "scan (i + incr) eidx incr area bm = Some s" "bm i \<or> \<not> block_free (i + 1) (i + area) eidx bm"
      using "1.prems" run by (auto simp: scan.simps [of i] split: if_splits)
    have "\<exists>m. s = i + incr + m * incr"
      using "1.IH"(1) [OF run _ step(1)] "1.IH"(2) [OF run _ _ step(1)] step(2) by metis
    then obtain m where "s = i + incr + m * incr" ..
    then show ?thesis by (intro exI [of _ "Suc m"]) simp
  qed
qed

lemma free_pages_loop_eq:
  "free_pages_loop i idx bm c f =
     (c + length [k \<leftarrow> [i..<idx]. \<not> bm k], f @ [k \<leftarrow> [i..<idx]. \<not> bm k])"
proof (induction i idx bm c f rule: free_pages_loop.induct)
  case (1 i idx bm c f)
  then show ?case
    by (cases "i < idx") (simp_all add: free_pages_loop.simps [of i] upt_conv_Cons)
qed

section \<open>What a node looks like\<close>

text \<open>
  A node of at most 4 GB whose start is page aligned; \<open>pages\<close> is the number of its pages,
  \<open>relative\<close> the position of an address in it.
\<close>

definition pages :: "bootmem_data \<Rightarrow> nat" where
  "pages b = unat (node_low_pfn b - drop_bit PAGE_SHIFT (node_boot_start b))"

definition relative :: "bootmem_data \<Rightarrow> u32 \<Rightarrow> nat" where
  "relative b a = unat (a - node_boot_start b)"

definition node_ok :: "bootmem_data \<Rightarrow> bool" where
  "node_ok b \<longleftrightarrow> unat (node_boot_start b) mod 4096 = 0 \<and>
     unat (node_boot_start b) div 4096 \<le> unat (node_low_pfn b) \<and> unat (node_low_pfn b) \<le> 2 ^ 20"

lemma unat_div_page: "unat (w div PAGE_SIZE) = unat w div 4096"
  by (simp add: unat_div)

lemma unat_drop_page: "unat (drop_bit PAGE_SHIFT (w :: u32)) = unat w div 4096"
  by (simp only: unat_drop_bit_eq) (simp add: drop_bit_eq_div)

lemma unat_and_page: "unat (w AND (PAGE_SIZE - 1)) = unat w mod 4096"
proof -
  have "w AND (PAGE_SIZE - 1) = take_bit 12 w"
    by (simp add: take_bit_eq_mask mask_eq_exp_minus_1)
  then show ?thesis by (simp add: unat_mod take_bit_eq_mod)
qed

lemma pages_le: "node_ok b \<Longrightarrow> pages b = unat (node_low_pfn b) - unat (node_boot_start b) div 4096"
  unfolding node_ok_def pages_def
  by (subst unat_sub) (auto simp: word_le_nat_alt unat_drop_page simp del: unat_drop_bit_eq)

lemma unat_areasize:
  assumes "unat sz \<le> 2 ^ 32 - 4096"
  shows "unat ((sz + PAGE_SIZE - 1) div PAGE_SIZE) = (unat sz + 4095) div 4096"
proof -
  have "sz + PAGE_SIZE - 1 = sz + 4095" by simp
  moreover have "unat (sz + 4095) = unat sz + 4095"
    using assms by (subst unat_add_lem [THEN iffD1]) simp_all
  ultimately show ?thesis by (simp only: unat_div_page)
qed

section \<open>Allocations do not overlap\<close>

text \<open>
  The ranges handed out so far, as positions and lengths in the node.  Every byte of them lies
  on a reserved page, and on the page the last allocation ended in only below the recorded
  offset.
\<close>

definition boot_inv :: "bootmem_data \<Rightarrow> (nat \<times> nat) list \<Rightarrow> bool" where
  "boot_inv b A \<longleftrightarrow> node_ok b \<and> unat (last_offset b) < 4096 \<and>
     (last_offset b \<noteq> 0 \<longrightarrow> last_pos b < pages b \<and> bootmem_map b (last_pos b)) \<and>
     (\<forall>(a, n) \<in> set A. \<forall>x. a \<le> x \<longrightarrow> x < a + n \<longrightarrow> bootmem_map b (x div 4096) \<and>
        (last_offset b \<noteq> 0 \<and> x div 4096 = last_pos b \<longrightarrow> x mod 4096 < unat (last_offset b)))"

lemma node_ok_cong:
  "node_boot_start b' = node_boot_start b \<Longrightarrow> node_low_pfn b' = node_low_pfn b \<Longrightarrow>
   node_ok b' = node_ok b \<and> pages b' = pages b"
  by (simp add: node_ok_def pages_def)

lemma relative_page:
  assumes "node_ok b" "i * 4096 + unat off < 2 ^ 32"
  shows "relative b (of_nat i * PAGE_SIZE + off + node_boot_start b) = i * 4096 + unat off"
proof -
  have "of_nat i * PAGE_SIZE + off = of_nat (i * 4096 + unat off)" by simp
  then have "relative b (of_nat i * PAGE_SIZE + off + node_boot_start b) = unat (of_nat (i * 4096 + unat off) :: u32)"
    by (simp add: relative_def)
  then show ?thesis using assms(2) by (simp only: unat_of_nat) simp
qed

lemma page_fits: "node_ok b \<Longrightarrow> i < pages b \<Longrightarrow> i * 4096 + 4096 \<le> 2 ^ 32"
  using pages_le [of b] by (auto simp: node_ok_def)

text \<open>The three ways an allocation at \<open>start\<close> can end, in natural numbers.\<close>

lemma alloc_found_cases:
  assumes found: "alloc_found b sz align (pages b) area start = Mem ret b'"
    and ok: "node_ok b" "unat (last_offset b) < 4096" "start < pages b"
    and sz: "unat sz \<le> 2 ^ 32 - 4096" "area = (unat sz + 4095) div 4096"
    and align: "align = 2 ^ k" "k < 32"
  obtains
    (fresh) "relative b ret = start * 4096" "last_pos b' = start + area - 1"
      "unat (last_offset b') = unat sz mod 4096"
      "claim_loop start (start + area) (bootmem_map b) = Some (bootmem_map b')"
  | (small) off where "last_offset b \<noteq> 0" "last_pos b + 1 = start" "unat (last_offset b) \<le> off"
      "relative b ret = last_pos b * 4096 + off" "off + unat sz < 4096"
      "last_pos b' = last_pos b" "unat (last_offset b') = off + unat sz"
      "bootmem_map b' = bootmem_map b"
  | (big) off rest n where "last_offset b \<noteq> 0" "last_pos b + 1 = start" "unat (last_offset b) \<le> off"
      "relative b ret = last_pos b * 4096 + off" "off \<le> 4096" "unat sz = 4096 - off + rest"
      "n = (rest + 4095) div 4096" "last_pos b' = start + n - 1"
      "unat (last_offset b') = rest mod 4096"
      "claim_loop start (start + n) (bootmem_map b) = Some (bootmem_map b')"
proof (cases "align \<le> PAGE_SIZE \<and> last_offset b \<noteq> 0 \<and> last_pos b + 1 = start")
  case False
  have "relative b (of_nat start * PAGE_SIZE + 0 + node_boot_start b) = start * 4096 + unat (0 :: u32)"
    using page_fits [OF ok(1,3)] by (intro relative_page [OF ok(1)]) simp
  then show ?thesis
    using found ok(3) False fresh
    by (auto simp: alloc_found_def unat_and_page [simplified] split: option.splits if_splits)
next
  case True
  define off where "off = (last_offset b + align - 1) AND NOT (align - 1)"
  have "(2 :: nat) ^ k \<le> 2 ^ 12"
    using True align by (simp add: word_le_nat_alt unat_2p)
  then have k: "k \<le> 12" by (simp only: power_increasing_iff)
  have p: "(2 :: nat) ^ k \<le> 4096" using power_increasing [OF k, of "2 :: nat"] by simp
  have "unat off = (unat (last_offset b) + 2 ^ k - 1) div 2 ^ k * 2 ^ k"
    unfolding off_def align(1) using align(2) ok(2) p by (intro unat_align_up) auto
  then have lo: "unat (last_offset b) \<le> unat off"
    using round_up_bounds(1) [of "2 ^ k" "unat (last_offset b)"] by simp
  have found': "(if PAGE_SIZE < off then Bug
        else let remaining = PAGE_SIZE - off;
                 ret = of_nat (last_pos b) * PAGE_SIZE + off + node_boot_start b in
        if sz < remaining then
          Mem ret (b\<lparr>last_offset := (off + sz) AND (PAGE_SIZE - 1)\<rparr>)
        else let rest = sz - remaining;
                 area = unat ((rest + PAGE_SIZE - 1) div PAGE_SIZE) in
          (case claim_loop start (start + area) (bootmem_map b) of
             None \<Rightarrow> Bug
           | Some bm \<Rightarrow> Mem ret (b\<lparr>last_pos := start + area - 1, last_offset := rest AND (PAGE_SIZE - 1),
                                 bootmem_map := bm\<rparr>))) = Mem ret b'"
    using found True ok(3) by (simp add: alloc_found_def off_def [symmetric])
  then have off: "off \<le> PAGE_SIZE" by (auto split: if_splits)
  then have off': "unat off \<le> 4096" by (simp add: word_le_nat_alt)
  have rem: "unat (PAGE_SIZE - off) = 4096 - unat off" using off by (simp add: unat_sub)
  have rel: "relative b (of_nat (last_pos b) * PAGE_SIZE + off + node_boot_start b) =
      last_pos b * 4096 + unat off"
    using page_fits [OF ok(1,3)] off' True by (intro relative_page [OF ok(1)]) auto
  show ?thesis
  proof (cases "sz < PAGE_SIZE - off")
    case c: True
    then have lt: "unat off + unat sz < 4096" using rem by (simp add: word_less_nat_alt)
    then have "unat (off + sz) = unat off + unat sz" by (subst unat_add_lem [THEN iffD1]) simp_all
    then have "unat ((off + sz) AND (PAGE_SIZE - 1)) = unat off + unat sz"
      using lt by (simp only: unat_and_page) simp
    moreover have "ret = of_nat (last_pos b) * PAGE_SIZE + off + node_boot_start b"
        "b' = b\<lparr>last_offset := (off + sz) AND (PAGE_SIZE - 1)\<rparr>"
      using found' leD [OF off] c by (auto simp: Let_def)
    ultimately show ?thesis using True lo rel lt by (intro small [of "unat off"]) auto
  next
    case c: False
    define rest where "rest = sz - (PAGE_SIZE - off)"
    have le: "PAGE_SIZE - off \<le> sz" using c by simp
    have r: "unat rest = unat sz - (4096 - unat off)" unfolding rest_def using le rem by (simp add: unat_sub)
    have ge: "4096 - unat off \<le> unat sz" using le rem by (simp add: word_le_nat_alt)
    have n: "unat ((rest + PAGE_SIZE - 1) div PAGE_SIZE) = (unat rest + 4095) div 4096"
      using sz(1) r by (intro unat_areasize) simp
    have "(case claim_loop start (start + (unat rest + 4095) div 4096) (bootmem_map b) of
             None \<Rightarrow> Bug
           | Some bm \<Rightarrow> Mem (of_nat (last_pos b) * PAGE_SIZE + off + node_boot_start b)
               (b\<lparr>last_pos := start + (unat rest + 4095) div 4096 - 1,
                 last_offset := rest AND (PAGE_SIZE - 1), bootmem_map := bm\<rparr>)) = Mem ret b'"
      using found' by (simp only: Let_def leD [OF off] c if_False rest_def [symmetric] n)
    then obtain bm where bm: "claim_loop start (start + (unat rest + 4095) div 4096) (bootmem_map b) = Some bm"
        "ret = of_nat (last_pos b) * PAGE_SIZE + off + node_boot_start b"
        "b' = b\<lparr>last_pos := start + (unat rest + 4095) div 4096 - 1,
                last_offset := rest AND (PAGE_SIZE - 1), bootmem_map := bm\<rparr>"
      by (auto split: option.splits)
    show ?thesis
      using True lo rel off' r ge bm unat_and_page [of rest]
      by (intro big [of "unat off" "unat rest" "(unat rest + 4095) div 4096"]) auto
  qed
qed

lemma boot_inv_range:
  assumes "boot_inv b A" "(a, n) \<in> set A" "a \<le> x" "x < a + n"
  shows "bootmem_map b (x div 4096)"
    and "last_offset b \<noteq> 0 \<Longrightarrow> x div 4096 = last_pos b \<Longrightarrow> x mod 4096 < unat (last_offset b)"
  using assms by (fastforce simp: boot_inv_def)+

lemma word_ne_0: "(w :: 'a::len word) \<noteq> 0 \<longleftrightarrow> 0 < unat w"
  by (simp add: unat_gt_0)

lemma page_of: "(x :: nat) div 4096 * 4096 \<le> x" "x < x div 4096 * 4096 + 4096"
  by (simp_all add: dividend_less_div_times)

text \<open>Bytes from the start of page \<open>start\<close> on, and the pages that hold them.\<close>

lemma claimed_bytes:
  fixes x start r :: nat
  assumes "start * 4096 \<le> x" "x < start * 4096 + r"
  shows "start \<le> x div 4096" "x div 4096 < start + (r + 4095) div 4096"
    and "r mod 4096 \<noteq> 0 \<Longrightarrow> x div 4096 = start + (r + 4095) div 4096 - 1 \<Longrightarrow> x mod 4096 < r mod 4096"
proof -
  define y where "y = x - start * 4096"
  have x: "x = start * 4096 + y" "y < r" using assms by (auto simp: y_def)
  then have d: "x div 4096 = start + y div 4096" "x mod 4096 = y mod 4096" by simp_all
  show "start \<le> x div 4096" by (simp add: d)
  show "x div 4096 < start + (r + 4095) div 4096" unfolding d using x(2) by linarith
  show "x mod 4096 < r mod 4096" if r: "r mod 4096 \<noteq> 0" and
    last: "x div 4096 = start + (r + 4095) div 4096 - 1"
  proof -
    obtain q s where "r = 4096 * q + s" "s < 4096" "0 < s" "r div 4096 = q"
      using r that [of "r div 4096" "r mod 4096"] by simp
    then have "(r + 4095) div 4096 = r div 4096 + 1" by (auto intro!: div_nat_eqI)
    then have "y div 4096 = r div 4096" using last d(1) by linarith
    then show ?thesis using x(2) d(2) by (metis div_mult_mod_eq nat_add_left_cancel_less)
  qed
qed

lemma boot_invI:
  assumes "node_ok b" "unat (last_offset b) < 4096"
    and "last_offset b \<noteq> 0 \<Longrightarrow> last_pos b < pages b \<and> bootmem_map b (last_pos b)"
    and "\<And>a n x. (a, n) \<in> set A \<Longrightarrow> a \<le> x \<Longrightarrow> x < a + n \<Longrightarrow> bootmem_map b (x div 4096)"
    and "\<And>a n x. (a, n) \<in> set A \<Longrightarrow> a \<le> x \<Longrightarrow> x < a + n \<Longrightarrow> last_offset b \<noteq> 0 \<Longrightarrow>
       x div 4096 = last_pos b \<Longrightarrow> x mod 4096 < unat (last_offset b)"
  shows "boot_inv b A"
  using assms by (auto simp: boot_inv_def)

lemma alloc_found_node:
  "alloc_found b sz align e area start = Mem ret b' \<Longrightarrow>
   node_boot_start b' = node_boot_start b \<and> node_low_pfn b' = node_low_pfn b"
  by (auto simp: alloc_found_def Let_def split: if_splits option.splits)

definition apart :: "nat \<times> nat \<Rightarrow> nat \<times> nat \<Rightarrow> bool" where
  "apart p q \<longleftrightarrow> (\<forall>x. \<not> (fst p \<le> x \<and> x < fst p + snd p \<and> fst q \<le> x \<and> x < fst q + snd q))"

text \<open>
  The invariant after claiming the pages from \<open>start\<close> on for the last \<open>r\<close> bytes of the new
  range; the bytes before page \<open>start\<close>, if any, are the rest of the page before it.
\<close>

lemma boot_inv_claim:
  assumes inv: "boot_inv b A"
    and node: "node_boot_start b' = node_boot_start b" "node_low_pfn b' = node_low_pfn b"
    and bm: "bootmem_map b' = (\<lambda>k. bootmem_map b k \<or> start \<le> k \<and> k < start + m)"
    and m: "m = (r + 4095) div 4096"
    and free: "\<And>k. start \<le> k \<Longrightarrow> k < start + m \<Longrightarrow> k < pages b \<and> \<not> bootmem_map b k"
    and last: "last_pos b' = start + m - 1" "unat (last_offset b') = r mod 4096"
    and new: "a + n = start * 4096 + r"
    and head: "\<And>x. a \<le> x \<Longrightarrow> x < start * 4096 \<Longrightarrow> x < a + n \<Longrightarrow>
       x div 4096 < start \<and> bootmem_map b (x div 4096) \<and>
       last_offset b \<noteq> 0 \<and> x div 4096 = last_pos b \<and> unat (last_offset b) \<le> x mod 4096"
  shows "boot_inv b' ((a, n) # A) \<and> (\<forall>p \<in> set A. apart (a, n) p)"
proof -
  have byte: "x < start * 4096 \<or> start \<le> x div 4096 \<and> x div 4096 < start + m" if "a \<le> x" "x < a + n" for x
    using claimed_bytes [of start x r] that new m by fastforce
  have disj: "apart (a, n) p" if p: "p \<in> set A" for p
  proof -
    obtain a' n' where p_def: "p = (a', n')" by (cases p)
    have False if x: "a \<le> x" "x < a + n" "a' \<le> x" "x < a' + n'" for x
    proof (cases "x < start * 4096")
      case True
      then show ?thesis
        using head [OF x(1) True x(2)] boot_inv_range(2) [OF inv _ x(3,4)] p p_def by fastforce
    next
      case False
      then have "start \<le> x div 4096" "x div 4096 < start + m" using byte [OF x(1,2)] by auto
      then show ?thesis using free boot_inv_range(1) [OF inv _ x(3,4)] p p_def by blast
    qed
    then show ?thesis by (auto simp: apart_def p_def)
  qed
  have "boot_inv b' ((a, n) # A)"
  proof (rule boot_invI)
    show "node_ok b'" using inv node_ok_cong [OF node] by (simp add: boot_inv_def)
    show "unat (last_offset b') < 4096" by (simp add: last)
    show "last_pos b' < pages b' \<and> bootmem_map b' (last_pos b')" if "last_offset b' \<noteq> 0"
    proof -
      have "0 < r mod 4096" using that last(2) by (simp add: word_ne_0)
      then have "0 < m" using m by (cases "r = 0") auto
      then show ?thesis using free [of "start + m - 1"] last(1) bm node node_ok_cong [OF node] by auto
    qed
    fix a' n' x
    assume p: "(a', n') \<in> set ((a, n) # A)" and x: "a' \<le> x" "x < a' + n'"
    show "bootmem_map b' (x div 4096)"
    proof (cases "(a', n') = (a, n)")
      case True
      then show ?thesis using byte [of x] head [of x] x bm by auto
    next
      case False
      then show ?thesis using boot_inv_range(1) [OF inv _ x] p bm by auto
    qed
    assume lo: "last_offset b' \<noteq> 0" and pos: "x div 4096 = last_pos b'"
    have r: "r mod 4096 \<noteq> 0" using lo last(2) by (simp add: word_ne_0)
    then have "0 < m" using m by (cases "r = 0") auto
    then have in_new: "start \<le> x div 4096" "x div 4096 < start + m"
      unfolding pos last(1) by linarith+
    show "x mod 4096 < unat (last_offset b')"
    proof (cases "(a', n') = (a, n)")
      case True
      then have "start * 4096 \<le> x" "x < start * 4096 + r"
        using in_new x new by (auto simp: less_eq_div_iff_mult_less_eq)
      then show ?thesis using claimed_bytes(3) [of start x r] r pos last m by simp
    next
      case False
      then have "bootmem_map b (x div 4096)" using boot_inv_range(1) [OF inv _ x] p by auto
      then show ?thesis using free in_new by blast
    qed
  qed
  then show ?thesis using disj by blast
qed

lemma boot_inv_small:
  assumes inv: "boot_inv b A"
    and node: "node_boot_start b' = node_boot_start b" "node_low_pfn b' = node_low_pfn b"
    and c: "last_offset b \<noteq> 0" "unat (last_offset b) \<le> off" "off + n < 4096"
      "last_pos b' = last_pos b" "unat (last_offset b') = off + n" "bootmem_map b' = bootmem_map b"
    and a: "a = last_pos b * 4096 + off"
  shows "boot_inv b' ((a, n) # A) \<and> (\<forall>p \<in> set A. apart (a, n) p)"
proof -
  have byte: "x div 4096 = last_pos b \<and> off \<le> x mod 4096 \<and> x mod 4096 < off + n"
    if "a \<le> x" "x < a + n" for x
  proof -
    define y where "y = x - last_pos b * 4096"
    have "x = last_pos b * 4096 + y" "off \<le> y" "y < off + n" using that a by (auto simp: y_def)
    then show ?thesis using c(3) by simp
  qed
  have last: "last_pos b < pages b" "bootmem_map b (last_pos b)"
    using inv c(1) by (auto simp: boot_inv_def)
  have "boot_inv b' ((a, n) # A)"
  proof (rule boot_invI)
    show "node_ok b'" using inv node_ok_cong [OF node] by (simp add: boot_inv_def)
    show "unat (last_offset b') < 4096" using c by simp
    show "last_pos b' < pages b' \<and> bootmem_map b' (last_pos b')"
      using last c node_ok_cong [OF node] by simp
    fix a' n' x
    assume p: "(a', n') \<in> set ((a, n) # A)" and x: "a' \<le> x" "x < a' + n'"
    show "bootmem_map b' (x div 4096)"
      using p byte [of x] x boot_inv_range(1) [OF inv _ x] last c by auto
    show "x mod 4096 < unat (last_offset b')" if "x div 4096 = last_pos b'"
      using p byte [of x] x boot_inv_range(2) [OF inv _ x] that c by fastforce
  qed
  moreover have "apart (a, n) p" if "p \<in> set A" for p
    using that byte boot_inv_range(2) [OF inv, of "fst p" "snd p"] c by (fastforce simp: apart_def)
  ultimately show ?thesis by blast
qed

lemma alloc_found_inv:
  assumes found: "alloc_found b sz align (pages b) area start = Mem ret b'"
    and inv: "boot_inv b A" and start: "start < pages b"
    and sz: "sz \<noteq> 0" "unat sz \<le> 2 ^ 32 - 4096" "area = (unat sz + 4095) div 4096"
    and align: "align = 2 ^ k" "k < 32"
    and free: "\<And>k. start \<le> k \<Longrightarrow> k < start + area \<Longrightarrow> k < pages b \<and> \<not> bootmem_map b k"
  shows "boot_inv b' ((relative b ret, unat sz) # A) \<and> (\<forall>p \<in> set A. apart (relative b ret, unat sz) p) \<and>
     relative b ret + unat sz \<le> pages b * 4096"
proof -
  note node = alloc_found_node [OF found, THEN conjunct1] alloc_found_node [OF found, THEN conjunct2]
  have ok: "node_ok b" "unat (last_offset b) < 4096" using inv by (simp_all add: boot_inv_def)
  have n0: "0 < unat sz" using sz(1) by (simp add: unat_gt_0)
  then have area: "0 < area" unfolding sz(3) by linarith
  have top: "start + area \<le> pages b" using free [of "start + area - 1"] area by linarith
  have area_ge: "unat sz \<le> area * 4096" unfolding sz(3) by linarith
  from found ok start sz(2,3) align show ?thesis
  proof (cases rule: alloc_found_cases)
    case fresh
    have bm: "bootmem_map b' = (\<lambda>k. bootmem_map b k \<or> start \<le> k \<and> k < start + area)"
      using fresh(4) by (simp add: claim_loop_Some_iff)
    have "relative b ret + unat sz \<le> pages b * 4096" using fresh(1) top area_ge by linarith
    moreover have "boot_inv b' ((relative b ret, unat sz) # A) \<and>
        (\<forall>p \<in> set A. apart (relative b ret, unat sz) p)"
      using fresh by (intro boot_inv_claim [OF inv node bm sz(3) free]) auto
    ultimately show ?thesis by blast
  next
    case (small off)
    have "relative b ret + unat sz \<le> pages b * 4096" using small start by linarith
    moreover have "boot_inv b' ((relative b ret, unat sz) # A) \<and>
        (\<forall>p \<in> set A. apart (relative b ret, unat sz) p)"
      by (rule boot_inv_small [OF inv node small(1,3,5,6,7,8,4)])
    ultimately show ?thesis by blast
  next
    case (big off rest n)
    have n: "n \<le> area" using big(6,7) sz(3) by linarith
    have bm: "bootmem_map b' = (\<lambda>k. bootmem_map b k \<or> start \<le> k \<and> k < start + n)"
      using big(10) by (simp add: claim_loop_Some_iff)
    have free': "k < pages b \<and> \<not> bootmem_map b k" if "start \<le> k" "k < start + n" for k
      using free [of k] that n by linarith
    have new: "relative b ret + unat sz = start * 4096 + rest" using big by linarith
    have lp: "bootmem_map b (last_pos b)" using inv big(1) by (simp add: boot_inv_def)
    have head: "x div 4096 < start \<and> bootmem_map b (x div 4096) \<and> last_offset b \<noteq> 0 \<and>
        x div 4096 = last_pos b \<and> unat (last_offset b) \<le> x mod 4096"
      if "relative b ret \<le> x" "x < start * 4096" for x
    proof -
      define y where "y = x - last_pos b * 4096"
      have "x = last_pos b * 4096 + y" "off \<le> y" "y < 4096" using that big(2,4) by (auto simp: y_def)
      then show ?thesis using big(1,2,3) lp by auto
    qed
    have "rest \<le> n * 4096" using big(7) by linarith
    then have "relative b ret + unat sz \<le> pages b * 4096" using new top n by (simp add: algebra_simps)
    moreover have "boot_inv b' ((relative b ret, unat sz) # A) \<and>
        (\<forall>p \<in> set A. apart (relative b ret, unat sz) p)"
      by (rule boot_inv_claim [OF inv node bm big(7) free' big(8,9) new]) (use head in blast)+
    ultimately show ?thesis by blast
  qed
qed

section \<open>Completeness of the scan\<close>

lemma pow2_and_pred: "(2 ^ k :: u32) AND (2 ^ k - 1) = 0"
  by (intro bit_word_eqI) (auto simp: bit_simps mask_eq_exp_minus_1 [symmetric])

lemma scan_step_unat:
  assumes "k < 32"
  shows "(if drop_bit PAGE_SHIFT (2 ^ k :: u32) \<noteq> 0 then unat (drop_bit PAGE_SHIFT (2 ^ k :: u32)) else 1)
     = 2 ^ (k - 12)"
proof -
  have d: "unat (drop_bit PAGE_SHIFT (2 ^ k :: u32)) = 2 ^ k div 4096"
    using unat_2p [of k, where 'a = 32] assms by (simp only: unat_drop_page) simp
  show ?thesis
  proof (cases "k < 12")
    case True
    then have "(2 :: nat) ^ k < 2 ^ 12" by (intro power_strict_increasing) auto
    then show ?thesis using d True by (simp add: unat_eq_zero [symmetric] del: unat_drop_bit_eq)
  next
    case False
    then have "(2 :: nat) ^ k = 2 ^ (k - 12) * 4096" using power_add [of "2 :: nat" "k - 12" 12] by simp
    then show ?thesis using d by (auto simp: word_ne_0 simp del: unat_drop_bit_eq)
  qed
qed

lemma scan_start_aligned:
  assumes "k < 32"
  shows "\<exists>m. unat (drop_bit PAGE_SHIFT ((w :: u32) AND NOT (2 ^ k - 1))) = m * 2 ^ (k - 12)"
proof (cases "k < 12")
  case True
  then show ?thesis by simp
next
  case False
  then have "(2 :: nat) ^ k = 2 ^ (k - 12) * 4096" using power_add [of "2 :: nat" "k - 12" 12] by simp
  then have "unat (w AND NOT (2 ^ k - 1)) = unat w div 2 ^ k * 2 ^ (k - 12) * 4096"
    using unat_and_not_mask [of k w] assms by simp
  then show ?thesis by (simp only: unat_drop_page) auto
qed

lemma alloc_found_not_null:
  "alloc_found b sz align e area start \<noteq> Null \<and> alloc_found b sz align e area start \<noteq> Loops"
  by (auto simp: alloc_found_def Let_def split: option.splits)

text \<open>With the node start aligned, the two scans are over the same grid of pages.\<close>

lemma alloc_core_scans:
  fixes goal :: u32
  assumes "k < 32" "node_boot_start b AND (2 ^ k - 1) = 0" "sz \<noteq> 0" "unat sz \<le> 2 ^ 32 - 4096"
  defines "S \<equiv> \<lambda>i. scan (i * 2 ^ (k - 12)) (pages b) (2 ^ (k - 12)) ((unat sz + 4095) div 4096) (bootmem_map b)"
    and "R \<equiv> alloc_bootmem_core b sz (2 ^ k) goal"
  shows "(\<exists>m s. S m = Some s \<and> R \<noteq> Null \<and> R \<noteq> Loops) \<or> S 0 = None \<and> R = Null"
proof -
  define pref where "pref = (if goal \<noteq> 0 \<and> node_boot_start b \<le> goal \<and>
       drop_bit PAGE_SHIFT goal < node_low_pfn b then goal - node_boot_start b else 0)"
  define start where "start = drop_bit PAGE_SHIFT ((pref + 2 ^ k - 1) AND NOT (2 ^ k - 1))"
  obtain m where m: "unat start = m * 2 ^ (k - 12)"
    unfolding start_def using scan_start_aligned [OF assms(1)] by blast
  have "R = (case S m of Some s \<Rightarrow> alloc_found b sz (2 ^ k) (pages b) ((unat sz + 4095) div 4096) s
      | None \<Rightarrow> if start \<noteq> 0 then
           (case S 0 of Some s \<Rightarrow> alloc_found b sz (2 ^ k) (pages b) ((unat sz + 4095) div 4096) s
            | None \<Rightarrow> Null) else Null)"
    unfolding R_def alloc_bootmem_core_def S_def
    using assms(2,3) m scan_step_unat [OF assms(1)] unat_areasize [OF assms(4)]
    by (simp add: pow2_and_pred Let_def pages_def [symmetric] pref_def [symmetric] start_def [symmetric]
        del: unat_drop_bit_eq drop_bit_and cong: option.case_cong)
  then show ?thesis
    using m alloc_found_not_null by (auto split: option.splits if_splits)
qed

lemma scan_full: "(\<And>k. k < eidx \<Longrightarrow> bm k) \<Longrightarrow> scan i eidx incr area bm = None"
  using scan_Some [of i eidx incr area bm] by (cases "scan i eidx incr area bm") auto

lemma free_all_split:
  "free_all_bootmem_core b mapidx =
     (length [k \<leftarrow> [0..<pages b]. \<not> bootmem_map b k] + bitmap_pages b,
      [k \<leftarrow> [0..<pages b]. \<not> bootmem_map b k] @ [mapidx ..< mapidx + bitmap_pages b])"
  by (simp add: free_all_bootmem_core_def free_pages_loop_eq pages_def Let_def map_add_upt add.commute)

section \<open>Properties\<close>

text \<open>
  C7: the boot allocator never hands out memory twice.  From a state that accounts for the
  ranges handed out before, an allocation with a power-of-two alignment gives a range of the
  requested size inside the node that shares no byte with any of them, also when it is merged
  into the partly used page of its predecessor, and the new state accounts for it too.
\<close>

theorem alloc_bootmem_disjoint:
  assumes "boot_inv b A" "alloc_bootmem_core b sz (2 ^ k) goal = Mem ret b'"
    and "k < 32" "unat sz \<le> 2 ^ 32 - 4096"
  shows "boot_inv b' ((relative b ret, unat sz) # A) \<and>
     (\<forall>p \<in> set A. apart (relative b ret, unat sz) p) \<and>
     relative b ret + unat sz \<le> pages b * 4096"
proof -
  let ?area = "unat ((sz + PAGE_SIZE - 1) div PAGE_SIZE)"
  obtain i incr start where scan: "scan i (pages b) incr ?area (bootmem_map b) = Some start"
      and found: "alloc_found b sz (2 ^ k) (pages b) ?area start = Mem ret b'" and sz: "sz \<noteq> 0"
    using assms(2) by (auto simp: alloc_bootmem_core_def Let_def pages_def [symmetric]
        split: if_splits option.splits)
  have area: "?area = (unat sz + 4095) div 4096" by (rule unat_areasize [OF assms(4)])
  show ?thesis
    using scan_Some [OF scan] by (intro alloc_found_inv [OF found assms(1) _ sz assms(4) area refl assms(3)]) auto
qed

text \<open>A SIMpad node of eight pages at the start of RAM, one allocation of 100 bytes made.\<close>

definition simpad_node :: bootmem_data where
  "simpad_node = \<lparr>node_boot_start = 0xc0000000, node_low_pfn = 0xc0008, bootmem_map = (\<lambda>i. i < 2),
     last_offset = 100, last_pos = 1\<rparr>"

lemma simpad_node_inv: "boot_inv simpad_node [(4096, 100)]"
proof -
  have "x div 4096 = 1 \<and> x mod 4096 < 100" if x: "4096 \<le> x" "x < 4196" for x :: nat
  proof -
    obtain y where "x = 4096 + y" using le_Suc_ex [OF x(1)] by blast
    then show ?thesis using x(2) by simp
  qed
  then show ?thesis by (auto simp: boot_inv_def simpad_node_def node_ok_def pages_def unat_drop_page)
qed

lemma simpad_node_merge:
  "alloc_bootmem_core simpad_node 50 (2 ^ 4) 0 = Mem 0xc0001070 (simpad_node\<lparr>last_offset := 162\<rparr>)"
  by (simp add: alloc_bootmem_core_def simpad_node_def scan.simps block_free.simps alloc_found_def)

theorem alloc_bootmem_disjoint_witness:
  "boot_inv simpad_node [(4096, 100)] \<and>
   alloc_bootmem_core simpad_node 50 (2 ^ 4) 0 = Mem 0xc0001070 (simpad_node\<lparr>last_offset := 162\<rparr>) \<and>
   boot_inv (simpad_node\<lparr>last_offset := 162\<rparr>) [(4208, 50), (4096, 100)] \<and> apart (4208, 50) (4096, 100)"
  using alloc_bootmem_disjoint [OF simpad_node_inv simpad_node_merge] simpad_node_inv simpad_node_merge
  by (simp add: relative_def simpad_node_def)





definition odd_node :: bootmem_data where
  "odd_node = \<lparr>node_boot_start = 0xc0001000, node_low_pfn = 0xc0009, bootmem_map = (\<lambda>i. True),
     last_offset = 0, last_pos = 0\<rparr>"


end
