(* ===== verification/Resource.thy ===== *)
theory Resource
  imports Prelude
begin

unbundle bit_operations_syntax

text \<open>
  The resource tree of \<^verbatim>\<open>kernel/resource.c\<close>: I/O port and memory ranges claimed by
  drivers.  A \<open>struct resource\<close> is a node with its identity (the address of the struct), its
  name, its inclusive range, its flags, and the list of its children in the order of the
  \<open>child\<close>/\<open>sibling\<close> pointers; the \<open>parent\<close> pointer is the position in the tree.
  Addresses are 32-bit and wrap.
\<close>

section \<open>The tree and the operations\<close>

datatype resource =
  Res (rid: nat) (rname: string) (rstart: u32) (rend: u32) (rflags: u32) (rchild: "resource list")

definition IORESOURCE_BUSY :: u32 where "IORESOURCE_BUSY = 0x80000000"

definition busy :: "resource \<Rightarrow> bool" where
  "busy r \<longleftrightarrow> rflags r AND IORESOURCE_BUSY \<noteq> 0"

fun set_child :: "resource list \<Rightarrow> resource \<Rightarrow> resource" where
  "set_child cs (Res i n s e f _) = Res i n s e f cs"

lemma set_child_sel [simp]:
  "rid (set_child cs r) = rid r" "rname (set_child cs r) = rname r"
  "rstart (set_child cs r) = rstart r" "rend (set_child cs r) = rend r"
  "rflags (set_child cs r) = rflags r" "rchild (set_child cs r) = cs"
  "set_child cs (set_child ds r) = set_child cs r" "set_child (rchild r) r = r"
  "busy (set_child cs r) = busy r"
  by (cases r; simp add: busy_def)+

text \<open>
  The result of \<open>__request_resource\<close>: linked in, a conflict with the root itself (the range
  is empty or sticks out), or with the child at an index.
\<close>

datatype request = Linked resource | Conflict_root | Conflict_child nat

text \<open>The walk along the siblings.\<close>

fun link_in :: "resource \<Rightarrow> resource list \<Rightarrow> resource list + nat" where
  "link_in new [] = Inl [new]"
| "link_in new (tmp # ts) =
     (if rend new < rstart tmp then Inl (new # tmp # ts)
      else if rend tmp < rstart new then
        (case link_in new ts of Inl l \<Rightarrow> Inl (tmp # l) | Inr i \<Rightarrow> Inr (Suc i))
      else Inr 0)"

definition do_request_resource :: "resource \<Rightarrow> resource \<Rightarrow> request" where
  "do_request_resource root new =
     (if rend new < rstart new then Conflict_root
      else if rstart new < rstart root then Conflict_root
      else if rend root < rend new then Conflict_root
      else case link_in new (rchild root) of
             Inl cs \<Rightarrow> Linked (set_child cs root)
           | Inr i \<Rightarrow> Conflict_child i)"

text \<open>\<open>old\<close> is looked for among the children of its parent, by identity.\<close>

fun unlink :: "nat \<Rightarrow> resource list \<Rightarrow> resource list option" where
  "unlink old [] = None"
| "unlink old (tmp # ts) =
     (if rid tmp = old then Some ts else map_option ((#) tmp) (unlink old ts))"

definition EBUSY :: int where "EBUSY = 16"
definition EINVAL :: int where "EINVAL = 22"

definition do_release_resource :: "resource \<Rightarrow> nat \<Rightarrow> int \<times> resource" where
  "do_release_resource parent old =
     (case unlink old (rchild parent) of
        Some cs \<Rightarrow> (0, set_child cs parent)
      | None \<Rightarrow> (- EINVAL, parent))"

definition request_resource :: "resource \<Rightarrow> resource \<Rightarrow> int \<times> resource" where
  "request_resource root new =
     (case do_request_resource root new of Linked root' \<Rightarrow> (0, root') | _ \<Rightarrow> (- EBUSY, root))"

definition release_resource :: "resource \<Rightarrow> nat \<Rightarrow> int \<times> resource" where
  "release_resource parent old = do_release_resource parent old"

definition check_resource :: "resource \<Rightarrow> nat \<Rightarrow> u32 \<Rightarrow> u32 \<Rightarrow> int \<times> resource" where
  "check_resource root tmp start len =
     (case do_request_resource root (Res tmp [] start (start + len - 1) 0 []) of
        Linked root' \<Rightarrow> (0, snd (do_release_resource root' tmp))
      | _ \<Rightarrow> (- EBUSY, root))"

text \<open>
  The search for a free slot.  \<open>alignf\<close> is the caller's alignment hook on the pair
  \<open>(start, end)\<close>; the candidate starts after the child handled before, \<open>this\<close> is the
  rest of the children.
\<close>

fun find_slot ::
  "u32 \<Rightarrow> u32 \<Rightarrow> u32 \<Rightarrow> u32 \<Rightarrow> u32 \<Rightarrow> (u32 \<times> u32 \<Rightarrow> u32 \<Rightarrow> u32 \<times> u32) option \<Rightarrow> u32 \<Rightarrow> resource list
    \<Rightarrow> (u32 \<times> u32) option" where
  "find_slot root_end sz mn mx align alignf nstart this =
     (let nend = (case this of t # _ \<Rightarrow> rstart t | [] \<Rightarrow> root_end);
          nstart = (if nstart < mn then mn else nstart);
          nend = (if mx < nend then mx else nend);
          nstart = (nstart + align - 1) AND NOT (align - 1);
          (nstart, nend) = (case alignf of None \<Rightarrow> (nstart, nend) | Some f \<Rightarrow> f (nstart, nend) sz)
      in if nstart < nend \<and> sz \<le> nend - nstart + 1 then Some (nstart, nstart + sz - 1)
         else case this of
                [] \<Rightarrow> None
              | t # ts \<Rightarrow> find_slot root_end sz mn mx align alignf (rend t + 1) ts)"

declare find_slot.simps [simp del]

definition find_resource ::
  "resource \<Rightarrow> u32 \<Rightarrow> u32 \<Rightarrow> u32 \<Rightarrow> u32 \<Rightarrow> (u32 \<times> u32 \<Rightarrow> u32 \<Rightarrow> u32 \<times> u32) option
    \<Rightarrow> (u32 \<times> u32) option" where
  "find_resource root sz mn mx align alignf =
     find_slot (rend root) sz mn mx align alignf (rstart root) (rchild root)"

fun set_range :: "u32 \<Rightarrow> u32 \<Rightarrow> resource \<Rightarrow> resource" where
  "set_range s e (Res i n _ _ f cs) = Res i n s e f cs"

definition allocate_resource ::
  "resource \<Rightarrow> resource \<Rightarrow> u32 \<Rightarrow> u32 \<Rightarrow> u32 \<Rightarrow> u32 \<Rightarrow> (u32 \<times> u32 \<Rightarrow> u32 \<Rightarrow> u32 \<times> u32) option
    \<Rightarrow> int \<times> resource" where
  "allocate_resource root new sz mn mx align alignf =
     (case find_resource root sz mn mx align alignf of
        None \<Rightarrow> (- EBUSY, root)
      | Some (s, e) \<Rightarrow>
          (case do_request_resource root (set_range s e new) of
             Linked root' \<Rightarrow> (0, root')
           | _ \<Rightarrow> (- EBUSY, root)))"

section \<open>Busy regions\<close>

lemma size_child: "i < length cs \<Longrightarrow> size (cs ! i) < Suc (size_list size cs)"
  by (meson less_SucI nth_mem size_list_estimation' order_le_less_trans lessI order_refl not_le)

lemma link_in_Inr_bound: "link_in new cs = Inr i \<Longrightarrow> i < length cs"
  by (induction new cs arbitrary: i rule: link_in.induct) (auto split: if_splits sum.splits)

lemma Conflict_child_bound:
  "do_request_resource root new = Conflict_child i \<Longrightarrow> i < length (rchild root)"
  by (auto simp: do_request_resource_def split: if_splits sum.splits dest: link_in_Inr_bound)

text \<open>
  The loop of \<open>__request_region\<close>: a conflicting child that is not busy becomes the parent to
  try next.  \<open>None\<close> is the failure (the new node is freed again).
\<close>

function request_in :: "resource \<Rightarrow> resource \<Rightarrow> resource option" where
  "request_in parent new =
     (case do_request_resource parent new of
        Linked parent' \<Rightarrow> Some parent'
      | Conflict_root \<Rightarrow> None
      | Conflict_child i \<Rightarrow>
          if busy (rchild parent ! i) then None
          else map_option (\<lambda>c. set_child ((rchild parent)[i := c]) parent)
                 (request_in (rchild parent ! i) new))"
  by pat_completeness auto
termination
proof (relation "measure (\<lambda>(p, n). size p)", goal_cases)
  case (2 parent new i)
  then have "i < length (rchild parent)" by (simp add: Conflict_child_bound)
  then show ?case using size_child by (cases parent) auto
qed simp

declare request_in.simps [simp del]

text \<open>\<open>__request_region\<close>; \<open>node\<close> is the address \<open>kmalloc\<close> returns, if it does.\<close>

definition request_region :: "resource \<Rightarrow> u32 \<Rightarrow> u32 \<Rightarrow> string \<Rightarrow> nat option \<Rightarrow> resource option" where
  "request_region parent start n name node =
     (case node of
        None \<Rightarrow> None
      | Some a \<Rightarrow> request_in parent (Res a name start (start + n - 1) IORESOURCE_BUSY []))"

lemma size_rchild [termination_simp]: "size_list size (rchild r) < Suc (size r + n)"
  by (cases r) simp

text \<open>The walk of \<open>__release_region\<close>; it never comes back up from a child list.\<close>

fun release_in :: "u32 \<Rightarrow> u32 \<Rightarrow> resource list \<Rightarrow> resource list option" where
  "release_in start stop [] = None"
| "release_in start stop (res # rs) =
     (if rstart res \<le> start \<and> stop \<le> rend res then
        if \<not> busy res then map_option (\<lambda>cs. set_child cs res # rs) (release_in start stop (rchild res))
        else if rstart res \<noteq> start \<or> rend res \<noteq> stop then None
        else Some rs
      else map_option ((#) res) (release_in start stop rs))"

definition release_region :: "resource \<Rightarrow> u32 \<Rightarrow> u32 \<Rightarrow> resource option" where
  "release_region parent start n =
     map_option (\<lambda>cs. set_child cs parent) (release_in start (start + n - 1) (rchild parent))"

text \<open>
  \<open>__check_region\<close>: request, then \<open>release_resource\<close> of the node just linked, wherever
  in the tree its parent is.
\<close>

fun release_node :: "nat \<Rightarrow> resource \<Rightarrow> resource option"
  and release_nodes :: "nat \<Rightarrow> resource list \<Rightarrow> resource list option" where
  "release_node old (Res i n s e f cs) =
     (case unlink old cs of
        Some cs' \<Rightarrow> Some (Res i n s e f cs')
      | None \<Rightarrow> map_option (Res i n s e f) (release_nodes old cs))"
| "release_nodes old [] = None"
| "release_nodes old (c # cs) =
     (case release_node old c of
        Some c' \<Rightarrow> Some (c' # cs)
      | None \<Rightarrow> map_option ((#) c) (release_nodes old cs))"

definition check_region :: "resource \<Rightarrow> u32 \<Rightarrow> u32 \<Rightarrow> nat option \<Rightarrow> int \<times> resource" where
  "check_region parent start n node =
     (case request_region parent start n ''check-region'' node of
        None \<Rightarrow> (- EBUSY, parent)
      | Some parent' \<Rightarrow> (0, case release_node (the node) parent' of Some q \<Rightarrow> q | None \<Rightarrow> parent'))"

section \<open>Well-formed trees\<close>

text \<open>
  Every range is non-empty and inside its parent's; the children of a node are in increasing
  order and pairwise disjoint.
\<close>

fun tree_ok :: "resource \<Rightarrow> bool" where
  "tree_ok (Res i n s e f cs) \<longleftrightarrow>
     s \<le> e \<and> sorted_wrt (\<lambda>a b. rend a < rstart b) cs \<and>
     (\<forall>c \<in> set cs. s \<le> rstart c \<and> rend c \<le> e \<and> tree_ok c)"

definition overlaps :: "resource \<Rightarrow> resource \<Rightarrow> bool" where
  "overlaps a b \<longleftrightarrow> rstart a \<le> rend b \<and> rstart b \<le> rend a"

definition inside :: "resource \<Rightarrow> resource \<Rightarrow> bool" where
  "inside a b \<longleftrightarrow> rstart b \<le> rstart a \<and> rend a \<le> rend b"

lemma tree_ok_iff: "tree_ok r \<longleftrightarrow> rstart r \<le> rend r \<and>
     sorted_wrt (\<lambda>a b. rend a < rstart b) (rchild r) \<and> (\<forall>c \<in> set (rchild r). inside c r \<and> tree_ok c)"
  by (cases r) (auto simp: inside_def)

lemma tree_ok_set_child: "tree_ok (set_child cs r) \<longleftrightarrow> rstart r \<le> rend r \<and>
     sorted_wrt (\<lambda>a b. rend a < rstart b) cs \<and> (\<forall>c \<in> set cs. inside c r \<and> tree_ok c)"
  by (simp add: tree_ok_iff [of "set_child cs r"] inside_def)

lemma tree_ok_range: "tree_ok r \<Longrightarrow> rstart r \<le> rend r"
  by (cases r) simp

lemma link_in_set: "link_in new cs = Inl cs' \<Longrightarrow> set cs' = insert new (set cs)"
proof (induction cs arbitrary: cs')
  case (Cons c cs)
  then show ?case by (fastforce split: if_splits sum.splits)
qed simp

text \<open>The walk succeeds exactly when the new range meets no sibling.\<close>

lemma link_in_Inl_iff:
  assumes "sorted_wrt (\<lambda>a b. rend a < rstart b) cs" "\<forall>c \<in> set cs. rstart c \<le> rend c"
    and "rstart new \<le> rend new"
  shows "(\<exists>cs'. link_in new cs = Inl cs') \<longleftrightarrow> (\<forall>c \<in> set cs. \<not> overlaps new c)"
  using assms
proof (induction cs)
  case (Cons tmp ts)
  show ?case
  proof (cases "rend new < rstart tmp")
    case True
    then have "\<not> overlaps new c" if "c \<in> set (tmp # ts)" for c
      using that Cons.prems(1,2) by (fastforce simp: overlaps_def)
    then show ?thesis using True by simp
  next
    case False
    then show ?thesis using Cons by (auto simp: overlaps_def split: sum.splits)
  qed
qed simp

lemma link_in_sorted:
  assumes "link_in new cs = Inl cs'" "sorted_wrt (\<lambda>a b. rend a < rstart b) cs"
    and "\<forall>c \<in> set cs. rstart c \<le> rend c"
  shows "sorted_wrt (\<lambda>a b. rend a < rstart b) cs'"
  using assms
proof (induction cs arbitrary: cs')
  case (Cons tmp ts)
  consider "rend new < rstart tmp" | l where "\<not> rend new < rstart tmp" "rend tmp < rstart new"
      "link_in new ts = Inl l" "cs' = tmp # l"
    using Cons.prems(1) by (auto split: if_splits sum.splits)
  then show ?case
  proof cases
    case 1
    then show ?thesis using Cons.prems by fastforce
  next
    case 2
    then show ?thesis using Cons link_in_set [OF 2(3)] by auto
  qed
qed simp

text \<open>The child returned as the conflict does overlap.\<close>

lemma link_in_Inr_overlaps:
  "link_in new cs = Inr i \<Longrightarrow> overlaps new (cs ! i)"
  by (induction new cs arbitrary: i rule: link_in.induct)
     (auto simp: overlaps_def split: if_splits sum.splits)

lemma do_request_resource_ok:
  assumes "do_request_resource root new = Linked root'" "tree_ok root" "tree_ok new"
  shows "tree_ok root'"
proof -
  obtain cs where cs: "link_in new (rchild root) = Inl cs" "root' = set_child cs root"
      "inside new root"
    using assms(1) by (auto simp: do_request_resource_def inside_def not_less split: if_splits sum.splits)
  then show ?thesis
    using assms(2,3) link_in_set [OF cs(1)] link_in_sorted [OF cs(1)]
    by (auto simp: tree_ok_set_child tree_ok_iff [of root] dest: tree_ok_range)
qed

lemma do_request_resource_Linked_iff:
  assumes "tree_ok root"
  shows "(\<exists>root'. do_request_resource root new = Linked root') \<longleftrightarrow>
     rstart new \<le> rend new \<and> inside new root \<and> (\<forall>c \<in> set (rchild root). \<not> overlaps new c)"
proof (cases "rstart new \<le> rend new \<and> inside new root")
  case True
  then have "(\<exists>root'. do_request_resource root new = Linked root') \<longleftrightarrow>
      (\<exists>cs'. link_in new (rchild root) = Inl cs')"
    by (auto simp: do_request_resource_def inside_def split: sum.splits)
  also have "\<dots> \<longleftrightarrow> (\<forall>c \<in> set (rchild root). \<not> overlaps new c)"
    using assms True by (intro link_in_Inl_iff) (auto simp: tree_ok_iff [of root] dest: tree_ok_range)
  finally show ?thesis using True by simp
next
  case False
  then show ?thesis by (auto simp: do_request_resource_def inside_def)
qed

section \<open>Regions: claiming, releasing, exclusion\<close>

lemma link_in_before: "link_in new cs = Inr i \<Longrightarrow> j < i \<Longrightarrow> rend (cs ! j) < rstart new"
proof (induction cs arbitrary: i j)
  case (Cons c cs)
  then show ?case by (cases j) (auto split: if_splits sum.splits)
qed simp

lemma release_link_in:
  assumes "link_in new cs = Inl cs'" "busy new" "rstart new \<le> rend new"
  shows "release_in (rstart new) (rend new) cs' = Some cs"
  using assms(1)
proof (induction cs arbitrary: cs')
  case (Cons c cs)
  then show ?case using assms(2,3) by (auto split: if_splits sum.splits)
qed (use assms(2) in auto)

lemma release_in_skip:
  assumes "\<And>j. j < i \<Longrightarrow> rend (cs ! j) < s" "s \<le> e" "i < length cs"
  shows "release_in s e cs = map_option (\<lambda>r. take i cs @ r) (release_in s e (drop i cs))"
  using assms
proof (induction i arbitrary: cs)
  case (Suc i)
  then obtain c cs' where cs: "cs = c # cs'" by (cases cs) auto
  have "rend c < s" using Suc.prems(1) [of 0] cs by simp
  moreover have "release_in s e cs' = map_option (\<lambda>r. take i cs' @ r) (release_in s e (drop i cs'))"
    using Suc.prems cs by (intro Suc.IH) fastforce+
  ultimately show ?case using Suc.prems(2) cs by (auto simp: option.map_comp comp_def)
next
  case 0
  show ?case by (cases "release_in s e cs") simp_all
qed

lemma request_in_frame: "request_in root new = Some root' \<Longrightarrow> \<exists>cs. root' = set_child cs root"
  by (auto simp: request_in.simps [of root] do_request_resource_def
      split: request.splits if_splits sum.splits)

lemma request_in_inside: "request_in root new = Some root' \<Longrightarrow> inside new root \<and> rstart new \<le> rend new"
  by (auto simp: request_in.simps [of root] do_request_resource_def inside_def
      split: request.splits if_splits sum.splits)

lemma request_in_release:
  "request_in root new = Some root' \<Longrightarrow> busy new \<Longrightarrow>
   release_in (rstart new) (rend new) (rchild root') = Some (rchild root)"
proof (induction root new arbitrary: root' rule: request_in.induct)
  case (1 root new)
  note range = request_in_inside [OF "1.prems"(1)]
  show ?case
  proof (cases "do_request_resource root new")
    case (Linked r)
    then show ?thesis
      using "1.prems" range release_link_in
      by (auto simp: request_in.simps [of root] do_request_resource_def split: if_splits sum.splits)
  next
    case (Conflict_child i)
    let ?c = "rchild root ! i"
    have i: "i < length (rchild root)" "\<And>j. j < i \<Longrightarrow> rend (rchild root ! j) < rstart new"
      using Conflict_child Conflict_child_bound
      by (auto simp: do_request_resource_def link_in_before split: if_splits sum.splits)
    obtain c' where c': "\<not> busy ?c" "request_in ?c new = Some c'"
        "root' = set_child ((rchild root)[i := c']) root"
      using "1.prems"(1) Conflict_child by (auto simp: request_in.simps [of root] split: if_splits)
    obtain cs where cs: "c' = set_child cs ?c" using request_in_frame [OF c'(2)] by blast
    have "release_in (rstart new) (rend new) (rchild c') = Some (rchild ?c)"
      using "1.IH" [OF Conflict_child c'(1,2)] "1.prems"(2) by simp
    then have "release_in (rstart new) (rend new) (c' # drop (Suc i) (rchild root)) =
        Some (?c # drop (Suc i) (rchild root))"
      using request_in_inside [OF c'(2)] c'(1) cs by (simp add: inside_def)
    moreover have "release_in (rstart new) (rend new) ((rchild root)[i := c']) =
        map_option (\<lambda>r. take i (rchild root) @ r)
          (release_in (rstart new) (rend new) (c' # drop (Suc i) (rchild root)))"
      using release_in_skip [of i "(rchild root)[i := c']" "rstart new" "rend new"] i range
      by (simp add: drop_update_swap Cons_nth_drop_Suc [symmetric])
    ultimately show ?thesis using c'(3) i by (simp add: id_take_nth_drop [symmetric])
  qed (use "1.prems" in \<open>auto simp: request_in.simps [of root]\<close>)
qed

lemma request_in_tree_ok:
  "request_in root new = Some root' \<Longrightarrow> tree_ok root \<Longrightarrow> tree_ok new \<Longrightarrow> tree_ok root'"
proof (induction root new arbitrary: root' rule: request_in.induct)
  case (1 root new)
  show ?case
  proof (cases "do_request_resource root new")
    case (Linked r)
    then show ?thesis
      using "1.prems" do_request_resource_ok by (auto simp: request_in.simps [of root])
  next
    case (Conflict_child i)
    let ?c = "rchild root ! i"
    have i: "i < length (rchild root)" using Conflict_child by (rule Conflict_child_bound)
    obtain c' where c': "\<not> busy ?c" "request_in ?c new = Some c'"
        "root' = set_child ((rchild root)[i := c']) root"
      using "1.prems"(1) Conflict_child by (auto simp: request_in.simps [of root] split: if_splits)
    have "tree_ok ?c" using "1.prems"(2) i by (auto simp: tree_ok_iff [of root])
    then have "tree_ok c'" using "1.IH" [OF Conflict_child c'(1,2)] "1.prems"(3) by simp
    moreover obtain cs where "c' = set_child cs ?c" using request_in_frame [OF c'(2)] by blast
    then have same: "rstart c' = rstart ?c" "rend c' = rend ?c" by simp_all
    then have "sorted_wrt (\<lambda>a b. rend a < rstart b) ((rchild root)[i := c'])"
      using "1.prems"(2) i same
      by (auto simp: tree_ok_iff [of root] sorted_wrt_iff_nth_less nth_list_update)
    ultimately show ?thesis
      using "1.prems"(2) c'(3) i same
      by (auto simp: tree_ok_iff [of root] tree_ok_set_child inside_def
          dest!: set_update_subset_insert [THEN subsetD])
  qed (use "1.prems" in \<open>auto simp: request_in.simps [of root]\<close>)
qed

text \<open>All nodes below a node.\<close>

fun desc :: "resource \<Rightarrow> resource set" where
  "desc (Res i n s e f cs) = set cs \<union> (\<Union>c \<in> set cs. desc c)"

lemma desc_eq: "desc r = set (rchild r) \<union> (\<Union>c \<in> set (rchild r). desc c)"
  by (cases r) simp

lemma desc_inside: "tree_ok r \<Longrightarrow> d \<in> desc r \<Longrightarrow> inside d r"
proof (induction r)
  case (Res i n s e f cs)
  then show ?case by (fastforce simp: inside_def)
qed

lemma request_in_desc: "request_in root new = Some root' \<Longrightarrow> new \<in> desc root'"
proof (induction root new arbitrary: root' rule: request_in.induct)
  case (1 root new)
  show ?case
  proof (cases "do_request_resource root new")
    case (Linked r)
    then have "new \<in> set (rchild root')"
      using "1.prems" link_in_set
      by (auto simp: request_in.simps [of root] do_request_resource_def split: if_splits sum.splits)
    then show ?thesis by (simp add: desc_eq [of root'])
  next
    case (Conflict_child i)
    let ?c = "rchild root ! i"
    obtain c' where c': "\<not> busy ?c" "request_in ?c new = Some c'"
        "root' = set_child ((rchild root)[i := c']) root"
      using "1.prems"(1) Conflict_child by (auto simp: request_in.simps [of root] split: if_splits)
    have "new \<in> desc c'" by (rule "1.IH" [OF Conflict_child c'(1,2)])
    moreover have "c' \<in> set (rchild root')"
      using c'(3) Conflict_child_bound [OF Conflict_child] by (simp add: set_update_memI)
    ultimately show ?thesis by (auto simp: desc_eq [of root'])
  qed (use "1.prems" in \<open>auto simp: request_in.simps [of root]\<close>)
qed

lemma siblings_disjoint:
  assumes "tree_ok r" "c \<in> set (rchild r)" "d \<in> set (rchild r)" "c \<noteq> d"
  shows "rend c < rstart d \<or> rend d < rstart c"
proof -
  obtain i j where "i < length (rchild r)" "j < length (rchild r)" "c = rchild r ! i" "d = rchild r ! j"
    using assms by (auto simp: in_set_conv_nth)
  then show ?thesis
    using assms(1,4) by (cases i j rule: linorder_cases) (auto simp: tree_ok_iff [of r] sorted_wrt_iff_nth_less)
qed

text \<open>A range that meets a busy node anywhere below cannot be linked in.\<close>

lemma request_in_busy:
  "tree_ok root \<Longrightarrow> d \<in> desc root \<Longrightarrow> busy d \<Longrightarrow> overlaps new d \<Longrightarrow> request_in root new = None"
proof (induction root new rule: request_in.induct)
  case (1 root new)
  obtain c where c: "c \<in> set (rchild root)" "d = c \<or> d \<in> desc c"
    using "1.prems"(2) by (auto simp: desc_eq [of root])
  have "tree_ok c" using "1.prems"(1) c(1) by (simp add: tree_ok_iff [of root])
  then have "inside d c" using c(2) desc_inside by (auto simp: inside_def)
  then have c_new: "overlaps new c" using "1.prems"(4) by (auto simp: overlaps_def inside_def)
  show ?case
  proof (cases "do_request_resource root new")
    case (Linked r)
    then show ?thesis
      using do_request_resource_Linked_iff [OF "1.prems"(1), of new] c(1) c_new by auto
  next
    case (Conflict_child i)
    let ?e = "rchild root ! i"
    have e: "?e \<in> set (rchild root)" "tree_ok ?e"
      using Conflict_child_bound [OF Conflict_child] "1.prems"(1) by (auto simp: tree_ok_iff [of root])
    have "request_in ?e new = None" if "\<not> busy ?e"
    proof (cases "?e = c")
      case True
      then have "d \<in> desc ?e" using c(2) that "1.prems"(3) by auto
      then show ?thesis using "1.IH" [OF Conflict_child that e(2)] "1.prems"(3,4) by simp
    next
      case False
      then have "\<not> inside new ?e"
        using siblings_disjoint [OF "1.prems"(1) c(1) e(1)] c_new
        by (auto simp: inside_def overlaps_def)
      then show ?thesis using request_in_inside by (cases "request_in ?e new") auto
    qed
    then show ?thesis using Conflict_child by (auto simp: request_in.simps [of root])
  qed (auto simp: request_in.simps [of root])
qed

section \<open>The region interface\<close>

type_synonym region = "u32 \<times> u32 \<times> string \<times> nat"

fun claim_region :: "resource \<Rightarrow> region \<Rightarrow> resource option" where
  "claim_region root (start, n, name, node) = request_region root start n name (Some node)"

fun drop_region :: "resource \<Rightarrow> region \<Rightarrow> resource option" where
  "drop_region root (start, n, name, node) = release_region root start n"

fun clash :: "region \<Rightarrow> region \<Rightarrow> bool" where
  "clash (s, n, _) (s', n', _) \<longleftrightarrow> s \<le> s' + n' - 1 \<and> s' \<le> s + n - 1"

lemma busy_region [simp]: "busy (Res a nm s e IORESOURCE_BUSY cs)"
  by (simp add: busy_def IORESOURCE_BUSY_def)

lemma release_request_region:
  assumes "request_region root start n name (Some node) = Some root'"
  shows "release_region root' start n = Some root"
proof -
  let ?new = "Res node name start (start + n - 1) IORESOURCE_BUSY []"
  have r: "request_in root ?new = Some root'" using assms by (simp add: request_region_def)
  then obtain cs where "root' = set_child cs root" using request_in_frame by blast
  then show ?thesis using request_in_release [OF r] by (simp add: release_region_def)
qed

lemma request_region_tree_ok:
  assumes "request_region root start n name node = Some root'" "tree_ok root"
  shows "tree_ok root'"
  using assms request_in_inside request_in_tree_ok
  by (force simp: request_region_def split: option.splits)

lemma request_region_clash:
  assumes "request_region root s n name (Some node) = Some root'" "tree_ok root"
    and "s \<le> s' + n' - 1" "s' \<le> s + n - 1"
  shows "request_region root' s' n' name' node' = None"
proof -
  let ?new = "Res node name s (s + n - 1) IORESOURCE_BUSY []"
  have "?new \<in> desc root'" using assms(1) request_in_desc by (simp add: request_region_def)
  moreover have "tree_ok root'" using assms(1,2) by (rule request_region_tree_ok)
  ultimately show ?thesis
    using request_in_busy [of root' ?new] assms(3,4)
    by (simp add: request_region_def overlaps_def split: option.splits)
qed

interpretation regions: exclusive_claims claim_region drop_region tree_ok clash
proof unfold_locales
  fix t t' :: resource and r q :: region
  assume "tree_ok t" and c: "claim_region t r = Some t'"
  then show "tree_ok t'" by (cases r) (auto intro: request_region_tree_ok)
  show "drop_region t' r = Some t" using c by (cases r) (auto intro: release_request_region)
  show "claim_region t' q = None" if "clash r q"
    using c \<open>tree_ok t\<close> that by (cases r; cases q) (auto intro: request_region_clash)
qed

section \<open>Properties\<close>


definition io_example :: resource where
  "io_example = Res 0 ''PCI IO'' 0 0xffff 0 [Res 1 ''bridge'' 0x300 0x3ff 0 []]"


text \<open>
  C19: releasing a region undoes the claim: whatever regions a driver claims, releasing them in
  the opposite order gives back the tree it started from.
\<close>

theorem regions_released:
  assumes "tree_ok root" "claim_all claim_region root rs = Some root'"
  shows "claim_all drop_region root' (rev rs) = Some root"
  using assms by (rule regions.claim_all_release)

theorem regions_released_witness:
  "\<exists>root'. claim_all claim_region io_example [(0x3f8, 8, ''serial'', 2), (0x60, 16, ''kbd'', 3)] = Some root' \<and>
     claim_all drop_region root' [(0x60, 16, ''kbd'', 3), (0x3f8, 8, ''serial'', 2)] = Some io_example"
proof -
  have ok: "tree_ok io_example" by (simp add: io_example_def)
  have "\<exists>root'. claim_all claim_region io_example [(0x3f8, 8, ''serial'', 2), (0x60, 16, ''kbd'', 3)] = Some root'"
    by (simp add: request_region_def io_example_def request_in.simps do_request_resource_def busy_def)
  then show ?thesis using regions_released [OF ok] by fastforce
qed

text \<open>
  C20: \<open>request_resource\<close> on a well-formed tree succeeds exactly when the range is not empty,
  lies inside the root and meets none of its children.
\<close>

theorem request_resource_iff:
  assumes "tree_ok root"
  shows "fst (request_resource root new) = 0 \<longleftrightarrow>
     rstart new \<le> rend new \<and> inside new root \<and> (\<forall>c \<in> set (rchild root). \<not> overlaps new c)"
  using do_request_resource_Linked_iff [OF assms, of new]
  by (auto simp: request_resource_def EBUSY_def split: request.splits)

theorem request_resource_iff_witness:
  "fst (request_resource io_example (Res 5 ''x'' 0x400 0x4ff 0 [])) = 0 \<and>
   fst (request_resource io_example (Res 5 ''x'' 0x3ff 0x4ff 0 [])) \<noteq> 0"
proof -
  have ok: "tree_ok io_example" by (simp add: io_example_def)
  show ?thesis
    using request_resource_iff [OF ok, of "Res 5 ''x'' 0x400 0x4ff 0 []"]
      request_resource_iff [OF ok, of "Res 5 ''x'' 0x3ff 0x4ff 0 []"]
    by (simp add: io_example_def inside_def overlaps_def)
qed

lemma find_slot_result:
  "find_slot root_end sz mn mx align None nstart this = Some (s, e) \<Longrightarrow>
   e = s + sz - 1 \<and> s AND (align - 1) = 0"
proof (induction this arbitrary: nstart)
  case Nil
  then show ?case
    by (auto simp: find_slot.simps [of _ _ _ _ _ _ _ "[]"] Let_def and.assoc split: if_splits)
next
  case (Cons t ts)
  then show ?case
    by (auto simp: find_slot.simps [of _ _ _ _ _ _ _ "t # ts"] Let_def and.assoc split: if_splits)
qed



text \<open>
  The search is off by one: it takes the start of the next child as part of the gap before
  it.  In this tree a request for 17 bytes is answered with \<open>-EBUSY\<close>, although bytes
  0x20 to 0x30 are free: the search settles on 0x00 to 0x10, which meets the child at 0x10.
\<close>

theorem allocate_misses_free_slot:
  "let root = Res 0 ''io'' 0 0xff 0 [Res 1 ''dev'' 0x10 0x1f 0 []]; new = Res 2 ''new'' 0 0 0 []
   in find_resource root 0x11 0 0xff 1 None = Some (0, 0x10) \<and>
      allocate_resource root new 0x11 0 0xff 1 None = (- EBUSY, root) \<and>
      fst (request_resource root (set_range 0x20 0x30 new)) = 0"
  by (simp add: allocate_resource_def find_resource_def find_slot.simps do_request_resource_def
      request_resource_def)

end
