(* ===== verification/Simpad_Board.thy ===== *)
theory Simpad_Board
  imports Prelude
begin

unbundle bit_operations_syntax

text \<open>
  The SIMpad board support: the write-only chip-select-3 latch with its shadow
  (\<^verbatim>\<open>arch/arm/mach-sa1100/simpad.c\<close>), the LED driver (\<^verbatim>\<open>leds-simpad.c\<close>), the
  PCMCIA socket (\<^verbatim>\<open>drivers/pcmcia/sa1100_simpad.c\<close>), the APM battery report
  (\<^verbatim>\<open>simpad_pm.c\<close>), and of the interrupt layer what they call: nested
  \<open>disable_irq\<close>/\<open>enable_irq\<close> (\<^verbatim>\<open>arch/arm/kernel/irq.c\<close>) and
  \<open>set_GPIO_IRQ_edge\<close> (\<^verbatim>\<open>arch/arm/mach-sa1100/irq.c\<close>).
\<close>

section \<open>Registers and board state\<close>

definition VCC_5V_EN :: u32 where "VCC_5V_EN = 0x0001"
definition VCC_3V_EN :: u32 where "VCC_3V_EN = 0x0002"
definition EN1 :: u32 where "EN1 = 0x0004"
definition EN0 :: u32 where "EN0 = 0x0008"
definition DISPLAY_ON :: u32 where "DISPLAY_ON = 0x0010"
definition PCMCIA_BUFF_DIS :: u32 where "PCMCIA_BUFF_DIS = 0x0020"
definition MQ_RESET :: u32 where "MQ_RESET = 0x0040"
definition PCMCIA_RESET :: u32 where "PCMCIA_RESET = 0x0080"
definition DECT_POWER_ON :: u32 where "DECT_POWER_ON = 0x0100"
definition IRDA_SD :: u32 where "IRDA_SD = 0x0200"
definition RS232_ON :: u32 where "RS232_ON = 0x0400"
definition SD_MEDIAQ :: u32 where "SD_MEDIAQ = 0x0800"
definition LED2_ON :: u32 where "LED2_ON = 0x1000"
definition IRDA_MODE :: u32 where "IRDA_MODE = 0x2000"
definition ENABLE_5V :: u32 where "ENABLE_5V = 0x4000"
definition nRESET_SIMCARD :: u32 where "nRESET_SIMCARD = 0x8000"

lemmas cs3_bits = VCC_5V_EN_def VCC_3V_EN_def EN1_def EN0_def DISPLAY_ON_def PCMCIA_BUFF_DIS_def
  MQ_RESET_def PCMCIA_RESET_def DECT_POWER_ON_def IRDA_SD_def RS232_ON_def SD_MEDIAQ_def
  LED2_ON_def IRDA_MODE_def ENABLE_5V_def nRESET_SIMCARD_def

record irqdesc =
  disable_depth :: nat
  masked :: bool
  probing :: bool
  pending :: bool
  on_pend :: bool

text \<open>
  \<open>cs3_writes\<close> is the history of the values stored to the latch, the last one being what the
  hardware holds; \<open>unbalanced\<close> counts the complaints \<open>enable_irq\<close> prints.
\<close>

record board =
  cs3_shadow :: u32
  cs3_writes :: "u32 list"
  led_state :: u32
  hw_led_state :: u32
  irq_disabled :: bool
  cf_irq :: irqdesc
  cd_registered :: bool
  unbalanced :: nat
  gpio_falling :: u32
  gpio_rising :: u32
  gpio_irq_mask :: u32
  valid_irq :: "nat \<Rightarrow> bool"
  GPDR :: u32
  GAFR :: u32
  GRER :: u32
  GFER :: u32
  PPAR :: u32
  PCFR :: u32
  PWER :: u32
  PSPR :: u32
  PGSR :: u32
  PMCR :: u32
  PSDR :: u32

definition cs3_latch :: "board \<Rightarrow> u32" where
  "cs3_latch b = last (cs3_writes b)"

section \<open>The chip-select-3 latch\<close>

definition get_cs3_shadow :: "board \<Rightarrow> u32" where
  "get_cs3_shadow b = cs3_shadow b"

definition set_cs3 :: "u32 \<Rightarrow> board \<Rightarrow> board" where
  "set_cs3 value b = b\<lparr>cs3_shadow := value, cs3_writes := cs3_writes b @ [value]\<rparr>"

definition set_cs3_bit :: "u32 \<Rightarrow> board \<Rightarrow> board" where
  "set_cs3_bit value b =
     (let w = cs3_shadow b OR value in b\<lparr>cs3_shadow := w, cs3_writes := cs3_writes b @ [w]\<rparr>)"

definition clear_cs3_bit :: "u32 \<Rightarrow> board \<Rightarrow> board" where
  "clear_cs3_bit value b =
     (let w = cs3_shadow b AND NOT value in b\<lparr>cs3_shadow := w, cs3_writes := cs3_writes b @ [w]\<rparr>)"

definition simpad_power_off :: "board \<Rightarrow> board" where
  "simpad_power_off b =
     (set_cs3 0x800 b)\<lparr>PCFR := 1 OR 2 OR 4, PWER := 1, GFER := 1, GRER := 1,
        PSPR := 0, PGSR := 0, PMCR := 1\<rparr>"

text \<open>\<open>is_ser1\<close>: whether the port is the one at \<open>Ser1UTCR0\<close>.\<close>

definition simpad_uart_pm :: "bool \<Rightarrow> u32 \<Rightarrow> board \<Rightarrow> board" where
  "simpad_uart_pm is_ser1 state b =
     (if is_ser1 then
        if state \<noteq> 0 then clear_cs3_bit RS232_ON b else set_cs3_bit RS232_ON b
      else b)"

section \<open>GPIO edges and interrupt lines\<close>

definition GPIO_NO_EDGES :: u32 where "GPIO_NO_EDGES = 0"
definition GPIO_FALLING_EDGE :: u32 where "GPIO_FALLING_EDGE = 1"
definition GPIO_RISING_EDGE :: u32 where "GPIO_RISING_EDGE = 2"
definition GPIO_BOTH_EDGES :: u32 where "GPIO_BOTH_EDGES = 3"

definition GPIO_CF_CD :: u32 where "GPIO_CF_CD = 0x01000000"
definition GPIO_CF_IRQ :: u32 where "GPIO_CF_IRQ = 0x00000002"
definition GPIO_UCB1300_IRQ :: u32 where "GPIO_UCB1300_IRQ = 0x00400000"
definition GPIO_POWER_BUTTON :: u32 where "GPIO_POWER_BUTTON = 0x00000001"

text \<open>The loop that marks the interrupts of the GPIOs in the mask valid.\<close>

function mark_valid :: "nat \<Rightarrow> u32 \<Rightarrow> (nat \<Rightarrow> bool) \<Rightarrow> (nat \<Rightarrow> bool)" where
  "mark_valid n m valid =
     (if m = 0 then valid
      else let n = (if n = 11 then 32 else n);
               valid = (if m AND 1 \<noteq> 0 then valid(n := True) else valid)
           in mark_valid (n + 1) (drop_bit 1 m) valid)"
  by pat_completeness auto
termination
  by (relation "measure (\<lambda>(n, m, valid). unat m)", simp, simp only: in_measure prod.case)
     (rule unat_drop_bit_1_less)

declare mark_valid.simps [simp del]

definition set_GPIO_IRQ_edge :: "u32 \<Rightarrow> u32 \<Rightarrow> board \<Rightarrow> board" where
  "set_GPIO_IRQ_edge gpio_mask edge b =
     (let m = gpio_mask AND 0x0fffffff;
          falling = (if edge AND GPIO_FALLING_EDGE \<noteq> 0 then gpio_falling b OR m
                     else gpio_falling b AND NOT m);
          rising = (if edge AND GPIO_RISING_EDGE \<noteq> 0 then gpio_rising b OR m
                    else gpio_rising b AND NOT m)
      in b\<lparr>gpio_falling := falling, gpio_rising := rising,
           GPDR := GPDR b AND NOT m, GAFR := GAFR b AND NOT m,
           GRER := rising AND gpio_irq_mask b, GFER := falling AND gpio_irq_mask b,
           valid_irq := mark_valid 0 m (valid_irq b)\<rparr>)"

definition disable_irq :: "irqdesc \<Rightarrow> irqdesc" where
  "disable_irq d = (if disable_depth d = 0 then d\<lparr>disable_depth := 1, masked := True\<rparr>
                    else d\<lparr>disable_depth := disable_depth d + 1\<rparr>)"

text \<open>The second component: whether the call is reported as unbalanced.\<close>

definition enable_irq :: "irqdesc \<Rightarrow> irqdesc \<times> bool" where
  "enable_irq d =
     (if disable_depth d = 0 then (d, True)
      else if disable_depth d - 1 = 0 then
        (let d' = d\<lparr>disable_depth := 0, probing := False, masked := False\<rparr>
         in if pending d then (d'\<lparr>pending := False, on_pend := True\<rparr>, False) else (d', False))
      else (d\<lparr>disable_depth := disable_depth d - 1\<rparr>, False))"

definition simpad_map_io :: "board \<Rightarrow> board" where
  "simpad_map_io b =
     (let b1 = set_cs3_bit (EN1 OR EN0 OR LED2_ON OR DISPLAY_ON OR RS232_ON OR ENABLE_5V OR
                            nRESET_SIMCARD) b;
          b2 = b1\<lparr>GAFR := GAFR b1 OR (0x4000 OR 0x8000), GPDR := (GPDR b1 OR 0x4000) AND NOT 0x8000,
                  PPAR := PPAR b1 OR 0x1000\<rparr>;
          b3 = set_GPIO_IRQ_edge GPIO_UCB1300_IRQ GPIO_RISING_EDGE b2;
          b4 = set_GPIO_IRQ_edge GPIO_POWER_BUTTON GPIO_FALLING_EDGE b3
      in b4\<lparr>PWER := 1, PGSR := 0x818, PCFR := 0, PSDR := 0\<rparr>)"

section \<open>The LED\<close>

datatype led_event = led_idle_start | led_idle_end | led_timer | led_start | led_stop | led_claim |
  led_release | led_start_timer_mode | led_stop_timer_mode | led_green_on | led_green_off |
  led_amber_on | led_amber_off | led_red_on | led_red_off | led_blue_on | led_blue_off | led_halted

definition LED_STATE_ENABLED :: u32 where "LED_STATE_ENABLED = 1"
definition LED_STATE_CLAIMED :: u32 where "LED_STATE_CLAIMED = 2"
definition LED_GREEN :: u32 where "LED_GREEN = 1"

text \<open>The \<open>switch\<close> on the event (with \<open>CONFIG_LEDS_TIMER\<close> and \<open>CONFIG_LEDS_CPU\<close> set).\<close>

fun led_switch :: "led_event \<Rightarrow> board \<Rightarrow> board" where
  "led_switch led_start b = b\<lparr>hw_led_state := LED_GREEN, led_state := LED_STATE_ENABLED\<rparr>"
| "led_switch led_stop b = b\<lparr>led_state := led_state b AND NOT LED_STATE_ENABLED\<rparr>"
| "led_switch led_claim b =
     b\<lparr>led_state := led_state b OR LED_STATE_CLAIMED, hw_led_state := LED_GREEN\<rparr>"
| "led_switch led_release b =
     b\<lparr>led_state := led_state b AND NOT LED_STATE_CLAIMED, hw_led_state := LED_GREEN\<rparr>"
| "led_switch led_timer b =
     (if led_state b AND LED_STATE_CLAIMED = 0
      then b\<lparr>hw_led_state := hw_led_state b XOR LED_GREEN\<rparr> else b)"
| "led_switch led_green_on b =
     (if led_state b AND LED_STATE_CLAIMED \<noteq> 0
      then b\<lparr>hw_led_state := hw_led_state b OR LED_GREEN\<rparr> else b)"
| "led_switch led_green_off b =
     (if led_state b AND LED_STATE_CLAIMED \<noteq> 0
      then b\<lparr>hw_led_state := hw_led_state b AND NOT LED_GREEN\<rparr> else b)"
| "led_switch _ b = b"

definition simpad_leds_event :: "led_event \<Rightarrow> board \<Rightarrow> board" where
  "simpad_leds_event evt b =
     (let b' = led_switch evt b
      in if led_state b' AND LED_STATE_ENABLED \<noteq> 0 then set_cs3_bit LED2_ON b'
         else clear_cs3_bit LED2_ON b')"

section \<open>The PCMCIA socket\<close>

record pcmcia_state =
  detect :: bool
  ready :: bool
  bvd1 :: bool
  bvd2 :: bool
  wrprot :: bool
  vs_3v :: bool
  vs_Xv :: bool

record pcmcia_configure =
  sock :: nat
  vcc :: nat
  output_on :: bool
  reset :: bool
  irq :: bool

text \<open>\<open>res\<close> is the result of \<open>request_irq\<close> for the card-detect interrupt.\<close>

definition simpad_pcmcia_init :: "int \<Rightarrow> board \<Rightarrow> int \<times> board" where
  "simpad_pcmcia_init res b =
     (let b1 = clear_cs3_bit (VCC_3V_EN OR VCC_5V_EN OR EN0 OR EN1) b;
          b2 = set_GPIO_IRQ_edge GPIO_CF_CD GPIO_NO_EDGES b1;
          b3 = set_GPIO_IRQ_edge GPIO_CF_IRQ GPIO_FALLING_EDGE b2
      in if res < 0 then (-1, b3) else (2, b3\<lparr>cd_registered := True\<rparr>))"

definition simpad_pcmcia_shutdown :: "board \<Rightarrow> int \<times> board" where
  "simpad_pcmcia_shutdown b = (0, clear_cs3_bit PCMCIA_RESET (b\<lparr>cd_registered := False\<rparr>))"

definition pcmcia_state0 :: pcmcia_state where
  "pcmcia_state0 = \<lparr>detect = False, ready = False, bvd1 = False, bvd2 = False, wrprot = False,
     vs_3v = False, vs_Xv = False\<rparr>"

text \<open>
  \<open>levels\<close> is the value read from \<open>GPLR\<close>, \<open>cs3reg\<close> what a bus read at
  \<open>CS3_BASE\<close> returns; the state array is a list.
\<close>

definition simpad_pcmcia_socket_state ::
  "u32 \<Rightarrow> u32 \<Rightarrow> pcmcia_state list \<Rightarrow> int \<times> pcmcia_state list" where
  "simpad_pcmcia_socket_state levels cs3reg states =
     (if length states < 2 then (-1, states)
      else (1, (replicate (length states) pcmcia_state0)
        [1 := \<lparr>detect = (levels AND GPIO_CF_CD = 0), ready = (levels AND GPIO_CF_IRQ \<noteq> 0),
               bvd1 = True, bvd2 = True, wrprot = False,
               vs_3v = (cs3reg AND 0x0c \<noteq> 0x0c), vs_Xv = False\<rparr>]))"

text \<open>The interrupt a socket uses: the result code and, for socket 1, \<open>IRQ_GPIO_CF_IRQ\<close>.\<close>

definition simpad_pcmcia_get_irq_info :: "nat \<Rightarrow> int \<times> nat option" where
  "simpad_pcmcia_get_irq_info s = (if 1 < s then (-1, None) else (0, if s = 1 then Some 1 else None))"

text \<open>The \<open>switch\<close> on the requested voltage: success, and the latch after it.\<close>

definition set_vcc :: "nat \<Rightarrow> board \<Rightarrow> bool \<times> board" where
  "set_vcc v b =
     (if v = 0 then (True, clear_cs3_bit (VCC_3V_EN OR VCC_5V_EN OR EN0 OR EN1) b)
      else if v = 33 then
        (True, set_cs3_bit (VCC_5V_EN OR EN0) (clear_cs3_bit (VCC_3V_EN OR EN1) b))
      else if v = 50 then
        (True, set_cs3_bit (VCC_3V_EN OR EN0) (clear_cs3_bit (VCC_5V_EN OR EN1) b))
      else (False, clear_cs3_bit (VCC_3V_EN OR VCC_5V_EN OR EN0 OR EN1) b))"

definition set_cf_irq :: "bool \<Rightarrow> board \<Rightarrow> board" where
  "set_cf_irq on b =
     (if on then
        let (d, complaint) = enable_irq (cf_irq b)
        in b\<lparr>cf_irq := d, unbalanced := unbalanced b + (if complaint then 1 else 0),
             irq_disabled := False\<rparr>
      else if \<not> irq_disabled b then b\<lparr>cf_irq := disable_irq (cf_irq b), irq_disabled := True\<rparr>
      else b)"

definition simpad_pcmcia_configure_socket :: "pcmcia_configure \<Rightarrow> board \<Rightarrow> int \<times> board" where
  "simpad_pcmcia_configure_socket c b =
     (if 1 < sock c then (-1, b)
      else if sock c = 0 then (0, b)
      else let (ok, b1) = set_vcc (vcc c) b in
      if \<not> ok then (-1, b1)
      else let b2 = (if reset c then set_cs3_bit PCMCIA_RESET b1 else clear_cs3_bit PCMCIA_RESET b1);
               b3 = (if output_on c then clear_cs3_bit PCMCIA_BUFF_DIS b2
                     else set_cs3_bit PCMCIA_BUFF_DIS b2)
           in (0, set_cf_irq (irq c) b3))"

definition simpad_pcmcia_socket_init :: "nat \<Rightarrow> board \<Rightarrow> board" where
  "simpad_pcmcia_socket_init s b =
     (if s = 1 then set_GPIO_IRQ_edge GPIO_CF_CD GPIO_BOTH_EDGES b else b)"

definition simpad_pcmcia_socket_suspend :: "nat \<Rightarrow> board \<Rightarrow> board" where
  "simpad_pcmcia_socket_suspend s b =
     (if s = 1 then set_cs3_bit PCMCIA_RESET (set_GPIO_IRQ_edge GPIO_CF_CD GPIO_NO_EDGES b) else b)"

section \<open>The battery report\<close>

record simpad_battery =
  ac_status :: u8
  status :: u8
  percentage :: u8

record power_status =
  ac_line_status :: u8
  battery_status :: u8
  battery_percentage :: u8
  battery_life :: u16

text \<open>
  \<open>result\<close> and \<open>bstat\<close> are what \<open>simpad_get_battery\<close> delivers; the four output
  pointers are non-null.  The source leaves \<open>*battery_flag\<close> alone.
\<close>

definition simpad_apm_get_power_status ::
  "int \<Rightarrow> simpad_battery \<Rightarrow> power_status \<Rightarrow> int \<times> power_status" where
  "simpad_apm_get_power_status result bstat out =
     (if result \<noteq> 0 then (0, out)
      else
       let ac = (if ac_status bstat = 0 then 0 else if ac_status bstat = 1 then 1
                 else if ac_status bstat = 2 then 2 else 0xff);
           st = status bstat;
           level = (if st AND (0x08 OR 0x10) \<noteq> 0 then 3
                    else if st AND (0x01 OR 0x40) \<noteq> 0 then 0
                    else if st AND 0x02 \<noteq> 0 then 1
                    else if st AND 0x04 \<noteq> 0 then 2
                    else 0xff)
       in (1, out\<lparr>ac_line_status := ac, battery_status := level,
                  battery_percentage := percentage bstat, battery_life := 0xffff\<rparr>))"

section \<open>The latch as an interface\<close>

text \<open>
  What the drivers rely on: setting and clearing bits acts on the shadow as the logical
  operations, and the last value stored to the hardware is the shadow.
\<close>

locale shadow_latch =
  fixes set_bits clear_bits :: "u32 \<Rightarrow> 's \<Rightarrow> 's"
    and shadow :: "'s \<Rightarrow> u32" and stores :: "'s \<Rightarrow> u32 list"
  assumes shadow_set: "shadow (set_bits v s) = shadow s OR v"
    and shadow_clear: "shadow (clear_bits v s) = shadow s AND NOT v"
    and stores_set: "stores (set_bits v s) = stores s @ [shadow s OR v]"
    and stores_clear: "stores (clear_bits v s) = stores s @ [shadow s AND NOT v]"
begin

lemma bit_set: "bit (shadow (set_bits v s)) n \<longleftrightarrow> bit (shadow s) n \<or> bit v n"
  by (simp add: shadow_set bit_simps)

lemma bit_clear: "bit (shadow (clear_bits v s)) n \<longleftrightarrow> bit (shadow s) n \<and> \<not> bit v n"
  by (cases "n < 32") (auto simp: shadow_clear bit_simps dest: bit_imp_le_length)

lemma in_step:
  "last (stores (set_bits v s)) = shadow (set_bits v s)"
  "last (stores (clear_bits v s)) = shadow (clear_bits v s)"
  by (simp_all add: stores_set stores_clear shadow_set shadow_clear)

lemma move_bits: "bit (shadow (set_bits u (clear_bits v s))) n \<longleftrightarrow>
    bit (shadow s) n \<and> \<not> bit v n \<or> bit u n"
  by (simp add: bit_set bit_clear)

lemma stored_values:
  "set (stores (set_bits v s)) = insert (shadow (set_bits v s)) (set (stores s))"
  "set (stores (clear_bits v s)) = insert (shadow (clear_bits v s)) (set (stores s))"
  by (simp_all add: stores_set stores_clear shadow_set shadow_clear)

end

interpretation cs3: shadow_latch set_cs3_bit clear_cs3_bit cs3_shadow cs3_writes
  by unfold_locales (simp_all add: set_cs3_bit_def clear_cs3_bit_def Let_def)

section \<open>Runs of the board\<close>

datatype board_op = Map_io | Uart_pm bool u32 | Leds led_event | Pcmcia_init int | Pcmcia_shutdown |
  Configure pcmcia_configure | Socket_init nat | Socket_suspend nat | Power_off

fun exec_board :: "board_op \<Rightarrow> board \<Rightarrow> board" where
  "exec_board Map_io b = simpad_map_io b"
| "exec_board (Uart_pm ser1 st) b = simpad_uart_pm ser1 st b"
| "exec_board (Leds e) b = simpad_leds_event e b"
| "exec_board (Pcmcia_init r) b = snd (simpad_pcmcia_init r b)"
| "exec_board Pcmcia_shutdown b = snd (simpad_pcmcia_shutdown b)"
| "exec_board (Configure c) b = snd (simpad_pcmcia_configure_socket c b)"
| "exec_board (Socket_init s) b = simpad_pcmcia_socket_init s b"
| "exec_board (Socket_suspend s) b = simpad_pcmcia_socket_suspend s b"
| "exec_board Power_off b = simpad_power_off b"

text \<open>Both supply switches of the PCMCIA slot on at once.\<close>

definition both_rails :: "u32 \<Rightarrow> bool" where
  "both_rails w \<longleftrightarrow> w AND VCC_5V_EN \<noteq> 0 \<and> w AND VCC_3V_EN \<noteq> 0"

lemma both_rails_bits: "both_rails w \<longleftrightarrow> bit w 0 \<and> bit w 1"
  using and_2p_ne_0 [of w 0] and_2p_ne_0 [of w 1]
  by (simp add: both_rails_def VCC_5V_EN_def VCC_3V_EN_def)

definition latch_ok :: "board \<Rightarrow> bool" where
  "latch_ok b \<longleftrightarrow> (cs3_writes b \<noteq> [] \<longrightarrow> cs3_latch b = cs3_shadow b) \<and>
     (\<forall>w \<in> insert (cs3_shadow b) (set (cs3_writes b)). \<not> both_rails w)"

definition irq_ok :: "board \<Rightarrow> bool" where
  "irq_ok b \<longleftrightarrow> disable_depth (cf_irq b) = (if irq_disabled b then 1 else 0)"

definition board_ok :: "board \<Rightarrow> bool" where
  "board_ok b \<longleftrightarrow> latch_ok b \<and> irq_ok b"

lemma latch_ok_set:
  assumes "latch_ok b" "\<not> both_rails (cs3_shadow b OR v)"
  shows "latch_ok (set_cs3_bit v b)"
  using assms by (simp add: latch_ok_def cs3_latch_def cs3.in_step cs3.stored_values cs3.shadow_set)

lemma latch_ok_clear: "latch_ok b \<Longrightarrow> latch_ok (clear_cs3_bit v b)"
  by (auto simp: latch_ok_def cs3_latch_def cs3.in_step cs3.stored_values cs3.shadow_clear
      both_rails_bits bit_simps)

lemma latch_ok_cong:
  "cs3_shadow b' = cs3_shadow b \<Longrightarrow> cs3_writes b' = cs3_writes b \<Longrightarrow> latch_ok b' = latch_ok b"
  by (simp add: latch_ok_def cs3_latch_def)

lemma irq_ok_cong:
  "cf_irq b' = cf_irq b \<Longrightarrow> irq_disabled b' = irq_disabled b \<Longrightarrow> irq_ok b' = irq_ok b"
  by (simp add: irq_ok_def)

lemma latch_frame [simp]:
  "cf_irq (set_cs3_bit v b) = cf_irq b" "irq_disabled (set_cs3_bit v b) = irq_disabled b"
  "cf_irq (clear_cs3_bit v b) = cf_irq b" "irq_disabled (clear_cs3_bit v b) = irq_disabled b"
  by (simp_all add: set_cs3_bit_def clear_cs3_bit_def Let_def)

lemma edge_frame [simp]:
  "cs3_shadow (set_GPIO_IRQ_edge m e b) = cs3_shadow b"
  "cs3_writes (set_GPIO_IRQ_edge m e b) = cs3_writes b"
  "cf_irq (set_GPIO_IRQ_edge m e b) = cf_irq b"
  "irq_disabled (set_GPIO_IRQ_edge m e b) = irq_disabled b"
  by (simp_all add: set_GPIO_IRQ_edge_def Let_def)

lemma led_frame [simp]:
  "cs3_shadow (led_switch e b) = cs3_shadow b" "cs3_writes (led_switch e b) = cs3_writes b"
  "cf_irq (led_switch e b) = cf_irq b" "irq_disabled (led_switch e b) = irq_disabled b"
  by (cases e; simp)+

lemma cf_irq_frame [simp]:
  "cs3_shadow (set_cf_irq on b) = cs3_shadow b" "cs3_writes (set_cf_irq on b) = cs3_writes b"
  by (simp_all add: set_cf_irq_def split: prod.splits)

lemma irq_ok_set_cf_irq: "irq_ok b \<Longrightarrow> irq_ok (set_cf_irq on b)"
  by (auto simp: irq_ok_def set_cf_irq_def enable_irq_def disable_irq_def Let_def split: if_splits)

text \<open>A bit pattern outside the two supply bits cannot switch a rail on.\<close>

lemma latch_ok_set_other:
  assumes "latch_ok b" "v AND 3 = 0"
  shows "latch_ok (set_cs3_bit v b)"
proof -
  have "\<not> bit (v AND 3) 0" "\<not> bit (v AND 3) 1" using assms(2) by simp_all
  then have "\<not> bit v 0" "\<not> bit v 1" by (simp_all only: bit_and_iff) simp_all
  then show ?thesis
    using assms(1) by (intro latch_ok_set) (auto simp: latch_ok_def both_rails_bits bit_simps)
qed

lemma cs3_other_bits [simp]:
  "PCMCIA_RESET AND 3 = 0" "PCMCIA_BUFF_DIS AND 3 = 0" "LED2_ON AND 3 = 0" "RS232_ON AND 3 = 0"
  by (simp_all add: cs3_bits)

lemma set_vcc_latch_ok: "latch_ok b \<Longrightarrow> latch_ok (snd (set_vcc v b))"
  unfolding set_vcc_def
  by (auto intro!: latch_ok_set latch_ok_clear
      simp: both_rails_bits cs3.shadow_clear bit_simps cs3_bits split: if_splits)

lemma set_vcc_frame [simp]:
  "cf_irq (snd (set_vcc v b)) = cf_irq b" "irq_disabled (snd (set_vcc v b)) = irq_disabled b"
  by (simp_all add: set_vcc_def)

lemma configure_board_ok:
  assumes "board_ok b"
  shows "board_ok (snd (simpad_pcmcia_configure_socket c b))"
proof -
  obtain ok b1 where b1: "set_vcc (vcc c) b = (ok, b1)" by (cases "set_vcc (vcc c) b")
  then have 1: "latch_ok b1" "cf_irq b1 = cf_irq b" "irq_disabled b1 = irq_disabled b"
    using assms set_vcc_latch_ok [of b "vcc c"] set_vcc_frame [of "vcc c" b]
    by (auto simp: board_ok_def)
  define b2 where "b2 = (if reset c then set_cs3_bit PCMCIA_RESET b1 else clear_cs3_bit PCMCIA_RESET b1)"
  define b3 where "b3 = (if output_on c then clear_cs3_bit PCMCIA_BUFF_DIS b2
     else set_cs3_bit PCMCIA_BUFF_DIS b2)"
  have "latch_ok b2" using 1 by (simp add: b2_def latch_ok_clear latch_ok_set_other)
  then have 3: "latch_ok b3" by (simp add: b3_def latch_ok_clear latch_ok_set_other)
  have "irq_ok b1" "irq_ok b3"
    using assms 1 by (simp_all add: board_ok_def irq_ok_def b2_def b3_def)
  then have "board_ok b1" "board_ok (set_cf_irq (irq c) b3)"
    using 1 3 latch_ok_cong [of "set_cf_irq (irq c) b3" b3]
    by (simp_all add: board_ok_def irq_ok_set_cf_irq)
  then show ?thesis
    using assms
    by (simp add: simpad_pcmcia_configure_socket_def b1 b2_def [symmetric] b3_def [symmetric] Let_def)
qed

lemma leds_board_ok: "board_ok b \<Longrightarrow> board_ok (simpad_leds_event e b)"
  using latch_ok_cong [of "led_switch e b" b] irq_ok_cong [of "led_switch e b" b]
  by (simp add: board_ok_def simpad_leds_event_def Let_def latch_ok_clear latch_ok_set_other
      irq_ok_def)

lemma map_io_board_ok:
  assumes "board_ok b"
  shows "board_ok (simpad_map_io b)"
proof -
  let ?v = "EN1 OR EN0 OR LED2_ON OR DISPLAY_ON OR RS232_ON OR ENABLE_5V OR nRESET_SIMCARD"
  have "latch_ok (set_cs3_bit ?v b)"
    using assms by (intro latch_ok_set_other) (simp_all add: board_ok_def cs3_bits)
  moreover have "cs3_shadow (simpad_map_io b) = cs3_shadow (set_cs3_bit ?v b)"
      "cs3_writes (simpad_map_io b) = cs3_writes (set_cs3_bit ?v b)"
      "cf_irq (simpad_map_io b) = cf_irq b" "irq_disabled (simpad_map_io b) = irq_disabled b"
    by (simp_all add: simpad_map_io_def Let_def)
  ultimately show ?thesis
    using assms latch_ok_cong [of "simpad_map_io b" "set_cs3_bit ?v b"]
      irq_ok_cong [of "simpad_map_io b" b] by (simp add: board_ok_def)
qed

lemma power_off_board_ok: "board_ok b \<Longrightarrow> board_ok (simpad_power_off b)"
  by (simp add: board_ok_def latch_ok_def irq_ok_def simpad_power_off_def set_cs3_def cs3_latch_def
      both_rails_bits)

lemma pcmcia_init_board_ok:
  assumes "board_ok b"
  shows "board_ok (snd (simpad_pcmcia_init r b))"
proof -
  let ?c = "clear_cs3_bit (VCC_3V_EN OR VCC_5V_EN OR EN0 OR EN1) b"
  have "cs3_shadow (snd (simpad_pcmcia_init r b)) = cs3_shadow ?c"
      "cs3_writes (snd (simpad_pcmcia_init r b)) = cs3_writes ?c"
      "cf_irq (snd (simpad_pcmcia_init r b)) = cf_irq b"
      "irq_disabled (snd (simpad_pcmcia_init r b)) = irq_disabled b"
    by (simp_all add: simpad_pcmcia_init_def Let_def)
  then show ?thesis
    using assms latch_ok_clear [of b "VCC_3V_EN OR VCC_5V_EN OR EN0 OR EN1"]
      latch_ok_cong [of "snd (simpad_pcmcia_init r b)" ?c] irq_ok_cong [of "snd (simpad_pcmcia_init r b)" b]
    by (simp only: board_ok_def simp_thms)
qed

lemma shutdown_board_ok: "board_ok b \<Longrightarrow> board_ok (snd (simpad_pcmcia_shutdown b))"
  using latch_ok_cong [of "b\<lparr>cd_registered := False\<rparr>" b]
  by (simp add: board_ok_def simpad_pcmcia_shutdown_def latch_ok_clear irq_ok_def)

lemma socket_board_ok:
  assumes "board_ok b"
  shows "board_ok (simpad_pcmcia_socket_init s b)" "board_ok (simpad_pcmcia_socket_suspend s b)"
  using assms latch_ok_cong [of "set_GPIO_IRQ_edge GPIO_CF_CD GPIO_NO_EDGES b" b]
    latch_ok_cong [of "set_GPIO_IRQ_edge GPIO_CF_CD GPIO_BOTH_EDGES b" b]
  by (auto simp: board_ok_def simpad_pcmcia_socket_init_def simpad_pcmcia_socket_suspend_def
      irq_ok_def latch_ok_set_other)

lemma uart_board_ok: "board_ok b \<Longrightarrow> board_ok (simpad_uart_pm ser1 st b)"
  by (simp add: board_ok_def simpad_uart_pm_def latch_ok_clear latch_ok_set_other irq_ok_def)

lemma exec_board_ok: "board_ok b \<Longrightarrow> board_ok (exec_board op b)"
  by (cases op) (simp_all add: configure_board_ok leds_board_ok map_io_board_ok power_off_board_ok
      pcmcia_init_board_ok shutdown_board_ok socket_board_ok uart_board_ok)

interpretation board: op_invariant exec_board board_ok
  by unfold_locales (rule exec_board_ok)

section \<open>Properties\<close>

text \<open>
  C2: however the drivers of the board (UART power, LED, PCMCIA set-up, configuration, suspend,
  power-off) are called, the last value stored to the write-only latch is the shadow, no value
  ever stored, not even between two steps of one call, switches both supply rails of the PCMCIA
  slot on, and the slot's interrupt is disabled at most once, exactly when the driver's flag
  says so.
\<close>

theorem board_run_safe:
  assumes "board_ok b"
  shows "board_ok (fold exec_board ops b)"
  using assms by (rule board.run_inv)

definition board0 :: board where
  "board0 = \<lparr>cs3_shadow = 0, cs3_writes = [], led_state = 0, hw_led_state = 0, irq_disabled = False,
     cf_irq = \<lparr>disable_depth = 0, masked = False, probing = False, pending = False, on_pend = False\<rparr>,
     cd_registered = False, unbalanced = 0, gpio_falling = 0, gpio_rising = 0, gpio_irq_mask = 0,
     valid_irq = (\<lambda>_. False), GPDR = 0, GAFR = 0, GRER = 0, GFER = 0, PPAR = 0, PCFR = 0, PWER = 0,
     PSPR = 0, PGSR = 0, PMCR = 0, PSDR = 0\<rparr>"

theorem board_run_safe_witness:
  "board_ok board0 \<and>
   board_ok (fold exec_board [Map_io, Configure \<lparr>sock = 1, vcc = 33, output_on = True, reset = False,
     irq = False\<rparr>, Leds led_start] board0)"
proof -
  have h: "board_ok board0"
    by (simp add: board_ok_def latch_ok_def irq_ok_def board0_def both_rails_def)
  show ?thesis using h board_run_safe [OF h] by blast
qed

lemma cs3_bit_iff:
  "bit VCC_5V_EN n \<longleftrightarrow> n = 0" "bit VCC_3V_EN n \<longleftrightarrow> n = 1" "bit EN1 n \<longleftrightarrow> n = 2" "bit EN0 n \<longleftrightarrow> n = 3"
  "bit PCMCIA_BUFF_DIS n \<longleftrightarrow> n = 5" "bit PCMCIA_RESET n \<longleftrightarrow> n = 7" "bit LED2_ON n \<longleftrightarrow> n = 12"
  using bit_2p_iff [of 0 n, where 'a = 32] bit_2p_iff [of 1 n, where 'a = 32]
    bit_2p_iff [of 2 n, where 'a = 32] bit_2p_iff [of 3 n, where 'a = 32]
    bit_2p_iff [of 5 n, where 'a = 32] bit_2p_iff [of 7 n, where 'a = 32]
    bit_2p_iff [of 12 n, where 'a = 32]
  by (simp_all add: cs3_bits)

lemmas latch_bits = cs3.bit_set cs3.bit_clear bit_or_iff cs3_bit_iff

lemma set_vcc_bits:
  "v \<in> {0, 33, 50} \<Longrightarrow> fst (set_vcc v b) \<and> bit (cs3_shadow (snd (set_vcc v b))) n =
     (if n = 0 then v = 33 else if n = 1 then v = 50 else if n = 2 then False
      else if n = 3 then v = 33 \<or> v = 50 else bit (cs3_shadow b) n)"
  by (auto simp: set_vcc_def latch_bits)



lemma configure_refused:
  assumes "sock c = 1" "vcc c \<notin> {0, 33, 50}"
  shows "simpad_pcmcia_configure_socket c b =
     (-1, clear_cs3_bit (VCC_3V_EN OR VCC_5V_EN OR EN0 OR EN1) b)"
  using assms by (simp add: simpad_pcmcia_configure_socket_def set_vcc_def)


text \<open>
  C35: every second request in a row for the slot's interrupt is reported as unbalanced.  When the
  interrupt is not disabled, configuring the socket with the interrupt on calls
  \<open>enable_irq\<close> although nothing disabled it.
\<close>

theorem configure_irq_unbalanced:
  assumes "irq_ok b" "\<not> irq_disabled b" "sock c = 1" "vcc c \<in> {0, 33, 50}" "irq c"
  shows "unbalanced (snd (simpad_pcmcia_configure_socket c b)) = unbalanced b + 1"
proof -
  obtain b1 where "set_vcc (vcc c) b = (True, b1)"
    using set_vcc_bits [OF assms(4), of b 0] by (cases "set_vcc (vcc c) b") auto
  moreover have "unbalanced (snd (set_vcc (vcc c) b)) = unbalanced b"
    by (simp add: set_vcc_def set_cs3_bit_def clear_cs3_bit_def Let_def)
  moreover have "unbalanced (set_cs3_bit v x) = unbalanced x" "unbalanced (clear_cs3_bit v x) = unbalanced x"
    for v x by (simp_all add: set_cs3_bit_def clear_cs3_bit_def Let_def)
  ultimately show ?thesis
    using assms set_vcc_frame [of "vcc c" b]
    by (simp add: simpad_pcmcia_configure_socket_def set_cf_irq_def enable_irq_def irq_ok_def Let_def)
qed

theorem configure_irq_unbalanced_witness:
  "unbalanced (snd (simpad_pcmcia_configure_socket
     \<lparr>sock = 1, vcc = 33, output_on = True, reset = False, irq = True\<rparr> board0)) = 1"
  using configure_irq_unbalanced [of board0
      "\<lparr>sock = 1, vcc = 33, output_on = True, reset = False, irq = True\<rparr>"]
  by (simp add: irq_ok_def board0_def)

end
