(* ===== verification/Kstring.thy ===== *)
theory Kstring
  imports Prelude "HOL-Library.Monad_Syntax"
begin

unbundle bit_operations_syntax

text \<open>
  The character classes of \<^verbatim>\<open>lib/ctype.c\<close> and \<^verbatim>\<open>include/linux/ctype.h\<close>,
  and the string and memory routines of \<^verbatim>\<open>lib/string.c\<close>.  Memory maps addresses to
  characters; a routine that writes returns the memory afterwards.  A loop that stops at a
  terminator is a partial function, undefined (\<open>None\<close>) when there is none.  A \<open>size_t\<close>
  count is a natural number.  Characters are unsigned, as on ARM.  For \<open>strchr\<close>,
  \<open>strrchr\<close>, \<open>memset\<close>, \<open>memcpy\<close>, \<open>memmove\<close> and \<open>memchr\<close> the C text is
  what other machines compile; ARM replaces them by assembler.
\<close>

section \<open>Character classes\<close>

abbreviation NUL :: char where "NUL \<equiv> CHR 0x00"

definition CT_U :: u8 where "CT_U = 0x01"
definition CT_L :: u8 where "CT_L = 0x02"
definition CT_D :: u8 where "CT_D = 0x04"
definition CT_C :: u8 where "CT_C = 0x08"
definition CT_P :: u8 where "CT_P = 0x10"
definition CT_S :: u8 where "CT_S = 0x20"
definition CT_X :: u8 where "CT_X = 0x40"
definition CT_SP :: u8 where "CT_SP = 0x80"

lemmas ctype_bits = CT_U_def CT_L_def CT_D_def CT_C_def CT_P_def CT_S_def CT_X_def CT_SP_def

text \<open>The table, row by row.\<close>

definition ctype :: "u8 list" where
  "ctype =
     replicate 9 CT_C @ replicate 5 (CT_C OR CT_S) @ replicate 18 CT_C @
     [CT_S OR CT_SP] @ replicate 15 CT_P @
     replicate 10 CT_D @ replicate 7 CT_P @
     replicate 6 (CT_U OR CT_X) @ replicate 20 CT_U @ replicate 6 CT_P @
     replicate 6 (CT_L OR CT_X) @ replicate 20 CT_L @ replicate 4 CT_P @ [CT_C] @
     replicate 32 0 @
     [CT_S OR CT_SP] @ replicate 31 CT_P @
     replicate 23 CT_U @ [CT_P] @ replicate 7 CT_U @ [CT_L] @
     replicate 23 CT_L @ [CT_P] @ replicate 8 CT_L"

definition ismask :: "char \<Rightarrow> u8" where
  "ismask c = ctype ! of_char c"

definition isdigit :: "char \<Rightarrow> bool" where "isdigit c \<longleftrightarrow> ismask c AND CT_D \<noteq> 0"
definition islower :: "char \<Rightarrow> bool" where "islower c \<longleftrightarrow> ismask c AND CT_L \<noteq> 0"
definition isspace :: "char \<Rightarrow> bool" where "isspace c \<longleftrightarrow> ismask c AND CT_S \<noteq> 0"
definition isupper :: "char \<Rightarrow> bool" where "isupper c \<longleftrightarrow> ismask c AND CT_U \<noteq> 0"
definition isxdigit :: "char \<Rightarrow> bool" where "isxdigit c \<longleftrightarrow> ismask c AND (CT_D OR CT_X) \<noteq> 0"

definition tolower :: "char \<Rightarrow> char" where
  "tolower c = (if isupper c then char_of ((of_char c :: nat) + 32) else c)"

definition toupper :: "char \<Rightarrow> char" where
  "toupper c = (if islower c then char_of ((of_char c :: nat) - 32) else c)"

section \<open>Strings in memory\<close>

type_synonym mem = "nat \<Rightarrow> char"

fun strnicmp_loop :: "mem \<Rightarrow> nat \<Rightarrow> nat \<Rightarrow> nat \<Rightarrow> int" where
  "strnicmp_loop m s1 s2 0 = 0"
| "strnicmp_loop m s1 s2 (Suc len) =
     (let c1 = m s1; c2 = m s2; diff = (\<lambda>a b. int (of_char a) - int (of_char b)) in
      if c1 = NUL then diff c1 c2
      else if c2 = NUL then diff c1 c2
      else if c1 = c2 then if len = 0 then diff c1 c2 else strnicmp_loop m (s1 + 1) (s2 + 1) len
      else let c1 = tolower c1; c2 = tolower c2 in
        if c1 \<noteq> c2 then diff c1 c2
        else if len = 0 then diff c1 c2 else strnicmp_loop m (s1 + 1) (s2 + 1) len)"

definition strnicmp :: "mem \<Rightarrow> nat \<Rightarrow> nat \<Rightarrow> nat \<Rightarrow> int" where
  "strnicmp m s1 s2 len = (if len \<noteq> 0 then strnicmp_loop m s1 s2 len else 0)"

partial_function (option) strcpy_loop :: "mem \<Rightarrow> nat \<Rightarrow> nat \<Rightarrow> mem option" where
  "strcpy_loop m dest src =
     (let c = m src; m' = m(dest := c) in
      if c \<noteq> NUL then strcpy_loop m' (dest + 1) (src + 1) else Some m')"

definition strcpy :: "mem \<Rightarrow> nat \<Rightarrow> nat \<Rightarrow> mem option" where
  "strcpy m dest src = strcpy_loop m dest src"

fun strncpy :: "mem \<Rightarrow> nat \<Rightarrow> nat \<Rightarrow> nat \<Rightarrow> mem" where
  "strncpy m dest src 0 = m"
| "strncpy m dest src (Suc count) =
     (let c = m src; m' = m(dest := c) in
      if c \<noteq> NUL then strncpy m' (dest + 1) (src + 1) count else m')"

partial_function (option) str_end :: "mem \<Rightarrow> nat \<Rightarrow> nat option" where
  "str_end m dest = (if m dest \<noteq> NUL then str_end m (dest + 1) else Some dest)"

definition strcat :: "mem \<Rightarrow> nat \<Rightarrow> nat \<Rightarrow> mem option" where
  "strcat m dest src = do { e \<leftarrow> str_end m dest; strcpy_loop m e src }"

text \<open>The copy loop of \<open>strncat\<close>, entered with a positive count.\<close>

fun strncat_loop :: "mem \<Rightarrow> nat \<Rightarrow> nat \<Rightarrow> nat \<Rightarrow> mem" where
  "strncat_loop m dest src 0 = m"
| "strncat_loop m dest src (Suc count) =
     (let c = m src; m' = m(dest := c) in
      if c \<noteq> NUL then
        if count = 0 then m'(dest + 1 := NUL) else strncat_loop m' (dest + 1) (src + 1) count
      else m')"

definition strncat :: "mem \<Rightarrow> nat \<Rightarrow> nat \<Rightarrow> nat \<Rightarrow> mem option" where
  "strncat m dest src count =
     (if count \<noteq> 0 then do { e \<leftarrow> str_end m dest; Some (strncat_loop m e src count) } else Some m)"

text \<open>The comparison result is kept in a \<open>signed char\<close>.\<close>

definition signed_char :: "int \<Rightarrow> int" where
  "signed_char x = (x + 128) mod 256 - 128"

definition char_diff :: "char \<Rightarrow> char \<Rightarrow> int" where
  "char_diff a b = signed_char (int (of_char a) - int (of_char b))"

partial_function (option) strcmp :: "mem \<Rightarrow> nat \<Rightarrow> nat \<Rightarrow> int option" where
  "strcmp m cs ct =
     (let res = char_diff (m cs) (m ct) in
      if res \<noteq> 0 \<or> m cs = NUL then Some res else strcmp m (cs + 1) (ct + 1))"

fun strncmp_loop :: "mem \<Rightarrow> nat \<Rightarrow> nat \<Rightarrow> nat \<Rightarrow> int \<Rightarrow> int" where
  "strncmp_loop m cs ct 0 res = res"
| "strncmp_loop m cs ct (Suc count) _ =
     (let res = char_diff (m cs) (m ct) in
      if res \<noteq> 0 \<or> m cs = NUL then res else strncmp_loop m (cs + 1) (ct + 1) count res)"

definition strncmp :: "mem \<Rightarrow> nat \<Rightarrow> nat \<Rightarrow> nat \<Rightarrow> int" where
  "strncmp m cs ct count = strncmp_loop m cs ct count 0"

text \<open>Searches return the address found, or \<open>None\<close> for the null pointer, inside the option of
  a loop that ends.\<close>

partial_function (option) strchr :: "mem \<Rightarrow> nat \<Rightarrow> char \<Rightarrow> nat option option" where
  "strchr m s c =
     (if m s \<noteq> NUL then if m s = c then Some (Some s) else strchr m (s + 1) c else Some None)"

partial_function (option) strlen_loop :: "mem \<Rightarrow> nat \<Rightarrow> nat \<Rightarrow> nat option" where
  "strlen_loop m s sc = (if m sc \<noteq> NUL then strlen_loop m s (sc + 1) else Some (sc - s))"

definition strlen :: "mem \<Rightarrow> nat \<Rightarrow> nat option" where
  "strlen m s = strlen_loop m s s"

text \<open>\<open>n\<close> is the distance of \<open>p\<close> from the start of the string.\<close>

fun strrchr_loop :: "mem \<Rightarrow> nat \<Rightarrow> nat \<Rightarrow> char \<Rightarrow> nat option" where
  "strrchr_loop m s 0 c = (if m s = c then Some s else None)"
| "strrchr_loop m s (Suc n) c = (if m (s + Suc n) = c then Some (s + Suc n) else strrchr_loop m s n c)"

definition strrchr :: "mem \<Rightarrow> nat \<Rightarrow> char \<Rightarrow> nat option option" where
  "strrchr m s c = do { n \<leftarrow> strlen m s; Some (strrchr_loop m s n c) }"

fun strnlen_loop :: "mem \<Rightarrow> nat \<Rightarrow> nat \<Rightarrow> nat \<Rightarrow> nat" where
  "strnlen_loop m s sc 0 = sc - s"
| "strnlen_loop m s sc (Suc count) =
     (if m sc \<noteq> NUL then strnlen_loop m s (sc + 1) count else sc - s)"

definition strnlen :: "mem \<Rightarrow> nat \<Rightarrow> nat \<Rightarrow> nat" where
  "strnlen m s count = strnlen_loop m s s count"

text \<open>Whether a character occurs in the string at \<open>a\<close>: the inner loops of \<open>strspn\<close> and
  \<open>strpbrk\<close>.\<close>

partial_function (option) in_str :: "mem \<Rightarrow> nat \<Rightarrow> char \<Rightarrow> bool option" where
  "in_str m a c =
     (if m a \<noteq> NUL then if c = m a then Some True else in_str m (a + 1) c else Some False)"

partial_function (option) strspn_loop :: "mem \<Rightarrow> nat \<Rightarrow> nat \<Rightarrow> nat \<Rightarrow> nat option" where
  "strspn_loop m p accept count =
     (if m p \<noteq> NUL then
        Option.bind (in_str m accept (m p)) (\<lambda>b.
          if \<not> b then Some count else strspn_loop m (p + 1) accept (count + 1))
      else Some count)"

definition strspn :: "mem \<Rightarrow> nat \<Rightarrow> nat \<Rightarrow> nat option" where
  "strspn m s accept = strspn_loop m s accept 0"

partial_function (option) strpbrk :: "mem \<Rightarrow> nat \<Rightarrow> nat \<Rightarrow> nat option option" where
  "strpbrk m cs ct =
     (if m cs \<noteq> NUL then
        Option.bind (in_str m ct (m cs)) (\<lambda>b. if b then Some (Some cs) else strpbrk m (cs + 1) ct)
      else Some None)"

text \<open>
  The tokenisers: the token, the place to go on from (\<open>___strtok\<close>, or the caller's pointer)
  and the memory.
\<close>

definition strtok ::
  "mem \<Rightarrow> nat option \<Rightarrow> nat option \<Rightarrow> nat \<Rightarrow> (nat option \<times> nat option \<times> mem) option" where
  "strtok m tok s ct =
     (case (case s of Some p \<Rightarrow> Some p | None \<Rightarrow> tok) of
        None \<Rightarrow> Some (None, tok, m)
      | Some sbegin \<Rightarrow> do {
          n \<leftarrow> strspn m sbegin ct;
          let sbegin = sbegin + n;
          if m sbegin = NUL then Some (None, None, m)
          else do {
            send \<leftarrow> strpbrk m sbegin ct;
            Some (case send of
                    Some e \<Rightarrow> if m e \<noteq> NUL then (Some sbegin, Some (e + 1), m(e := NUL))
                             else (Some sbegin, Some e, m)
                  | None \<Rightarrow> (Some sbegin, None, m))
          }
        })"

definition strsep :: "mem \<Rightarrow> nat option \<Rightarrow> nat \<Rightarrow> (nat option \<times> nat option \<times> mem) option" where
  "strsep m s ct =
     (case s of
        None \<Rightarrow> Some (None, None, m)
      | Some sbegin \<Rightarrow> do {
          e \<leftarrow> strpbrk m sbegin ct;
          Some (case e of
                  Some e \<Rightarrow> (Some sbegin, Some (e + 1), m(e := NUL))
                | None \<Rightarrow> (Some sbegin, None, m))
        })"

section \<open>Memory areas\<close>

fun memset :: "mem \<Rightarrow> nat \<Rightarrow> char \<Rightarrow> nat \<Rightarrow> mem" where
  "memset m s c 0 = m"
| "memset m s c (Suc count) = memset (m(s := c)) (s + 1) c count"

text \<open>The loop of \<open>bcopy\<close>, \<open>memcpy\<close> and the upward half of \<open>memmove\<close>.\<close>

fun memcpy :: "mem \<Rightarrow> nat \<Rightarrow> nat \<Rightarrow> nat \<Rightarrow> mem" where
  "memcpy m dest src 0 = m"
| "memcpy m dest src (Suc count) = memcpy (m(dest := m src)) (dest + 1) (src + 1) count"

definition bcopy :: "mem \<Rightarrow> nat \<Rightarrow> nat \<Rightarrow> nat \<Rightarrow> mem" where
  "bcopy m src dest count = memcpy m dest src count"

fun copy_down :: "mem \<Rightarrow> nat \<Rightarrow> nat \<Rightarrow> nat \<Rightarrow> mem" where
  "copy_down m dest src 0 = m"
| "copy_down m dest src (Suc count) = copy_down (m(dest + count := m (src + count))) dest src count"

definition memmove :: "mem \<Rightarrow> nat \<Rightarrow> nat \<Rightarrow> nat \<Rightarrow> mem" where
  "memmove m dest src count =
     (if dest \<le> src then memcpy m dest src count else copy_down m dest src count)"

fun memcmp :: "mem \<Rightarrow> nat \<Rightarrow> nat \<Rightarrow> nat \<Rightarrow> int" where
  "memcmp m su1 su2 0 = 0"
| "memcmp m su1 su2 (Suc count) =
     (let res = int (of_char (m su1)) - int (of_char (m su2)) in
      if res \<noteq> 0 then res else memcmp m (su1 + 1) (su2 + 1) count)"

fun memscan :: "mem \<Rightarrow> nat \<Rightarrow> char \<Rightarrow> nat \<Rightarrow> nat" where
  "memscan m p c 0 = p"
| "memscan m p c (Suc sz) = (if m p = c then p else memscan m (p + 1) c sz)"

fun strstr_loop :: "mem \<Rightarrow> nat \<Rightarrow> nat \<Rightarrow> nat \<Rightarrow> nat \<Rightarrow> nat option" where
  "strstr_loop m s1 s2 l1 l2 =
     (if l2 \<le> l1 \<and> 0 < l1 then
        if memcmp m s1 s2 l2 = 0 then Some s1 else strstr_loop m (s1 + 1) s2 (l1 - 1) l2
      else None)"

declare strstr_loop.simps [simp del]

definition strstr :: "mem \<Rightarrow> nat \<Rightarrow> nat \<Rightarrow> nat option option" where
  "strstr m s1 s2 = do {
     l2 \<leftarrow> strlen m s2;
     if l2 = 0 then Some (Some s1)
     else do { l1 \<leftarrow> strlen m s1; Some (strstr_loop m s1 s2 l1 l2) }
   }"

fun memchr :: "mem \<Rightarrow> nat \<Rightarrow> char \<Rightarrow> nat \<Rightarrow> nat option" where
  "memchr m p c 0 = None"
| "memchr m p c (Suc n) = (if c = m p then Some p else memchr m (p + 1) c n)"

section \<open>Character classes, spelled out\<close>

lemma ctype_all:
  assumes "list_all (\<lambda>n. P n (ctype ! n)) [0..<256]"
  shows "P (of_char c) (ismask c)"
proof -
  have "(of_char c :: nat) \<in> set [0..<256]" using range_nat_of_char by (auto simp del: of_char_eq_iff)
  then show ?thesis using assms unfolding list_all_iff ismask_def by blast
qed

lemma isdigit_iff: "isdigit c \<longleftrightarrow> 48 \<le> (of_char c :: nat) \<and> (of_char c :: nat) \<le> 57"
  unfolding isdigit_def by (rule ctype_all) code_simp

lemma isxdigit_iff:
  "isxdigit c \<longleftrightarrow> 48 \<le> (of_char c :: nat) \<and> (of_char c :: nat) \<le> 57 \<or>
     65 \<le> (of_char c :: nat) \<and> (of_char c :: nat) \<le> 70 \<or> 97 \<le> (of_char c :: nat) \<and> (of_char c :: nat) \<le> 102"
  unfolding isxdigit_def by (rule ctype_all) code_simp

lemma isspace_iff:
  "isspace c \<longleftrightarrow> 9 \<le> (of_char c :: nat) \<and> (of_char c :: nat) \<le> 13 \<or> (of_char c :: nat) = 32 \<or> (of_char c :: nat) = 160"
  unfolding isspace_def by (rule ctype_all) code_simp

section \<open>Strings held in memory\<close>

fun cstr :: "mem \<Rightarrow> nat \<Rightarrow> string \<Rightarrow> bool" where
  "cstr m p [] \<longleftrightarrow> m p = NUL"
| "cstr m p (c # s) \<longleftrightarrow> m p = c \<and> c \<noteq> NUL \<and> cstr m (p + 1) s"

fun holds :: "mem \<Rightarrow> nat \<Rightarrow> string \<Rightarrow> bool" where
  "holds m p [] \<longleftrightarrow> True"
| "holds m p (c # s) \<longleftrightarrow> m p = c \<and> c \<noteq> NUL \<and> holds m (p + 1) s"

lemma cstr_append: "cstr m p (s @ t) \<longleftrightarrow> holds m p s \<and> cstr m (p + length s) t"
  by (induction s arbitrary: p) auto

lemma cstr_holds: "cstr m p s \<longleftrightarrow> holds m p s \<and> m (p + length s) = NUL"
  using cstr_append [of m p s "[]"] by simp

lemma holds_append: "holds m p (s @ t) \<longleftrightarrow> holds m p s \<and> holds m (p + length s) t"
  by (induction s arbitrary: p) auto

lemma holds_cong:
  "holds m p s \<Longrightarrow> (\<And>a. p \<le> a \<Longrightarrow> a < p + length s \<Longrightarrow> m' a = m a) \<Longrightarrow> holds m' p s"
  by (induction s arbitrary: p) auto

lemma cstr_cong:
  "cstr m p s \<Longrightarrow> (\<And>a. p \<le> a \<Longrightarrow> a \<le> p + length s \<Longrightarrow> m' a = m a) \<Longrightarrow> cstr m' p s"
  using holds_cong [of m p s m'] by (auto simp: cstr_holds)

lemma holds_nth: "holds m p s \<Longrightarrow> i < length s \<Longrightarrow> m (p + i) = s ! i \<and> s ! i \<noteq> NUL"
proof (induction s arbitrary: p i)
  case (Cons c s)
  then show ?case using Cons.IH [of "p + 1" "i - 1"] by (cases i) auto
qed simp

lemma str_end_cstr: "cstr m p s \<Longrightarrow> str_end m p = Some (p + length s)"
  by (induction s arbitrary: p) (auto simp: str_end.simps)

lemma strlen_loop_cstr: "cstr m p s \<Longrightarrow> strlen_loop m q p = Some (p + length s - q)"
  by (induction s arbitrary: p) (auto simp: strlen_loop.simps)

lemma strlen_cstr: "cstr m p s \<Longrightarrow> strlen m p = Some (length s)"
  by (simp add: strlen_def strlen_loop_cstr)

lemma in_str_cstr: "cstr m a s \<Longrightarrow> in_str m a c = Some (c \<in> set s)"
  by (induction s arbitrary: a) (auto simp: in_str.simps)

section \<open>Copying\<close>

lemma memcpy_up:
  "dest \<le> src \<Longrightarrow>
   memcpy m dest src n = (\<lambda>a. if dest \<le> a \<and> a < dest + n then m (src + (a - dest)) else m a)"
proof (induction n arbitrary: m dest src)
  case (Suc n)
  have "memcpy m dest src (Suc n) =
      (\<lambda>a. if dest + 1 \<le> a \<and> a < dest + 1 + n then (m(dest := m src)) (src + 1 + (a - (dest + 1)))
           else (m(dest := m src)) a)"
    using Suc.IH [of "dest + 1" "src + 1"] Suc.prems by simp
  also have "\<dots> = (\<lambda>a. if dest \<le> a \<and> a < dest + Suc n then m (src + (a - dest)) else m a)"
    using Suc.prems by (intro ext) (auto simp: Suc_diff_Suc)
  finally show ?case .
qed (auto simp: fun_eq_iff)

lemma copy_down_eq:
  "src < dest \<Longrightarrow>
   copy_down m dest src n = (\<lambda>a. if dest \<le> a \<and> a < dest + n then m (src + (a - dest)) else m a)"
proof (induction n arbitrary: m)
  case (Suc n)
  then show ?case by (intro ext) (auto simp: not_less less_Suc_eq_le dest: antisym)
qed (auto simp: fun_eq_iff)

lemma strncat_loop_effect:
  assumes "cstr m src s" "0 < n" "dest + length s < src \<or> src + length s < dest"
  shows "cstr (strncat_loop m dest src n) dest (take n s) \<and>
    (\<forall>a. a < dest \<or> dest + length (take n s) < a \<longrightarrow> strncat_loop m dest src n a = m a)"
  using assms
proof (induction n arbitrary: m dest src s)
  case (Suc n)
  show ?case
  proof (cases s)
    case Nil
    then show ?thesis using Suc.prems by simp
  next
    case (Cons c s')
    have c: "m src = c" "c \<noteq> NUL" "cstr m (src + 1) s'" using Suc.prems(1) Cons by auto
    have apart: "dest + 1 + length s' < src + 1 \<or> src + 1 + length s' < dest + 1"
      using Suc.prems(3) Cons by auto
    have rest: "cstr (m(dest := c)) (src + 1) s'"
      using c(3) by (rule cstr_cong) (use Suc.prems(3) Cons in auto)
    show ?thesis
    proof (cases n)
      case 0
      then show ?thesis using c Cons by (simp add: Let_def)
    next
      case (Suc k)
      define m' where "m' = strncat_loop (m(dest := c)) (dest + 1) (src + 1) n"
      have r: "strncat_loop m dest src (Suc n) = m'"
        using c Suc by (simp add: Let_def m'_def)
      have pos: "0 < n" using Suc by simp
      have IH: "cstr m' (dest + 1) (take n s')"
          "\<And>a. a < dest + 1 \<or> dest + 1 + length (take n s') < a \<Longrightarrow> m' a = (m(dest := c)) a"
        using Suc.IH [OF rest pos apart] unfolding m'_def by blast+
      show ?thesis using IH(1) IH(2) [of dest] c Cons IH(2) unfolding r by auto
    qed
  qed
qed simp

section \<open>Tokens\<close>

lemma strspn_loop_cstr:
  assumes "cstr m p (ds @ r)" "cstr m ct D" "set ds \<subseteq> set D" "r = [] \<or> hd r \<notin> set D"
  shows "strspn_loop m p ct n = Some (n + length ds)"
  using assms
proof (induction ds arbitrary: p n)
  case Nil
  then show ?case using in_str_cstr [OF Nil.prems(2)] by (cases r) (auto simp: strspn_loop.simps [of m p])
next
  case (Cons d ds)
  then show ?case
    using Cons.IH [of "p + 1" "n + 1"] in_str_cstr [OF Cons.prems(2)] by (auto simp: strspn_loop.simps [of m p])
qed

lemma strpbrk_cstr:
  assumes "cstr m p (t @ r)" "cstr m ct D" "set t \<inter> set D = {}" "r = [] \<or> hd r \<in> set D"
  shows "strpbrk m p ct = Some (if r = [] then None else Some (p + length t))"
  using assms
proof (induction t arbitrary: p)
  case Nil
  then show ?case using in_str_cstr [OF Nil.prems(2)] by (cases r) (auto simp: strpbrk.simps [of m p])
next
  case (Cons c t)
  then show ?case
    using Cons.IH [of "p + 1"] in_str_cstr [OF Cons.prems(2)] by (auto simp: strpbrk.simps [of m p])
qed

section \<open>Properties\<close>

text \<open>
  C24: \<open>memmove\<close> leaves in the destination exactly what the source held before, however the
  two areas overlap, and changes nothing outside the destination.
\<close>

theorem memmove_overlap:
  "memmove m dest src n = (\<lambda>a. if dest \<le> a \<and> a < dest + n then m (src + (a - dest)) else m a)"
  by (simp add: memmove_def memcpy_up copy_down_eq)

text \<open>
  \<open>strncat\<close> of a string that does not reach into the destination buffer returns; it
  leaves a terminated string, the old one followed by at most \<open>count\<close> characters of the
  source, and writes only the cells from the old terminator to the new one.
\<close>

theorem strncat_appends:
  assumes "cstr m d s" "cstr m q u"
    and "d + length s + length u < q \<or> q + length u < d + length s"
  shows "\<exists>m'. strncat m d q n = Some m' \<and> cstr m' d (s @ take n u) \<and>
    (\<forall>a. a < d + length s \<or> d + length s + length (take n u) < a \<longrightarrow> m' a = m a)"
proof (cases "n = 0")
  case True
  then show ?thesis using assms(1) by (simp add: strncat_def)
next
  case False
  define m' where "m' = strncat_loop m (d + length s) q n"
  have m': "cstr m' (d + length s) (take n u)"
      "\<And>a. a < d + length s \<or> d + length s + length (take n u) < a \<Longrightarrow> m' a = m a"
    using strncat_loop_effect [OF assms(2) _ assms(3), of n] False unfolding m'_def by blast+
  have "holds m d s" using assms(1) by (simp add: cstr_holds)
  then have "holds m' d s" by (rule holds_cong) (simp add: m'(2))
  then have "cstr m' d (s @ take n u)" using m'(1) by (simp add: cstr_append)
  moreover have "strncat m d q n = Some m'"
    using False str_end_cstr [OF assms(1)] by (simp add: strncat_def m'_def)
  ultimately show ?thesis using m'(2) by blast
qed

text \<open>Characters laid out one after another from address 0, followed by terminators.\<close>

definition layout :: "string \<Rightarrow> mem" where
  "layout xs = (\<lambda>a. if a < length xs then xs ! a else NUL)"

definition cat_mem :: mem where "cat_mem = layout (''ab'' @ replicate 6 NUL @ ''cde'')"

lemma cat_mem_strings: "cstr cat_mem 0 ''ab''" "cstr cat_mem 8 ''cde''"
  by (simp_all add: cat_mem_def layout_def nth_append)

theorem strncat_appends_witness:
  "\<exists>m'. strncat cat_mem 0 8 2 = Some m' \<and> cstr m' 0 ''abcd''"
  using strncat_appends [OF cat_mem_strings, of 2] by (auto simp: take_Cons')

text \<open>
  C25: \<open>strtok\<close> on leading delimiters, a token and the rest: it returns the token, cut off
  with a terminator where the delimiter after it stood, and remembers the place behind that
  delimiter, from which the rest of the string can be read; without a delimiter it remembers
  that the string is used up.  The set of delimiters is not disturbed.
\<close>

theorem strtok_token:
  assumes "cstr m p (ds @ t @ r)" "cstr m ct D"
    and "set ds \<subseteq> set D" "t \<noteq> []" "set t \<inter> set D = {}" "r = [] \<or> hd r \<in> set D"
    and "p + length (ds @ t @ r) < ct \<or> ct + length D < p"
  shows "\<exists>m'. strtok m tok (Some p) ct =
      Some (Some (p + length ds), if r = [] then None else Some (p + length ds + length t + 1), m') \<and>
    cstr m' (p + length ds) t \<and> cstr m' ct D \<and>
    (r \<noteq> [] \<longrightarrow> cstr m' (p + length ds + length t + 1) (tl r))"
proof -
  define q where "q = p + length ds"
  have tr: "cstr m q (t @ r)" using assms(1) by (simp add: cstr_append q_def)
  have hd: "m q \<noteq> NUL" using tr assms(4) by (cases t) auto
  have "t @ r = [] \<or> hd (t @ r) \<notin> set D" using assms(4,5) by (cases t) auto
  then have spn: "strspn m p ct = Some (length ds)"
    using strspn_loop_cstr [OF assms(1,2,3), of 0] by (simp add: strspn_def)
  have brk: "strpbrk m q ct = Some (if r = [] then None else Some (q + length t))"
    by (rule strpbrk_cstr [OF tr assms(2,5,6)])
  show ?thesis
  proof (cases r)
    case Nil
    then show ?thesis using spn brk hd tr assms(2) by (simp add: strtok_def q_def)
  next
    case (Cons c r')
    define m' where "m' = m(q + length t := NUL)"
    have at: "holds m q t" "m (q + length t) = c" "c \<noteq> NUL" "cstr m (q + length t + 1) r'"
      using tr Cons by (auto simp: cstr_append)
    have "holds m' q t" using at(1) by (rule holds_cong) (simp add: m'_def)
    then have "cstr m' q t" by (simp add: cstr_holds m'_def)
    moreover have "cstr m' ct D" using assms(2) by (rule cstr_cong) (use assms(7) Cons in \<open>auto simp: m'_def q_def\<close>)
    moreover have "cstr m' (q + length t + 1) r'" using at(4) by (rule cstr_cong) (simp add: m'_def)
    moreover have "strtok m tok (Some p) ct = Some (Some q, Some (q + length t + 1), m')"
      using spn brk hd at Cons by (simp add: strtok_def q_def m'_def Let_def)
    ultimately show ?thesis using Cons by (simp add: q_def)
  qed
qed

definition tok_mem :: mem where "tok_mem = layout ('',,ab,c'' @ [NUL, CHR 0x2c])"

lemma tok_mem_strings: "cstr tok_mem 0 ('',,'' @ ''ab'' @ '',c'')" "cstr tok_mem 7 [CHR 0x2c]"
  by (simp_all add: tok_mem_def layout_def)

theorem strtok_token_witness:
  "\<exists>m'. strtok tok_mem None (Some 0) 7 = Some (Some 2, Some 5, m') \<and> cstr m' 2 ''ab'' \<and> cstr m' 5 ''c''"
  using strtok_token [OF tok_mem_strings, of None] by (simp add: eval_nat_numeral) blast

end
