(* ===== verification/Vsprintf.thy ===== *)
theory Vsprintf
  imports Kstring
begin

unbundle bit_operations_syntax

text \<open>
  \<^verbatim>\<open>lib/vsprintf.c\<close>: reading numbers, formatted output into a bounded buffer, and
  formatted input.  A pointer into a format or an input string is the rest of the string from
  there on, its end the terminator.  The output buffer is a memory indexed by the distance from
  \<open>buf\<close>, with the write position and the number of cells that may be written.  Arguments are
  a list of 32-bit words, 64-bit words and strings; taking an argument of another kind than the
  one passed is undefined behaviour, the value \<open>None\<close>.  A C \<open>int\<close> that counts columns is an
  integer.
\<close>

type_synonym u64 = "64 word"

fun peek :: "string \<Rightarrow> char" where
  "peek [] = NUL"
| "peek (c # s) = c"

section \<open>Reading numbers\<close>

definition digit_value :: "char \<Rightarrow> nat" where
  "digit_value c = (if isdigit c then of_char c - 48 else of_char (toupper c) - 65 + 10)"

fun strto_loop :: "nat \<Rightarrow> 'a::len word \<Rightarrow> string \<Rightarrow> 'a word \<times> string" where
  "strto_loop base result [] = (result, [])"
| "strto_loop base result (c # cp) =
     (if isxdigit c \<and> digit_value c < base
      then strto_loop base (result * of_nat base + of_nat (digit_value c)) cp
      else (result, c # cp))"

definition strto_base :: "nat \<Rightarrow> string \<Rightarrow> nat \<times> string" where
  "strto_base base cp =
     (if base = 0 then
        if peek cp = CHR ''0'' then
          let cp = tl cp in
          if peek cp = CHR ''x'' \<and> isxdigit (peek (tl cp)) then (16, tl cp) else (8, cp)
        else (10, cp)
      else (base, cp))"

definition simple_strtoul :: "string \<Rightarrow> nat \<Rightarrow> u32 \<times> string" where
  "simple_strtoul cp base = (let (base, cp) = strto_base base cp in strto_loop base 0 cp)"

definition simple_strtol :: "string \<Rightarrow> nat \<Rightarrow> u32 \<times> string" where
  "simple_strtol cp base =
     (if peek cp = CHR ''-'' then let (v, e) = simple_strtoul (tl cp) base in (- v, e)
      else simple_strtoul cp base)"

definition simple_strtoull :: "string \<Rightarrow> nat \<Rightarrow> u64 \<times> string" where
  "simple_strtoull cp base = (let (base, cp) = strto_base base cp in strto_loop base 0 cp)"

definition simple_strtoll :: "string \<Rightarrow> nat \<Rightarrow> u64 \<times> string" where
  "simple_strtoll cp base =
     (if peek cp = CHR ''-'' then let (v, e) = simple_strtoull (tl cp) base in (- v, e)
      else simple_strtoull cp base)"

fun skip_atoi :: "int \<Rightarrow> string \<Rightarrow> int \<times> string" where
  "skip_atoi i [] = (i, [])"
| "skip_atoi i (c # s) = (if isdigit c then skip_atoi (i * 10 + int (of_char c) - 48) s else (i, c # s))"

section \<open>The output buffer\<close>

record outbuf =
  mem :: mem
  str :: nat
  lim :: nat
  counts :: "nat list"

text \<open>\<open>if (str <= end) *str = c; ++str;\<close>\<close>

definition put :: "char \<Rightarrow> outbuf \<Rightarrow> outbuf" where
  "put c b = (if str b < lim b then b\<lparr>mem := (mem b)(str b := c), str := str b + 1\<rparr>
              else b\<lparr>str := str b + 1\<rparr>)"

text \<open>The loops \<open>while (size-- > 0)\<close>, \<open>while (--width > 0)\<close> and \<open>while (len < width--)\<close>
  around it; each also returns its counter.\<close>

function pad :: "int \<Rightarrow> char \<Rightarrow> outbuf \<Rightarrow> int \<times> outbuf" where
  "pad sz c b = (if 0 < sz then pad (sz - 1) c (put c b) else (sz - 1, b))"
  by pat_completeness auto
termination by (relation "measure (\<lambda>(sz, c, b). nat sz)") auto

function pad_pre :: "int \<Rightarrow> outbuf \<Rightarrow> int \<times> outbuf" where
  "pad_pre w b = (let w = w - 1 in if 0 < w then pad_pre w (put (CHR '' '') b) else (w, b))"
  by pat_completeness auto
termination by (relation "measure (\<lambda>(w, b). nat w)") auto

function pad_to :: "int \<Rightarrow> int \<Rightarrow> outbuf \<Rightarrow> int \<times> outbuf" where
  "pad_to len w b = (if len < w then pad_to len (w - 1) (put (CHR '' '') b) else (w - 1, b))"
  by pat_completeness auto
termination by (relation "measure (\<lambda>(len, w, b). nat (w - len))") auto

function zeros :: "int \<Rightarrow> int \<Rightarrow> outbuf \<Rightarrow> outbuf" where
  "zeros i precision b = (if i < precision then zeros i (precision - 1) (put (CHR ''0'') b) else b)"
  by pat_completeness auto
termination by (relation "measure (\<lambda>(i, p, b). nat (p - i))") auto

declare pad.simps [simp del] pad_pre.simps [simp del] pad_to.simps [simp del] zeros.simps [simp del]

section \<open>Numbers\<close>

definition ZEROPAD :: u32 where "ZEROPAD = 1"
definition SIGN :: u32 where "SIGN = 2"
definition PLUS :: u32 where "PLUS = 4"
definition SPACE :: u32 where "SPACE = 8"
definition LEFT :: u32 where "LEFT = 16"
definition SPECIAL :: u32 where "SPECIAL = 32"
definition LARGE :: u32 where "LARGE = 64"

lemmas flag_defs = ZEROPAD_def SIGN_def PLUS_def SPACE_def LEFT_def SPECIAL_def LARGE_def

definition small_digits :: string where "small_digits = ''0123456789abcdefghijklmnopqrstuvwxyz''"
definition large_digits :: string where "large_digits = ''0123456789ABCDEFGHIJKLMNOPQRSTUVWXYZ''"

text \<open>The ARM \<open>do_div\<close>: the dividend is cut to an \<open>unsigned long\<close>.\<close>

definition do_div :: "u64 \<Rightarrow> u32 \<Rightarrow> u32 \<times> u64" where
  "do_div n base = ((ucast n :: u32) mod base, ucast ((ucast n :: u32) div base))"

lemma unat_low32: "unat (ucast (n :: u64) :: u32) = unat n mod 2 ^ 32"
  by (simp only: unsigned_ucast_eq take_bit_eq_mod) simp

lemma unat_wide: "unat (ucast (w :: u32) :: u64) = unat w"
  using unsigned_less [of w, where 'a = nat] by (simp only: unsigned_ucast_eq take_bit_eq_mod) simp

lemma narrow_wide: "(ucast (ucast (w :: u32) :: u64) :: u32) = w"
  by (intro bit_word_eqI) (auto simp: bit_simps)

lemma narrow_of_int: "(ucast (word_of_int k :: u64) :: u32) = word_of_int k"
  by (intro bit_word_eqI) (auto simp: bit_simps)

lemma unat_of_small_int: "0 \<le> k \<Longrightarrow> k < 2 ^ 32 \<Longrightarrow> unat (word_of_int k :: u64) = nat k"
  by (simp add: unsigned_of_int take_bit_int_eq_self)

lemma unat_do_div: "unat (snd (do_div n base)) = unat n mod 2 ^ 32 div unat base"
  by (simp only: do_div_def snd_conv unat_wide unat_div unat_low32)

lemma do_div_less:
  assumes "n \<noteq> 0" "2 \<le> base"
  shows "unat (snd (do_div n base)) < unat n"
proof -
  have "unat n mod 2 ^ 32 div unat base \<le> unat n div unat base" by (intro div_le_mono) simp
  also have "\<dots> < unat n"
    using assms by (intro div_less_dividend) (auto simp: word_le_nat_alt unat_gt_0)
  finally show ?thesis by (simp only: unat_do_div)
qed

function digit_loop :: "string \<Rightarrow> u32 \<Rightarrow> u64 \<Rightarrow> string" where
  "digit_loop digits base num =
     (if num \<noteq> 0 \<and> 2 \<le> base then
        let (r, num') = do_div num base in (digits ! unat r) # digit_loop digits base num'
      else [])"
  by pat_completeness auto
termination
proof (relation "measure (\<lambda>(d, base, num). unat num)", goal_cases)
  case (2 digits base num x r num')
  then have "unat (snd (do_div num base)) < unat num" by (intro do_div_less) auto
  then show ?case using 2 by (metis in_measure prod.case snd_conv)
qed simp

declare digit_loop.simps [simp del]

text \<open>The sign character, the number without its sign and the width left.\<close>

definition number_sign :: "u64 \<Rightarrow> int \<Rightarrow> u32 \<Rightarrow> char \<times> u64 \<times> int" where
  "number_sign num sz type =
     (if type AND SIGN \<noteq> 0 then
        if sint num < 0 then (CHR ''-'', - num, sz - 1)
        else if type AND PLUS \<noteq> 0 then (CHR ''+'', num, sz - 1)
        else if type AND SPACE \<noteq> 0 then (CHR '' '', num, sz - 1)
        else (NUL, num, sz)
      else (NUL, num, sz))"

text \<open>The output, once the digits \<open>tmp\<close> (last one first) are known.\<close>

definition number_out ::
  "string \<Rightarrow> char \<Rightarrow> char \<Rightarrow> string \<Rightarrow> int \<Rightarrow> int \<Rightarrow> int \<Rightarrow> u32 \<Rightarrow> outbuf \<Rightarrow> outbuf" where
  "number_out digits c sign tmp base sz precision type b =
     (let i = int (length tmp);
          precision = (if precision < i then i else precision);
          sz = sz - precision;
          (sz, b) = (if type AND (ZEROPAD + LEFT) = 0 then pad sz (CHR '' '') b else (sz, b));
          b = (if sign \<noteq> NUL then put sign b else b);
          b = (if type AND SPECIAL \<noteq> 0 then
                 if base = 8 then put (CHR ''0'') b
                 else if base = 16 then put (digits ! 33) (put (CHR ''0'') b) else b
               else b);
          (sz, b) = (if type AND LEFT = 0 then pad sz c b else (sz, b));
          b = zeros i precision b;
          b = fold put (rev tmp) b;
          (sz, b) = pad sz (CHR '' '') b
      in b)"

definition number :: "outbuf \<Rightarrow> u64 \<Rightarrow> int \<Rightarrow> int \<Rightarrow> int \<Rightarrow> u32 \<Rightarrow> outbuf option" where
  "number b num base sz precision type =
     (let digits = (if type AND LARGE \<noteq> 0 then large_digits else small_digits);
          type = (if type AND LEFT \<noteq> 0 then type AND NOT ZEROPAD else type) in
      if base < 2 \<or> 36 < base then None
      else
       let c = (if type AND ZEROPAD \<noteq> 0 then CHR ''0'' else CHR '' '');
           (sign, num, sz) = number_sign num sz type;
           sz = (if type AND SPECIAL \<noteq> 0 then
                   if base = 16 then sz - 2 else if base = 8 then sz - 1 else sz
                 else sz);
           tmp = (if num = 0 then ''0'' else digit_loop digits (word_of_int base) num)
       in Some (number_out digits c sign tmp base sz precision type b))"

section \<open>Formatted output\<close>

datatype arg = Word u32 | DWord u64 | Str "string option" | Ptr

text \<open>Flags after the per cent sign.\<close>

fun parse_flags :: "u32 \<Rightarrow> string \<Rightarrow> u32 \<times> string" where
  "parse_flags flags [] = (flags, [])"
| "parse_flags flags (c # fmt) =
     (if c = CHR ''-'' then parse_flags (flags OR LEFT) fmt
      else if c = CHR ''+'' then parse_flags (flags OR PLUS) fmt
      else if c = CHR '' '' then parse_flags (flags OR SPACE) fmt
      else if c = CHR ''#'' then parse_flags (flags OR SPECIAL) fmt
      else if c = CHR ''0'' then parse_flags (flags OR ZEROPAD) fmt
      else (flags, c # fmt))"

definition get_width :: "u32 \<Rightarrow> string \<Rightarrow> arg list \<Rightarrow> (u32 \<times> int \<times> string \<times> arg list) option" where
  "get_width flags fmt args =
     (if isdigit (peek fmt) then let (w, fmt) = skip_atoi 0 fmt in Some (flags, w, fmt, args)
      else if peek fmt = CHR ''*'' then
        (case args of
           Word a # args \<Rightarrow>
             let w = sint a in
             if w < 0 then Some (flags OR LEFT, - w, tl fmt, args) else Some (flags, w, tl fmt, args)
         | _ \<Rightarrow> None)
      else Some (flags, -1, fmt, args))"

definition get_precision :: "string \<Rightarrow> arg list \<Rightarrow> (int \<times> string \<times> arg list) option" where
  "get_precision fmt args =
     (if peek fmt = CHR ''.'' then
        let fmt = tl fmt; clip = (\<lambda>p. if p < 0 then 0 else p) in
        if isdigit (peek fmt) then let (p, fmt) = skip_atoi 0 fmt in Some (clip p, fmt, args)
        else if peek fmt = CHR ''*'' then
          (case args of Word a # args \<Rightarrow> Some (clip (sint a), tl fmt, args) | _ \<Rightarrow> None)
        else Some (clip (-1), fmt, args)
      else Some (-1, fmt, args))"

definition get_qualifier :: "string \<Rightarrow> char option \<times> string" where
  "get_qualifier fmt =
     (if peek fmt = CHR ''h'' \<or> peek fmt = CHR ''l'' \<or> peek fmt = CHR ''L'' \<or> peek fmt = CHR ''Z'' then
        if peek fmt = CHR ''l'' \<and> peek (tl fmt) = CHR ''l'' then (Some (CHR ''L''), tl (tl fmt))
        else (Some (peek fmt), tl fmt)
      else (None, fmt))"

text \<open>The argument of an integer conversion.\<close>

definition get_num :: "char option \<Rightarrow> u32 \<Rightarrow> arg list \<Rightarrow> (u64 \<times> arg list) option" where
  "get_num qualifier flags args =
     (if qualifier = Some (CHR ''L'') then
        (case args of DWord d # args \<Rightarrow> Some (d, args) | _ \<Rightarrow> None)
      else
        (case args of
           Word w # args \<Rightarrow>
             if qualifier = Some (CHR ''l'') then
               Some (if flags AND SIGN \<noteq> 0 then scast w else ucast w, args)
             else if qualifier = Some (CHR ''Z'') then Some (ucast w, args)
             else if qualifier = Some (CHR ''h'') then
               Some (if flags AND SIGN \<noteq> 0 then scast (ucast w :: u16) else ucast (ucast w :: u16), args)
             else Some (if flags AND SIGN \<noteq> 0 then scast w else ucast w, args)
         | _ \<Rightarrow> None))"

text \<open>\<open>strnlen (s, precision)\<close> for a precision that is \<open>-1\<close> when absent.\<close>

definition shown_length :: "string \<Rightarrow> int \<Rightarrow> int" where
  "shown_length s precision =
     (if precision < 0 then int (length s) else min (int (length s)) precision)"

definition put_char :: "outbuf \<Rightarrow> u32 \<Rightarrow> int \<Rightarrow> char \<Rightarrow> outbuf" where
  "put_char b flags width c =
     (let (width, b) = (if flags AND LEFT = 0 then pad_pre width b else (width, b));
          b = put c b;
          (width, b) = pad_pre width b
      in b)"

definition put_string :: "outbuf \<Rightarrow> u32 \<Rightarrow> int \<Rightarrow> int \<Rightarrow> string option \<Rightarrow> outbuf" where
  "put_string b flags width precision a =
     (let s = (case a of None \<Rightarrow> ''<NULL>'' | Some s \<Rightarrow> s);
          len = shown_length s precision;
          (width, b) = (if flags AND LEFT = 0 then pad_to len width b else (width, b));
          b = fold put (take (nat len) s) b;
          (width, b) = pad_to len width b
      in b)"

text \<open>
  The conversion itself; \<open>fmt\<close> starts with the conversion character.  The result has the
  format behind it.
\<close>

definition convert ::
  "outbuf \<Rightarrow> u32 \<Rightarrow> int \<Rightarrow> int \<Rightarrow> char option \<Rightarrow> string \<Rightarrow> arg list
    \<Rightarrow> (outbuf \<times> string \<times> arg list) option" where
  "convert b flags width precision qualifier fmt args =
     (let c = peek fmt; rest = tl fmt;
          integer = (\<lambda>flags base.
            case get_num qualifier flags args of
              None \<Rightarrow> None
            | Some (num, args) \<Rightarrow>
                map_option (\<lambda>b. (b, rest, args)) (number b num base width precision flags))
      in if c = CHR ''c'' then
           (case args of Word a # args \<Rightarrow> Some (put_char b flags width (char_of (unat a)), rest, args) | _ \<Rightarrow> None)
         else if c = CHR ''s'' then
           (case args of Str s # args \<Rightarrow> Some (put_string b flags width precision s, rest, args) | _ \<Rightarrow> None)
         else if c = CHR ''p'' then
           (case args of
              Word a # args \<Rightarrow>
                let (width, flags) = (if width = -1 then (8, flags OR ZEROPAD) else (width, flags))
                in map_option (\<lambda>b. (b, rest, args)) (number b (ucast a) 16 width precision flags)
            | _ \<Rightarrow> None)
         else if c = CHR ''n'' then
           (case args of Ptr # args \<Rightarrow> Some (b\<lparr>counts := counts b @ [str b]\<rparr>, rest, args) | _ \<Rightarrow> None)
         else if c = CHR ''%'' then Some (put (CHR ''%'') b, rest, args)
         else if c = CHR ''o'' then integer flags 8
         else if c = CHR ''X'' then integer (flags OR LARGE) 16
         else if c = CHR ''x'' then integer flags 16
         else if c = CHR ''d'' \<or> c = CHR ''i'' then integer (flags OR SIGN) 10
         else if c = CHR ''u'' then integer flags 10
         else let b = put (CHR ''%'') b
              in Some (if fmt \<noteq> [] then put c b else b, rest, args))"

definition directive :: "outbuf \<Rightarrow> string \<Rightarrow> arg list \<Rightarrow> (outbuf \<times> string \<times> arg list) option" where
  "directive b fmt args =
     (let (flags, fmt) = parse_flags 0 fmt in
      case get_width flags fmt args of None \<Rightarrow> None
      | Some (flags, width, fmt, args) \<Rightarrow>
          (case get_precision fmt args of None \<Rightarrow> None
           | Some (precision, fmt, args) \<Rightarrow>
               let (qualifier, fmt) = get_qualifier fmt
               in convert b flags width precision qualifier fmt args))"

lemma parse_flags_length: "length (snd (parse_flags f fmt)) \<le> length fmt"
  by (induction f fmt rule: parse_flags.induct) auto

lemma skip_atoi_length: "length (snd (skip_atoi i s)) \<le> length s"
  by (induction i s rule: skip_atoi.induct) auto

lemma get_width_length: "get_width f fmt args = Some (f', w, fmt', args') \<Longrightarrow> length fmt' \<le> length fmt"
  using skip_atoi_length [of 0 fmt]
  by (auto simp: get_width_def Let_def split: if_splits prod.splits list.splits arg.splits)

lemma get_precision_length:
  "get_precision fmt args = Some (pr, fmt', args') \<Longrightarrow> length fmt' \<le> length fmt"
  using skip_atoi_length [of 0 "tl fmt"]
  by (auto simp: get_precision_def Let_def split: if_splits prod.splits list.splits arg.splits)

lemma get_qualifier_length: "length (snd (get_qualifier fmt)) \<le> length fmt"
  by (auto simp: get_qualifier_def)

lemma convert_rest: "convert b f w pr q fmt args = Some (b', fmt', args') \<Longrightarrow> fmt' = tl fmt"
  by (auto simp: convert_def Let_def split: if_splits option.splits list.splits arg.splits prod.splits)

lemma directive_length: "directive b fmt args = Some (b', fmt', args') \<Longrightarrow> length fmt' \<le> length fmt"
proof -
  assume d: "directive b fmt args = Some (b', fmt', args')"
  obtain f fmt1 where 1: "parse_flags 0 fmt = (f, fmt1)" by (cases "parse_flags 0 fmt")
  obtain f' w fmt2 args2 where 2: "get_width f fmt1 args = Some (f', w, fmt2, args2)"
    using d 1 by (auto simp: directive_def split: option.splits)
  obtain pr fmt3 args3 where 3: "get_precision fmt2 args2 = Some (pr, fmt3, args3)"
    using d 1 2 by (auto simp: directive_def split: option.splits)
  obtain q fmt4 where 4: "get_qualifier fmt3 = (q, fmt4)" by (cases "get_qualifier fmt3")
  have "fmt' = tl fmt4" using d 1 2 3 4 by (auto simp: directive_def dest: convert_rest)
  then show ?thesis
    using parse_flags_length [of 0 fmt] get_width_length [OF 2] get_precision_length [OF 3]
      get_qualifier_length [of fmt3] 1 4 by simp
qed

function vsn_loop :: "outbuf \<Rightarrow> string \<Rightarrow> arg list \<Rightarrow> (outbuf \<times> arg list) option" where
  "vsn_loop b [] args = Some (b, args)"
| "vsn_loop b (c # fmt) args =
     (if c \<noteq> CHR ''%'' then vsn_loop (put c b) fmt args
      else case directive b fmt args of
             None \<Rightarrow> None
           | Some (b, fmt, args) \<Rightarrow> vsn_loop b fmt args)"
  by pat_completeness auto
termination
  by (relation "measure (\<lambda>(b, fmt, args). length fmt)") (auto dest!: directive_length)

text \<open>
  \<open>end\<close> is the last cell of the buffer; a size that would wrap around the address space is cut
  there.  The result is the return value, the memory and what the \<open>%n\<close> conversions stored.
\<close>

definition out_size :: "u32 \<Rightarrow> u32 \<Rightarrow> u32" where
  "out_size buf sz = (let e = buf + sz - 1 in if e < buf - 1 then (0xffffffff :: u32) - buf + 1 else sz)"

definition vsnprintf ::
  "mem \<Rightarrow> u32 \<Rightarrow> u32 \<Rightarrow> string \<Rightarrow> arg list \<Rightarrow> (nat \<times> mem \<times> nat list) option" where
  "vsnprintf m buf sz fmt args =
     (let n = unat (out_size buf sz) in
      case vsn_loop \<lparr>mem = m, str = 0, lim = n, counts = []\<rparr> fmt args of
        None \<Rightarrow> None
      | Some (b, _) \<Rightarrow>
          Some (str b,
            if str b < n then (mem b)(str b := NUL)
            else if 0 < n then (mem b)(n - 1 := NUL)
            else mem b, counts b))"

definition snprintf ::
  "mem \<Rightarrow> u32 \<Rightarrow> u32 \<Rightarrow> string \<Rightarrow> arg list \<Rightarrow> (nat \<times> mem \<times> nat list) option" where
  "snprintf m buf sz fmt args = vsnprintf m buf sz fmt args"

definition vsprintf :: "mem \<Rightarrow> u32 \<Rightarrow> string \<Rightarrow> arg list \<Rightarrow> (nat \<times> mem \<times> nat list) option" where
  "vsprintf m buf fmt args = vsnprintf m buf 0xffffffff fmt args"

definition sprintf :: "mem \<Rightarrow> u32 \<Rightarrow> string \<Rightarrow> arg list \<Rightarrow> (nat \<times> mem \<times> nat list) option" where
  "sprintf m buf fmt args = vsprintf m buf fmt args"

section \<open>Formatted input\<close>

text \<open>What a conversion stores through its pointer argument.\<close>

datatype store = StChars string | StText string | StCount nat | StShort u16 | StInt u32 | StLong u32 |
  StLLong u64 | StSize u32

fun skip_space :: "string \<Rightarrow> string" where
  "skip_space [] = []"
| "skip_space (c # s) = (if isspace c then skip_space s else c # s)"

fun skip_nonspace :: "string \<Rightarrow> string" where
  "skip_nonspace [] = []"
| "skip_nonspace (c # s) = (if \<not> isspace c then skip_nonspace s else c # s)"

text \<open>\<open>do { *s++ = *str++; } while (field_width-- > 0 && *str)\<close>, the string not being empty:
  the characters stored, the rest and the width afterwards.\<close>

fun scan_chars :: "string \<Rightarrow> int \<Rightarrow> string \<times> string \<times> int" where
  "scan_chars [] width = ([], [], width)"
| "scan_chars (c # s) width =
     (if 0 < width \<and> s \<noteq> [] then let (t, s, width) = scan_chars s (width - 1) in (c # t, s, width)
      else ([c], s, width - 1))"

text \<open>\<open>while (*str && !isspace(*str) && field_width--)\<close>.\<close>

fun scan_word :: "string \<Rightarrow> int \<Rightarrow> string \<times> string \<times> int" where
  "scan_word [] width = ([], [], width)"
| "scan_word (c # s) width =
     (if isspace c then ([], c # s, width)
      else if width \<noteq> 0 then let (t, s, width) = scan_word s (width - 1) in (c # t, s, width)
      else ([], c # s, width - 1))"

definition scan_int :: "char option \<Rightarrow> bool \<Rightarrow> nat \<Rightarrow> string \<Rightarrow> store \<times> string" where
  "scan_int qualifier is_sign base s =
     (if qualifier = Some (CHR ''h'') then
        if is_sign then let (v, e) = simple_strtol s base in (StShort (ucast v), e)
        else let (v, e) = simple_strtoul s base in (StShort (ucast v), e)
      else if qualifier = Some (CHR ''l'') then
        if is_sign then let (v, e) = simple_strtol s base in (StLong v, e)
        else let (v, e) = simple_strtoul s base in (StLong v, e)
      else if qualifier = Some (CHR ''L'') then
        if is_sign then let (v, e) = simple_strtoll s base in (StLLong v, e)
        else let (v, e) = simple_strtoull s base in (StLLong v, e)
      else if qualifier = Some (CHR ''Z'') then
        let (v, e) = simple_strtoul s base in (StSize v, e)
      else
        if is_sign then let (v, e) = simple_strtol s base in (StInt v, e)
        else let (v, e) = simple_strtoul s base in (StInt v, e))"

definition scan_qualifier :: "string \<Rightarrow> char option \<times> string" where
  "scan_qualifier fmt =
     (if peek fmt = CHR ''h'' \<or> peek fmt = CHR ''l'' \<or> peek fmt = CHR ''L'' \<or> peek fmt = CHR ''Z''
      then (Some (peek fmt), tl fmt) else (None, fmt))"

record scanning =
  sfmt :: string
  sstr :: string
  fwidth :: int
  snum :: int
  stores :: "store list"

definition INT_MAX :: int where "INT_MAX = 2147483647"

text \<open>
  The \<open>switch\<close> on the conversion character and what follows it.  The flag tells whether the
  loop goes on; \<open>n\<close> is the length of the whole input.
\<close>

definition scan_switch :: "nat \<Rightarrow> char option \<Rightarrow> scanning \<Rightarrow> bool \<times> scanning" where
  "scan_switch n qualifier st =
     (let c = peek (sfmt st); st = st\<lparr>sfmt := tl (sfmt st)\<rparr>;
          store = (\<lambda>st v rest. st\<lparr>sstr := rest, snum := snum st + 1, stores := stores st @ [v]\<rparr>);
          integer = (\<lambda>is_sign base.
            let str = skip_space (sstr st) in
            if str = [] \<or> \<not> isdigit (peek str) then (False, st\<lparr>sstr := str\<rparr>)
            else let (v, rest) = scan_int qualifier is_sign base str in (True, store st v rest))
      in if c = CHR ''c'' then
           let w = (if fwidth st = -1 then 1 else fwidth st);
               (t, rest, w) = scan_chars (sstr st) w
           in (True, store (st\<lparr>fwidth := w\<rparr>) (StChars t) rest)
         else if c = CHR ''s'' then
           let w = (if fwidth st = -1 then INT_MAX else fwidth st);
               (t, rest, w) = scan_word (skip_space (sstr st)) w
           in (True, store (st\<lparr>fwidth := w\<rparr>) (StText t) rest)
         else if c = CHR ''n'' then
           (True, st\<lparr>stores := stores st @ [StCount (n - length (sstr st))]\<rparr>)
         else if c = CHR ''o'' then integer False 8
         else if c = CHR ''x'' \<or> c = CHR ''X'' then integer False 16
         else if c = CHR ''d'' \<or> c = CHR ''i'' then integer True 10
         else if c = CHR ''u'' then integer False 10
         else if c = CHR ''%'' then (peek (sstr st) = CHR ''%'', st\<lparr>sstr := tl (sstr st)\<rparr>)
         else (False, st))"

definition scan_step :: "nat \<Rightarrow> scanning \<Rightarrow> bool \<times> scanning" where
  "scan_step n st =
     (let st = (if isspace (peek (sfmt st))
                then st\<lparr>sfmt := skip_space (sfmt st), sstr := skip_space (sstr st)\<rparr> else st) in
      if peek (sfmt st) \<noteq> CHR ''%'' \<and> sfmt st \<noteq> [] then
        (peek (sfmt st) = peek (sstr st), st\<lparr>sfmt := tl (sfmt st), sstr := tl (sstr st)\<rparr>)
      else if sfmt st = [] then (False, st)
      else
       let st = st\<lparr>sfmt := tl (sfmt st)\<rparr> in
       if peek (sfmt st) = CHR ''*'' then
         (True, st\<lparr>sfmt := skip_nonspace (sfmt st), sstr := skip_nonspace (sstr st)\<rparr>)
       else
        let (w, fmt) = (if isdigit (peek (sfmt st)) then skip_atoi 0 (sfmt st)
                        else (fwidth st, sfmt st));
            (qualifier, fmt) = scan_qualifier fmt;
            st = st\<lparr>sfmt := fmt, fwidth := w\<rparr>
        in if fmt = [] \<or> sstr st = [] then (False, st) else scan_switch n qualifier st)"

lemma skip_space_length: "length (skip_space s) \<le> length s"
  by (induction s) auto

lemma skip_nonspace_length: "length (skip_nonspace s) \<le> length s"
  by (induction s) auto

lemma scan_qualifier_length: "length (snd (scan_qualifier s)) \<le> length s"
  by (auto simp: scan_qualifier_def)

lemma scan_switch_fmt: "scan_switch n q st = (go, st') \<Longrightarrow> sfmt st' = tl (sfmt st)"
  by (auto simp: scan_switch_def Let_def split: prod.splits if_splits)

lemma scan_step_length:
  assumes "sfmt st \<noteq> []" "scan_step n st = (True, st')"
  shows "length (sfmt st') < length (sfmt st)"
proof -
  define s1 where "s1 = (if isspace (peek (sfmt st))
    then st\<lparr>sfmt := skip_space (sfmt st), sstr := skip_space (sstr st)\<rparr> else st)"
  have s1: "length (sfmt s1) \<le> length (sfmt st)" by (simp add: s1_def skip_space_length)
  obtain w fmt where w: "(if isdigit (peek (tl (sfmt s1))) then skip_atoi 0 (tl (sfmt s1))
      else (fwidth s1, tl (sfmt s1))) = (w, fmt)" by fastforce
  obtain q fmt' where q: "scan_qualifier fmt = (q, fmt')" by fastforce
  have "length fmt \<le> length (tl (sfmt s1))"
    using w skip_atoi_length [of 0 "tl (sfmt s1)"] by (auto split: if_splits)
  then have "length fmt' \<le> length (tl (sfmt s1))" using q scan_qualifier_length [of fmt] by simp
  then show ?thesis
    using assms(2) s1 w q skip_nonspace_length [of "tl (sfmt s1)"]
    unfolding scan_step_def s1_def [symmetric] Let_def
    by (cases "sfmt s1") (auto split: if_splits dest!: scan_switch_fmt)
qed

function vsscanf_loop :: "nat \<Rightarrow> scanning \<Rightarrow> scanning" where
  "vsscanf_loop n st =
     (if sfmt st \<noteq> [] \<and> sstr st \<noteq> [] then
        let (go, st) = scan_step n st in if go then vsscanf_loop n st else st
      else st)"
  by pat_completeness auto
termination
proof (relation "measure (\<lambda>(n, st). length (sfmt st))", goal_cases)
  case (2 n st x go st')
  then show ?case using scan_step_length [of st n st'] by auto
qed simp

declare vsscanf_loop.simps [simp del]

definition vsscanf :: "string \<Rightarrow> string \<Rightarrow> int \<times> store list" where
  "vsscanf buf fmt =
     (let st = vsscanf_loop (length buf) \<lparr>sfmt = fmt, sstr = buf, fwidth = -1, snum = 0, stores = []\<rparr>
      in (snum st, stores st))"

definition sscanf :: "string \<Rightarrow> string \<Rightarrow> int \<times> store list" where
  "sscanf buf fmt = vsscanf buf fmt"

section \<open>Output as text\<close>

definition puts :: "string \<Rightarrow> outbuf \<Rightarrow> outbuf" where
  "puts t b = fold put t b"

lemma puts_simps [simp]: "puts [] b = b" "puts (c # t) b = puts t (put c b)"
  by (simp_all add: puts_def)

lemma puts_puts: "puts u (puts t b) = puts (t @ u) b"
  by (simp add: puts_def)

lemma put_puts: "put c b = puts [c] b"
  by simp

lemma if_puts: "(if P then puts t b else puts u b) = puts (if P then t else u) b"
  "(if P then puts t b else b) = puts (if P then t else []) b"
  by simp_all

lemma puts_fields [simp]:
  "str (puts t b) = str b + length t" "lim (puts t b) = lim b" "counts (puts t b) = counts b"
  by (induction t arbitrary: b) (auto simp: put_def)

lemma put_counts: "put c (b\<lparr>counts := cs\<rparr>) = (put c b)\<lparr>counts := cs\<rparr>"
  by (cases b) (simp add: put_def)

lemma puts_counts: "puts t (b\<lparr>counts := cs\<rparr>) = (puts t b)\<lparr>counts := cs\<rparr>"
  by (induction t arbitrary: b) (simp_all add: put_counts)

lemma mem_puts:
  "mem (puts t b) a = (if str b \<le> a \<and> a < str b + length t \<and> a < lim b then t ! (a - str b) else mem b a)"
proof (induction t arbitrary: b)
  case (Cons c t)
  have s: "str (put c b) = str b + 1" "lim (put c b) = lim b" by (simp_all add: put_def)
  have "mem (puts (c # t) b) a = (if str b + 1 \<le> a \<and> a < str b + 1 + length t \<and> a < lim b
      then t ! (a - (str b + 1)) else mem (put c b) a)"
    using Cons.IH [of "put c b"] by (simp add: s)
  then show ?case by (auto simp: put_def nth_Cons' Suc_le_eq)
qed auto

lemma pad_puts: "pad sz c b = (if 0 < sz then -1 else sz - 1, puts (replicate (nat sz) c) b)"
proof (induction sz c b rule: pad.induct)
  case (1 sz c b)
  show ?case
  proof (cases "0 < sz")
    case True
    then have "nat sz = Suc (nat (sz - 1))" by simp
    then show ?thesis using 1 True by (simp add: pad.simps [of sz])
  qed (simp add: pad.simps [of sz])
qed

lemma pad_pre_puts:
  "pad_pre w b = (if 1 < w then 0 else w - 1, puts (replicate (nat (w - 1)) (CHR '' '')) b)"
proof (induction w b rule: pad_pre.induct)
  case (1 w b)
  show ?case
  proof (cases "1 < w")
    case True
    then have "nat (w - 1) = Suc (nat (w - 1 - 1))" by simp
    then show ?thesis using 1 True by (simp add: pad_pre.simps [of w])
  qed (simp add: pad_pre.simps [of w])
qed

lemma pad_to_puts:
  "pad_to len w b = (if len < w then len - 1 else w - 1, puts (replicate (nat (w - len)) (CHR '' '')) b)"
proof (induction len w b rule: pad_to.induct)
  case (1 len w b)
  show ?case
  proof (cases "len < w")
    case True
    then have "nat (w - len) = Suc (nat (w - 1 - len))" by simp
    then show ?thesis using 1 True by (simp add: pad_to.simps [of len w])
  qed (simp add: pad_to.simps [of len w])
qed

lemma zeros_puts: "zeros i pr b = puts (replicate (nat (pr - i)) (CHR ''0'')) b"
proof (induction i pr b rule: zeros.induct)
  case (1 i pr b)
  show ?case
  proof (cases "i < pr")
    case True
    then have "nat (pr - i) = Suc (nat (pr - 1 - i))" by simp
    then show ?thesis using 1 True by (simp add: zeros.simps [of i pr])
  qed (simp add: zeros.simps [of i pr])
qed

lemmas put_loops = pad_puts pad_pre_puts pad_to_puts zeros_puts

text \<open>The text of a number, as a function of the number and the format only.\<close>

definition out_text :: "string \<Rightarrow> char \<Rightarrow> char \<Rightarrow> string \<Rightarrow> int \<Rightarrow> int \<Rightarrow> int \<Rightarrow> u32 \<Rightarrow> string" where
  "out_text digits c sign tmp base sz precision type =
     (let fill = replicate (nat (sz - max precision (int (length tmp)))) in
      (if type AND (ZEROPAD + LEFT) = 0 then fill (CHR '' '') else []) @
      (if sign \<noteq> NUL then [sign] else []) @
      (if type AND SPECIAL \<noteq> 0 then
         if base = 8 then ''0'' else if base = 16 then [CHR ''0'', digits ! 33] else []
       else []) @
      (if type AND (ZEROPAD + LEFT) \<noteq> 0 \<and> type AND LEFT = 0 then fill c else []) @
      replicate (nat (precision - int (length tmp))) (CHR ''0'') @ rev tmp @
      (if type AND LEFT \<noteq> 0 then fill (CHR '' '') else []))"

lemma left_zeropad: "type AND (ZEROPAD + LEFT) = 0 \<Longrightarrow> type AND LEFT = 0"
proof -
  assume a: "type AND (ZEROPAD + LEFT) = 0"
  have "type AND LEFT = (type AND (ZEROPAD + LEFT)) AND LEFT"
    by (simp add: flag_defs and.assoc)
  then show ?thesis using a by simp
qed

lemma number_out_text:
  "number_out digits c sign tmp base sz precision type b =
   puts (out_text digits c sign tmp base sz precision type) b"
proof -
  let ?Z = "type AND (ZEROPAD + LEFT) = 0" and ?L = "type AND LEFT = 0" and ?i = "int (length tmp)"
  define pr where "pr = max precision ?i"
  define sp where "sp = (if type AND SPECIAL \<noteq> 0 then
      if base = 8 then ''0'' else if base = 16 then [CHR ''0'', digits ! 33] else [] else [])"
  define sg where "sg = (if sign \<noteq> NUL then [sign] else [])"
  have pr: "(if precision < ?i then ?i else precision) = pr" "nat (pr - ?i) = nat (precision - ?i)"
    by (auto simp: pr_def)
  have sg: "(if sign \<noteq> NUL then put sign b else b) = puts sg b" for b by (simp add: sg_def)
  have sp: "(if type AND SPECIAL \<noteq> 0 then if base = 8 then put (CHR ''0'') b
      else if base = 16 then put (digits ! 33) (put (CHR ''0'') b) else b else b) = puts sp b" for b
    by (simp add: sp_def)
  have fold: "fold put t b = puts t b" for t b by (simp add: puts_def)
  show ?thesis
    unfolding number_out_def Let_def pr(1) sg sp fold put_loops case_prod_beta
      out_text_def sp_def [symmetric] sg_def [symmetric] pr_def [symmetric]
    by (cases ?Z; cases ?L) (use left_zeropad [of type] pr(2) in \<open>simp_all add: puts_puts\<close>)
qed

definition number_text :: "u64 \<Rightarrow> int \<Rightarrow> int \<Rightarrow> int \<Rightarrow> u32 \<Rightarrow> string" where
  "number_text num base sz precision type =
     (let digits = (if type AND LARGE \<noteq> 0 then large_digits else small_digits);
          type = (if type AND LEFT \<noteq> 0 then type AND NOT ZEROPAD else type);
          c = (if type AND ZEROPAD \<noteq> 0 then CHR ''0'' else CHR '' '');
          (sign, num, sz) = number_sign num sz type;
          sz = (if type AND SPECIAL \<noteq> 0 then
                  if base = 16 then sz - 2 else if base = 8 then sz - 1 else sz
                else sz);
          tmp = (if num = 0 then ''0'' else digit_loop digits (word_of_int base) num)
      in out_text digits c sign tmp base sz precision type)"

lemma number_puts:
  "2 \<le> base \<Longrightarrow> base \<le> 36 \<Longrightarrow> number b num base sz pr ty = Some (puts (number_text num base sz pr ty) b)"
  by (simp add: number_def number_text_def Let_def number_out_text case_prod_beta)

subsection \<open>Directives\<close>

text \<open>
  What a directive does to any buffer: it puts a text and records counts, the positions relative
  to where it starts.
\<close>

definition emit :: "string \<Rightarrow> nat list \<Rightarrow> outbuf \<Rightarrow> outbuf" where
  "emit t ns b = puts t (b\<lparr>counts := counts b @ map ((+) (str b)) ns\<rparr>)"

lemma emit_puts: "puts t b = emit t [] b"
  by (simp add: emit_def)

lemma emit_nil [simp]: "emit [] [] b = b"
  by (simp add: emit_def)

lemma emit_emit: "emit u ms (emit t ns b) = emit (t @ u) (ns @ map ((+) (length t)) ms) b"
  by (simp add: emit_def puts_counts puts_puts comp_def add.assoc)

definition emits :: "(outbuf \<Rightarrow> (outbuf \<times> 'r) option) \<Rightarrow> bool" where
  "emits f \<longleftrightarrow> (\<forall>b. f b = None) \<or> (\<exists>t ns r. \<forall>b. f b = Some (emit t ns b, r))"

lemma emits_None [intro]: "emits (\<lambda>b. None)"
  by (simp add: emits_def)

lemma emits_puts [intro]: "emits (\<lambda>b. Some (puts t b, r))"
  by (auto simp: emits_def emit_puts)

lemma emits_same [intro]: "emits (\<lambda>b. Some (b, r))"
  using emits_puts [of "[]" r] by simp

lemma emits_put [intro]: "emits (\<lambda>b. Some (put c b, r))"
  using emits_puts [of "[c]" r] by simp

lemma emits_count [intro]: "emits (\<lambda>b. Some (b\<lparr>counts := counts b @ [str b]\<rparr>, r))"
proof -
  have "b\<lparr>counts := counts b @ [str b]\<rparr> = emit [] [0] b" for b by (simp add: emit_def)
  then show ?thesis by (auto simp: emits_def)
qed

lemma emits_number [intro]:
  "2 \<le> base \<Longrightarrow> base \<le> 36 \<Longrightarrow> emits (\<lambda>b. map_option (\<lambda>b. (b, r)) (number b num base sz pr ty))"
  by (auto simp: number_puts)

lemma emits_put_char [intro]: "emits (\<lambda>b. Some (put_char b f w c, r))"
  by (cases "f AND LEFT = 0")
     (auto simp: put_char_def put_loops put_puts puts_puts Let_def simp del: puts_simps)

lemma emits_put_string [intro]: "emits (\<lambda>b. Some (put_string b f w pr s, r))"
  by (cases "f AND LEFT = 0") (auto simp: put_string_def put_loops puts_puts puts_def [symmetric] Let_def)

lemma emits_bind:
  assumes "emits f" "\<And>r. emits (g r)"
  shows "emits (\<lambda>b. case f b of None \<Rightarrow> None | Some (b, r) \<Rightarrow> g r b)"
proof (cases "\<forall>b. f b = None")
  case True
  then show ?thesis by (simp add: emits_def)
next
  case False
  then obtain t ns r where f: "\<And>b. f b = Some (emit t ns b, r)"
    using assms(1) by (auto simp: emits_def)
  show ?thesis
  proof (cases "\<forall>b. g r b = None")
    case True
    then show ?thesis by (simp add: emits_def f)
  next
    case False
    then obtain u ms r' where "\<And>b. g r b = Some (emit u ms b, r')"
      using assms(2) [of r] by (auto simp: emits_def)
    then have "\<forall>b. (case f b of None \<Rightarrow> None | Some (b, r) \<Rightarrow> g r b) =
        Some (emit (t @ u) (ns @ map ((+) (length t)) ms) b, r')"
      by (simp add: f emit_emit)
    then show ?thesis unfolding emits_def by blast
  qed
qed

lemma emits_if [intro]:
  "(P \<Longrightarrow> emits f) \<Longrightarrow> (\<not> P \<Longrightarrow> emits g) \<Longrightarrow> emits (\<lambda>b. if P then f b else g b)"
  by (cases P) auto

lemma emits_option [intro]:
  "(\<And>r. emits (f r)) \<Longrightarrow> emits (\<lambda>b. case x of None \<Rightarrow> None | Some r \<Rightarrow> f r b)"
  by (cases x) auto

lemma emits_prod [intro]: "(\<And>u v. emits (f u v)) \<Longrightarrow> emits (\<lambda>b. case x of (u, v) \<Rightarrow> f u v b)"
  by (cases x) auto

lemma emits_Word [intro]:
  assumes "\<And>a as. emits (f a as)"
  shows "emits (\<lambda>b. case args of Word a # as \<Rightarrow> f a as b | _ \<Rightarrow> None)"
proof (cases args)
  case (Cons x xs)
  then show ?thesis using assms by (cases x) auto
qed auto

lemma emits_Str [intro]:
  assumes "\<And>a as. emits (f a as)"
  shows "emits (\<lambda>b. case args of Str a # as \<Rightarrow> f a as b | _ \<Rightarrow> None)"
proof (cases args)
  case (Cons x xs)
  then show ?thesis using assms by (cases x) auto
qed auto

lemma emits_Ptr [intro]:
  assumes "\<And>as. emits (f as)"
  shows "emits (\<lambda>b. case args of Ptr # as \<Rightarrow> f as b | _ \<Rightarrow> None)"
proof (cases args)
  case (Cons x xs)
  then show ?thesis using assms by (cases x) auto
qed auto

lemma emits_other: "emits (\<lambda>b. Some (if P then put c (put d b) else put d b, r))"
  using emits_puts [of "[d, c]"] by (cases P) auto

lemmas emits_intros = emits_if emits_option emits_prod emits_Word emits_Str emits_Ptr emits_number
  emits_put_char emits_put_string emits_count emits_put emits_other

lemma emits_convert: "emits (\<lambda>b. convert b f w pr q fmt args)"
  unfolding convert_def Let_def by (intro emits_intros) simp_all

lemma emits_directive: "emits (\<lambda>b. directive b fmt args)"
  unfolding directive_def Let_def
  by (intro emits_intros emits_convert)

lemma emits_vsn_loop: "emits (\<lambda>b. vsn_loop b fmt args)"
proof (induction "length fmt" arbitrary: fmt args rule: less_induct)
  case less
  show ?case
  proof (cases fmt)
    case Nil
    then show ?thesis by auto
  next
    case (Cons c fmt')
    show ?thesis
    proof (cases "c = CHR ''%''")
      case False
      have "emits (\<lambda>b. case Some (put c b, ()) of None \<Rightarrow> None | Some (b, r) \<Rightarrow> vsn_loop b fmt' args)"
        using less Cons by (intro emits_bind) auto
      then show ?thesis using Cons False by simp
    next
      case True
      show ?thesis
      proof (cases "\<forall>b. directive b fmt' args = None")
        case none: True
        then show ?thesis using Cons True by (simp add: emits_None)
      next
        case False
        then obtain t ns rest args' where d: "\<And>b. directive b fmt' args = Some (emit t ns b, rest, args')"
          using emits_directive [of fmt' args] by (auto simp: emits_def)
        have "length rest < length fmt" using directive_length [OF d] Cons by simp
        then have rest: "emits (\<lambda>b. vsn_loop b rest args')" by (rule less)
        have "emits (\<lambda>b. Some (emit t ns b, ()))" by (auto simp: emits_def)
        then have "emits (\<lambda>b. case Some (emit t ns b, ()) of None \<Rightarrow> None | Some (b, r) \<Rightarrow> vsn_loop b rest args')"
          by (rule emits_bind) (rule rest)
        then show ?thesis using Cons True d by simp
      qed
    qed
  qed
qed

section \<open>Digits\<close>

lemma digit_tables:
  assumes "r < 16"
  shows "isxdigit (small_digits ! r) \<and> digit_value (small_digits ! r) = r"
    and "isxdigit (large_digits ! r) \<and> digit_value (large_digits ! r) = r"
proof -
  have "list_all (\<lambda>r. isxdigit (small_digits ! r) \<and> digit_value (small_digits ! r) = r \<and>
      isxdigit (large_digits ! r) \<and> digit_value (large_digits ! r) = r) [0..<16]" by code_simp
  then show "isxdigit (small_digits ! r) \<and> digit_value (small_digits ! r) = r"
      "isxdigit (large_digits ! r) \<and> digit_value (large_digits ! r) = r"
    using assms by (auto simp: list_all_iff)
qed

lemma strto_loop_append:
  "\<forall>c \<in> set xs. isxdigit c \<and> digit_value c < base \<Longrightarrow>
   strto_loop base r (xs @ ys) = strto_loop base (fst (strto_loop base r xs)) ys"
  by (induction xs arbitrary: r) auto

text \<open>Digit generation and digit reading are inverse to each other.\<close>

lemma strto_digits:
  assumes "digits = small_digits \<or> digits = large_digits" "2 \<le> base" "base \<le> 16" "unat num < 2 ^ 32"
  shows "(\<forall>c \<in> set (digit_loop digits (of_nat base) num). isxdigit c \<and> digit_value c < base) \<and>
    fst (strto_loop base 0 (rev (digit_loop digits (of_nat base) num))) = (ucast num :: 'a::len word)"
  using assms
proof (induction digits "of_nat base :: u32" num rule: digit_loop.induct)
  case (1 digits num)
  have ub: "unat (of_nat base :: u32) = base" using "1.prems"(3) by (simp add: unat_of_nat)
  show ?case
  proof (cases "num = 0")
    case True
    then show ?thesis by (simp add: digit_loop.simps)
  next
    case False
    define r num' where "r = fst (do_div num (of_nat base))" and "num' = snd (do_div num (of_nat base))"
    have two: "(2 :: u32) \<le> of_nat base" using "1.prems"(2) ub by (simp add: word_le_nat_alt)
    have r: "unat r = unat num mod base"
      using "1.prems"(4) by (simp add: r_def do_div_def unat_mod unat_low32 ub)
    have n: "unat num' = unat num div base" using "1.prems"(4) by (simp add: num'_def unat_do_div ub)
    have IH: "(\<forall>c \<in> set (digit_loop digits (of_nat base) num'). isxdigit c \<and> digit_value c < base)"
        "fst (strto_loop base 0 (rev (digit_loop digits (of_nat base) num'))) = (ucast num' :: 'a word)"
      using "1.hyps" [of "(r, num')" r num'] "1.prems" False two n
      by (auto simp: r_def num'_def intro: le_less_trans [OF div_le_dividend])
    have lt: "unat r < base" using r "1.prems"(2) by simp
    then have d: "isxdigit (digits ! unat r)" "digit_value (digits ! unat r) = unat r"
      using digit_tables [of "unat r"] "1.prems"(1,3) by auto
    have unfold: "digit_loop digits (of_nat base) num = digits ! unat r # digit_loop digits (of_nat base) num'"
      using False two by (simp add: digit_loop.simps [of digits _ num] r_def num'_def case_prod_beta)
    have "(ucast num' :: 'a word) = of_nat (unat num')" by simp
    then have "(ucast num' :: 'a word) * of_nat base + of_nat (unat r) = of_nat (unat num' * base + unat r)"
      by (simp only: of_nat_add of_nat_mult)
    also have "\<dots> = of_nat (unat num)" by (simp only: n r div_mult_mod_eq)
    finally have "(ucast num' :: 'a word) * of_nat base + of_nat (unat r) = ucast num" by simp
    then show ?thesis
      using IH d lt by (simp add: unfold strto_loop_append)
  qed
qed

section \<open>The buffer after formatting\<close>

text \<open>The first characters of the text that fit, then a terminator, inside the first \<open>n\<close> cells.\<close>

definition bounded :: "string \<Rightarrow> nat \<Rightarrow> mem \<Rightarrow> mem" where
  "bounded t n m = (\<lambda>a. if n = 0 then m a
     else if a < min (length t) (n - 1) then t ! a
     else if a = min (length t) (n - 1) then NUL else m a)"

lemma vsnprintf_emit:
  assumes "\<And>b. vsn_loop b fmt args = Some (emit t ns b, r)"
  shows "vsnprintf m buf sz fmt args = Some (length t, bounded t (unat (out_size buf sz)) m, ns)"
proof -
  define n where "n = unat (out_size buf sz)"
  define b where "b = emit t ns \<lparr>mem = m, str = 0, lim = n, counts = []\<rparr>"
  have b: "str b = length t" "counts b = ns"
      "\<And>a. mem b a = (if a < length t \<and> a < n then t ! a else m a)"
    by (simp_all add: b_def emit_def mem_puts map_idI)
  have run: "vsn_loop \<lparr>mem = m, str = 0, lim = n, counts = []\<rparr> fmt args = Some (b, r)"
    by (simp add: assms b_def)
  have "vsnprintf m buf sz fmt args = Some (length t,
      if length t < n then (mem b)(length t := NUL) else if 0 < n then (mem b)(n - 1 := NUL) else mem b, ns)"
    unfolding vsnprintf_def by (simp add: n_def [symmetric] run b cong: if_cong split del: if_split)
  moreover have "(if length t < n then (mem b)(length t := NUL) else if 0 < n then (mem b)(n - 1 := NUL) else mem b)
      = bounded t n m"
    by (intro ext) (auto simp: bounded_def b(3))
  ultimately show ?thesis by (simp add: n_def)
qed

lemma cstr_bounded:
  assumes "NUL \<notin> set t" "length t < n"
  shows "cstr (bounded t n m) 0 t"
proof -
  have "cstr (bounded t n m) k (drop k t)" if "k \<le> length t" for k
    using that
  proof (induction "length t - k" arbitrary: k)
    case 0
    then show ?case using assms(2) by (simp add: bounded_def)
  next
    case (Suc j)
    then have "k < length t" by simp
    then have "drop k t = t ! k # drop (k + 1) t" by (simp add: Cons_nth_drop_Suc)
    moreover have "cstr (bounded t n m) (k + 1) (drop (k + 1) t)" using Suc by simp
    moreover have "t ! k \<noteq> NUL" using assms(1) \<open>k < length t\<close> nth_mem by metis
    ultimately show ?case using \<open>k < length t\<close> assms(2) by (auto simp: bounded_def)
  qed
  from this [of 0] show ?thesis by simp
qed

text \<open>A number without padding, sign or prefix.\<close>

definition plain_digits :: "u32 \<Rightarrow> int \<Rightarrow> u64 \<Rightarrow> string" where
  "plain_digits type base num =
     rev (if num = 0 then ''0''
          else digit_loop (if type AND LARGE \<noteq> 0 then large_digits else small_digits) (word_of_int base) num)"

lemma out_text_bare:
  assumes "type AND SPECIAL = 0" "type AND (ZEROPAD + LEFT) = 0" "sz < 0" "pr < 0"
  shows "out_text digits c sign tmp base sz pr type = (if sign \<noteq> NUL then [sign] else []) @ rev tmp"
proof -
  have "nat (sz - max pr (int (length tmp))) = 0" "nat (pr - int (length tmp)) = 0" using assms(3,4) by simp_all
  then show ?thesis using assms(1,2) left_zeropad [of type] by (simp add: out_text_def)
qed

lemma number_text_plain:
  assumes "type = 0 \<or> type = LARGE"
  shows "number_text num base (-1) (-1) type = plain_digits type base num"
proof -
  have f: "type AND SPECIAL = 0" "type AND (ZEROPAD + LEFT) = 0" "type AND SIGN = 0" "type AND LEFT = 0"
    using assms by (auto simp: flag_defs)
  show ?thesis
    unfolding number_text_def plain_digits_def number_sign_def Let_def
    by (simp add: f out_text_bare)
qed

lemma number_text_signed:
  "number_text num 10 (-1) (-1) SIGN =
     (if sint num < 0 then CHR ''-'' # plain_digits 0 10 (- num) else plain_digits 0 10 num)"
proof -
  have f: "SIGN AND SPECIAL = 0" "SIGN AND (ZEROPAD + LEFT) = 0" "SIGN \<noteq> 0" "SIGN AND LEFT = 0"
      "SIGN AND PLUS = 0" "SIGN AND SPACE = 0" "SIGN AND LARGE = 0" "SIGN AND ZEROPAD = 0"
    by (simp_all add: flag_defs)
  show ?thesis
    unfolding number_text_def plain_digits_def number_sign_def Let_def
    by (cases "sint num < 0") (simp_all add: f out_text_bare)
qed

lemma plain_digits_read:
  assumes "type = 0 \<or> type = LARGE" "2 \<le> base" "base \<le> 16" "unat num < 2 ^ 32"
  shows "(\<forall>c \<in> set (plain_digits type (int base) num). isxdigit c \<and> digit_value c < base) \<and>
    strto_loop base 0 (plain_digits type (int base) num) = (ucast num :: 'a::len word, [])"
proof -
  define digits where "digits = (if type AND LARGE \<noteq> 0 then large_digits else small_digits)"
  have all: "strto_loop base r xs = (fst (strto_loop base r xs), [])"
    if "\<forall>c \<in> set xs. isxdigit c \<and> digit_value c < base" for r :: "'a word" and xs
    using that by (induction xs arbitrary: r) auto
  have z: "isxdigit (CHR ''0'')" "digit_value (CHR ''0'') = 0"
    by (simp_all add: isxdigit_iff digit_value_def isdigit_iff)
  have d: "(\<forall>c \<in> set (digit_loop digits (of_nat base) num). isxdigit c \<and> digit_value c < base) \<and>
      fst (strto_loop base 0 (rev (digit_loop digits (of_nat base) num))) = (ucast num :: 'a word)"
    using assms by (intro strto_digits) (auto simp: digits_def)
  show ?thesis
    unfolding plain_digits_def digits_def [symmetric]
    using d z all [of "rev (digit_loop digits (of_nat base) num)" 0] assms(2) by auto
qed

section \<open>Properties\<close>


lemma vsn_loop_word:
  assumes "(conv, type, base) \<in> {(CHR ''u'', 0, 10), (CHR ''o'', 0, 8), (CHR ''x'', 0, 16), (CHR ''X'', LARGE, 16)}"
  shows "vsn_loop b [CHR ''%'', CHR ''l'', conv] [Word w] =
    Some (emit (plain_digits type (int base) (ucast w)) [] b, [])"
  using assms
  by (auto simp: directive_def get_width_def get_precision_def get_qualifier_def convert_def get_num_def
      isdigit_iff number_puts number_text_plain emit_puts flag_defs)

text \<open>
  C26: printing and reading a number are inverse.  The text that \<open>%lu\<close>, \<open>%lo\<close>, \<open>%lx\<close> and
  \<open>%lX\<close> produce for a 32-bit value is read back by \<open>simple_strtoul\<close> in the same base, to its
  end, as that value.
\<close>

theorem printf_strtoul:
  assumes "(conv, base) \<in> {(CHR ''u'', 10), (CHR ''o'', 8), (CHR ''x'', 16), (CHR ''X'', 16)}"
  shows "\<exists>text. (\<forall>m buf sz. vsnprintf m buf sz [CHR ''%'', CHR ''l'', conv] [Word w] =
        Some (length text, bounded text (unat (out_size buf sz)) m, [])) \<and>
      simple_strtoul text base = (w, [])"
proof -
  obtain type where ty: "(conv, type, base) \<in>
      {(CHR ''u'', 0, 10), (CHR ''o'', 0, 8), (CHR ''x'', 0, 16), (CHR ''X'', LARGE, 16)}"
    using assms by auto
  have b: "2 \<le> base" "base \<le> 16" "type = 0 \<or> type = LARGE" using ty by auto
  define s where "s = plain_digits type (int base) (ucast w)"
  have "unat (ucast w :: u64) < 2 ^ 32" using unsigned_less [of w, where 'a = nat] by (simp only: unat_wide) simp
  then have "strto_loop base 0 s = (ucast (ucast w :: u64) :: u32, [])"
    unfolding s_def using plain_digits_read [OF b(3,1,2)] by blast
  then have "simple_strtoul s base = (w, [])"
    using b(1) by (simp add: simple_strtoul_def strto_base_def narrow_wide)
  moreover have "vsnprintf m buf sz [CHR ''%'', CHR ''l'', conv] [Word w] =
      Some (length s, bounded s (unat (out_size buf sz)) m, [])" for m buf sz
    unfolding s_def by (rule vsnprintf_emit [OF vsn_loop_word [OF ty]])
  ultimately show ?thesis by blast
qed

theorem printf_strtoul_witness:
  "\<exists>text. (\<forall>m buf sz. vsnprintf m buf sz ''%lx'' [Word 0xbeef] =
        Some (length text, bounded text (unat (out_size buf sz)) m, [])) \<and>
      simple_strtoul text 16 = (0xbeef, [])"
  using printf_strtoul [of "CHR ''x''" 16 "0xbeef"] by simp

lemma vsn_loop_signed:
  "vsn_loop b ''%ld'' [Word w] = Some (emit (number_text (scast w) 10 (-1) (-1) SIGN) [] b, [])"
proof -
  have "SIGN \<noteq> 0" by (simp add: SIGN_def)
  then have "get_num (Some (CHR ''l'')) SIGN [Word w] = Some (scast w, [])" by (simp add: get_num_def)
  then show ?thesis
    by (simp add: directive_def get_width_def get_precision_def get_qualifier_def convert_def
        isdigit_iff number_puts emit_puts)
qed

lemma signed_magnitude:
  assumes "sint (w :: u32) < 0"
  shows "unat (- (scast w :: u64)) < 2 ^ 32" "(ucast (- (scast w :: u64)) :: u32) = - w"
proof -
  have neg: "- (scast w :: u64) = word_of_int (- sint w)" by simp
  have r: "0 \<le> - sint w" "- sint w < 2 ^ 32" using assms sint_greater_eq [of w] by simp_all
  have "unat (word_of_int (- sint w) :: u64) = nat (- sint w)"
    using r by (rule unat_of_small_int)
  moreover have "nat (- sint w) < 2 ^ 32" using r by (simp add: nat_less_iff)
  ultimately show "unat (- (scast w :: u64)) < 2 ^ 32" unfolding neg by (simp only:)
  show "(ucast (- (scast w :: u64)) :: u32) = - w" unfolding neg narrow_of_int by simp
qed

lemma simple_strtol_plain:
  assumes "unat num < 2 ^ 32"
  shows "simple_strtoul (plain_digits 0 10 num) 10 = (ucast num, [])"
    and "peek (plain_digits 0 10 num) \<noteq> CHR ''-''"
proof -
  note d = plain_digits_read [where 'a = 32, of 0 10 num, OF _ _ _ assms]
  show "simple_strtoul (plain_digits 0 10 num) 10 = (ucast num, [])"
    using d by (simp add: simple_strtoul_def strto_base_def)
  show "peek (plain_digits 0 10 num) \<noteq> CHR ''-''"
    using d by (cases "plain_digits 0 10 num") (auto simp: isxdigit_iff)
qed

text \<open>
  The same for signed numbers.  The text of \<open>%ld\<close> is read back by \<open>simple_strtol\<close> as the
  value printed, for every 32-bit value, the most negative one included.
\<close>

theorem printf_strtol:
  "\<exists>text. (\<forall>m buf sz. vsnprintf m buf sz ''%ld'' [Word w] =
        Some (length text, bounded text (unat (out_size buf sz)) m, [])) \<and>
      simple_strtol text 10 = (w, [])"
proof -
  define s where "s = number_text (scast w :: u64) 10 (-1) (-1) SIGN"
  have sgn: "sint (scast w :: u64) = sint w"
    using sint_greater_eq [of w] sint_less [of w] by (simp add: signed_scast_eq signed_take_bit_int_eq_self)
  have "simple_strtol s 10 = (w, [])"
  proof (cases "sint w < 0")
    case True
    note m = signed_magnitude [OF True]
    show ?thesis
      unfolding s_def number_text_signed sgn simple_strtol_def
      using True simple_strtol_plain(1) [OF m(1)] m(2) by simp
  next
    case False
    have "(scast w :: u64) = word_of_int (sint w)" by simp
    moreover have r: "0 \<le> sint w" "sint w < 2 ^ 32" using False sint_less [of w] by simp_all
    ultimately have u: "unat (scast w :: u64) < 2 ^ 32" "(ucast (scast w :: u64) :: u32) = w"
      using unat_of_small_int [OF r] narrow_of_int [of "sint w"] by simp_all
    show ?thesis
      unfolding s_def number_text_signed sgn simple_strtol_def
      using False simple_strtol_plain [OF u(1)] u(2) by simp
  qed
  moreover have "vsnprintf m buf sz ''%ld'' [Word w] =
      Some (length s, bounded s (unat (out_size buf sz)) m, [])" for m buf sz
    unfolding s_def by (rule vsnprintf_emit [OF vsn_loop_signed])
  ultimately show ?thesis by blast
qed

lemma do_div_low: "do_div (ucast (ucast n :: u32)) base = do_div n base"
  by (simp add: do_div_def narrow_wide)

lemma plain_digits_low:
  assumes "2 \<le> (word_of_int base :: u32)"
  shows "plain_digits type base (ucast (ucast num :: u32)) = plain_digits type base num"
proof -
  define low where "low = (ucast (ucast num :: u32) :: u64)"
  define digits where "digits = (if type AND LARGE \<noteq> 0 then large_digits else small_digits)"
  have step: "digit_loop digits (word_of_int base) n =
      (let (r, n') = do_div num (word_of_int base) in digits ! unat r # digit_loop digits (word_of_int base) n')"
    if "n \<noteq> 0" "n = num \<or> n = low" for n
    using that assms by (auto simp: digit_loop.simps [of digits _ n] low_def do_div_low)
  have zero: "do_div num (word_of_int base) = (0, 0)" if "low = 0"
  proof -
    have "(ucast num :: u32) = 0" using that by (simp add: low_def word_unat_eq_iff unat_wide)
    then show ?thesis by (simp add: do_div_def)
  qed
  have z: "digits ! 0 = CHR ''0''" by (simp add: digits_def small_digits_def large_digits_def)
  have nil: "digit_loop digits (word_of_int base) 0 = []" by (simp add: digit_loop.simps)
  have "low = 0" if "num = 0" using that by (simp add: low_def)
  then show ?thesis
    unfolding plain_digits_def digits_def [symmetric] low_def [symmetric]
    by (cases "num = 0"; cases "low = 0") (simp_all add: step zero z nil)
qed

text \<open>
  C27: a 64-bit value is printed by its low half.  On ARM \<open>do_div\<close> works on 32 bits, so
  \<open>%Lu\<close> gives for every argument the text that \<open>%lu\<close> gives for its low 32 bits.
\<close>

theorem printf_long_long_truncates:
  "vsnprintf m buf sz ''%Lu'' [DWord d] = vsnprintf m buf sz ''%lu'' [Word (ucast d)]"
proof -
  have "vsn_loop b ''%Lu'' [DWord d] = Some (emit (plain_digits 0 10 d) [] b, [])" for b
    by (simp add: directive_def get_width_def get_precision_def get_qualifier_def convert_def get_num_def
        isdigit_iff number_puts number_text_plain emit_puts)
  moreover have "vsn_loop b ''%lu'' [Word (ucast d)] = Some (emit (plain_digits 0 10 d) [] b, [])" for b
    using vsn_loop_word [of "CHR ''u''" 0 10 b "ucast d"] by (simp add: plain_digits_low)
  ultimately show ?thesis
    using vsnprintf_emit [of "''%Lu''" "[DWord d]"] vsnprintf_emit [of "''%lu''" "[Word (ucast d)]"] by simp
qed

text \<open>
  C28: \<open>sscanf\<close> with \<open>%lu\<close> reads back what \<open>%lu\<close> printed: one conversion, the value
  stored.
\<close>

theorem printf_scanf:
  "\<exists>text. (\<forall>m buf sz. vsnprintf m buf sz ''%lu'' [Word w] =
        Some (length text, bounded text (unat (out_size buf sz)) m, [])) \<and>
      sscanf text ''%lu'' = (1, [StLong w])"
proof -
  define s where "s = plain_digits 0 10 (ucast w :: u64)"
  have u: "unat (ucast w :: u64) < 2 ^ 32" using unsigned_less [of w, where 'a = nat] by (simp only: unat_wide) simp
  have read: "simple_strtoul s 10 = (w, [])"
    using simple_strtol_plain(1) [OF u] by (simp add: s_def narrow_wide)
  have "s \<noteq> []"
    by (simp add: s_def plain_digits_def digit_loop.simps [of _ _ "ucast w"] case_prod_beta)
  then obtain c s' where s: "s = c # s'" by (cases s) auto
  have "isxdigit c \<and> digit_value c < 10"
    using plain_digits_read [where 'a = 32, of 0 10 "ucast w", OF _ _ _ u] s by (simp add: s_def)
  then have "isdigit c" by (auto simp: digit_value_def split: if_splits)
  then have c: "isdigit c" "\<not> isspace c" by (auto simp: isdigit_iff isspace_iff)
  have "sscanf s ''%lu'' = (1, [StLong w])"
    using c read s
    by (simp add: sscanf_def vsscanf_def vsscanf_loop.simps scan_step_def scan_qualifier_def
        scan_switch_def scan_int_def isspace_iff isdigit_iff)
  moreover have "vsnprintf m buf sz ''%lu'' [Word w] =
      Some (length s, bounded s (unat (out_size buf sz)) m, [])" for m buf sz
    unfolding s_def using vsnprintf_emit [OF vsn_loop_word [of "CHR ''u''" 0 10]] by simp
  ultimately show ?thesis by blast
qed


end
