(* ===== verification/Cmdline.thy ===== *)
theory Cmdline
  imports Vsprintf
begin

unbundle bit_operations_syntax

text \<open>
  Option parsing, \<^verbatim>\<open>lib/cmdline.c\<close>.  The string pointer that a call moves is the rest of
  the string; the integer array is a list.
\<close>

section \<open>The parser\<close>

text \<open>
  The result code, the rest of the string and the integer stored, if any was.  The argument is
  \<open>None\<close> for a null pointer.
\<close>

definition get_option :: "string option \<Rightarrow> nat \<times> string option \<times> u32 option" where
  "get_option s =
     (case s of
        None \<Rightarrow> (0, None, None)
      | Some cur \<Rightarrow>
          if cur = [] then (0, Some cur, None)
          else let (v, e) = simple_strtol cur 0 in
            if length e = length cur then (0, Some e, Some v)
            else if peek e = CHR '','' then (2, Some (tl e), Some v)
            else (1, Some e, Some v))"

function get_options_loop :: "nat \<Rightarrow> nat \<Rightarrow> string option \<Rightarrow> u32 list \<Rightarrow> nat \<times> string option \<times> u32 list" where
  "get_options_loop i nints s ints =
     (if i < nints then
        let (res, s, v) = get_option s;
            ints = (case v of None \<Rightarrow> ints | Some v \<Rightarrow> ints[i := v]) in
        if res = 0 then (i, s, ints)
        else if res = 1 then (i + 1, s, ints)
        else get_options_loop (i + 1) nints s ints
      else (i, s, ints))"
  by pat_completeness auto
termination by (relation "measure (\<lambda>(i, nints, s, ints). nints - i)") auto

declare get_options_loop.simps [simp del]

definition get_options :: "string option \<Rightarrow> nat \<Rightarrow> u32 list \<Rightarrow> string option \<times> u32 list" where
  "get_options s nints ints =
     (let (i, s, ints) = get_options_loop 1 nints s ints in (s, ints[0 := of_nat (i - 1)]))"

definition memparse :: "string \<Rightarrow> u64 \<times> string" where
  "memparse ptr =
     (let (ret, retptr) = simple_strtoull ptr 0; c = peek retptr in
      if c = CHR ''G'' \<or> c = CHR ''g'' then (push_bit 10 (push_bit 10 (push_bit 10 ret)), tl retptr)
      else if c = CHR ''M'' \<or> c = CHR ''m'' then (push_bit 10 (push_bit 10 ret), tl retptr)
      else if c = CHR ''K'' \<or> c = CHR ''k'' then (push_bit 10 ret, tl retptr)
      else (ret, retptr))"

section \<open>Reading decimal text with automatic base\<close>

text \<open>The text of a signed number, as \<open>%ld\<close> prints it.\<close>

definition dec :: "u32 \<Rightarrow> string" where
  "dec w = number_text (scast w) 10 (-1) (-1) SIGN"

text \<open>A number does not begin with the digit zero unless it is zero.\<close>

lemma digit_loop_last:
  assumes "digits = small_digits \<or> digits = large_digits" "2 \<le> base" "base \<le> 16" "unat num < 2 ^ 32" "num \<noteq> 0"
  shows "digit_loop digits (of_nat base) num \<noteq> [] \<and> last (digit_loop digits (of_nat base) num) \<noteq> CHR ''0''"
  using assms
proof (induction digits "of_nat base :: u32" num rule: digit_loop.induct)
  case (1 digits num)
  have ub: "unat (of_nat base :: u32) = base" using "1.prems"(3) by (simp add: unat_of_nat)
  define r num' where "r = fst (do_div num (of_nat base))" and "num' = snd (do_div num (of_nat base))"
  have two: "(2 :: u32) \<le> of_nat base" using "1.prems"(2) ub by (simp add: word_le_nat_alt)
  have r: "unat r = unat num mod base"
    using "1.prems"(4) by (simp add: r_def do_div_def unat_mod unat_low32 ub)
  have n: "unat num' = unat num div base" using "1.prems"(4) by (simp add: num'_def unat_do_div ub)
  have unfold: "digit_loop digits (of_nat base) num = digits ! unat r # digit_loop digits (of_nat base) num'"
    using "1.prems"(5) two by (simp add: digit_loop.simps [of digits _ num] r_def num'_def case_prod_beta)
  show ?case
  proof (cases "num' = 0")
    case True
    then have "unat num < base" using n "1.prems"(2) by (simp add: div_eq_0_iff)
    then have "unat r = unat num" "0 < unat r" "unat r < 16"
      using r "1.prems"(3,5) by (simp_all add: unat_gt_0)
    moreover from this have "digit_value (digits ! unat r) = unat r"
      using digit_tables [of "unat r"] "1.prems"(1) by auto
    ultimately have "digits ! unat r \<noteq> CHR ''0''" by (auto simp: digit_value_def isdigit_iff)
    then show ?thesis using True by (simp add: unfold digit_loop.simps [of digits _ 0])
  next
    case False
    have "unat num' < 2 ^ 32" using n "1.prems"(4) by (auto intro: le_less_trans [OF div_le_dividend])
    then have "digit_loop digits (of_nat base) num' \<noteq> [] \<and> last (digit_loop digits (of_nat base) num') \<noteq> CHR ''0''"
      using "1.hyps" [of "(r, num')" r num'] "1.prems" False two by (auto simp: r_def num'_def)
    then show ?thesis by (simp add: unfold)
  qed
qed

lemma plain_digits_hd:
  assumes "unat num < 2 ^ 32" "num \<noteq> 0"
  shows "plain_digits 0 10 num \<noteq> [] \<and> hd (plain_digits 0 10 num) \<noteq> CHR ''0''"
  using digit_loop_last [of small_digits 10 num] assms
  by (auto simp: plain_digits_def hd_rev flag_defs)

definition stops :: "string \<Rightarrow> bool" where
  "stops rest \<longleftrightarrow> rest = [] \<or> \<not> isxdigit (hd rest) \<and> hd rest \<noteq> CHR ''x''"

lemma strto_loop_stops: "stops rest \<Longrightarrow> strto_loop base r rest = (r, rest)"
  by (cases rest) (auto simp: stops_def)

lemma strto_auto_base:
  assumes "stops rest" "unat num < 2 ^ 32"
  shows "(case strto_base 0 (plain_digits 0 10 num @ rest) of (b, cp) \<Rightarrow> strto_loop b 0 cp) =
    (ucast num :: 'a::len word, rest)"
proof (cases "num = 0")
  case True
  then have "plain_digits 0 10 num = ''0''" by (simp add: plain_digits_def)
  moreover have "peek rest \<noteq> CHR ''x''" using assms(1) by (cases rest) (auto simp: stops_def)
  ultimately show ?thesis using True strto_loop_stops [OF assms(1)] by (simp add: strto_base_def)
next
  case False
  have "peek (plain_digits 0 10 num @ rest) \<noteq> CHR ''0''"
    using plain_digits_hd [OF assms(2) False] by (cases "plain_digits 0 10 num") auto
  then have "strto_base 0 (plain_digits 0 10 num @ rest) = (10, plain_digits 0 10 num @ rest)"
    by (simp add: strto_base_def)
  moreover have "\<forall>c \<in> set (plain_digits 0 10 num). isxdigit c \<and> digit_value c < 10"
      "strto_loop 10 0 (plain_digits 0 10 num) = (ucast num :: 'a word, [])"
    using plain_digits_read [where 'a = 'a, of 0 10 num, OF _ _ _ assms(2)] by auto
  ultimately show ?thesis
    using strto_loop_append [of "plain_digits 0 10 num" 10 "0 :: 'a word" rest] strto_loop_stops [OF assms(1)]
    by simp
qed

lemma nonneg_magnitude:
  assumes "0 \<le> sint (w :: u32)"
  shows "unat (scast w :: u64) < 2 ^ 32" "(ucast (scast w :: u64) :: u32) = w"
proof -
  have e: "(scast w :: u64) = word_of_int (sint w)" by simp
  have r: "0 \<le> sint w" "sint w < 2 ^ 32" using assms sint_less [of w] by simp_all
  have "nat (sint w) < 2 ^ 32" using r by (simp add: nat_less_iff)
  then show "unat (scast w :: u64) < 2 ^ 32" unfolding e using unat_of_small_int [OF r] by (simp only:)
  show "(ucast (scast w :: u64) :: u32) = w" unfolding e narrow_of_int by simp
qed

lemma strtol_dec:
  assumes "stops rest"
  shows "simple_strtol (dec w @ rest) 0 = (w, rest)"
proof -
  have sgn: "sint (scast w :: u64) = sint w"
    using sint_greater_eq [of w] sint_less [of w] by (simp add: signed_scast_eq signed_take_bit_int_eq_self)
  show ?thesis
  proof (cases "sint w < 0")
    case True
    note m = signed_magnitude [OF True]
    have "dec w = CHR ''-'' # plain_digits 0 10 (- scast w)" using True by (simp add: dec_def number_text_signed sgn)
    then show ?thesis
      using strto_auto_base [OF assms m(1), where 'a = 32] m(2)
      by (simp add: simple_strtol_def simple_strtoul_def case_prod_beta)
  next
    case False
    then have m: "unat (scast w :: u64) < 2 ^ 32" "(ucast (scast w :: u64) :: u32) = w"
      using nonneg_magnitude [of w] by simp_all
    have d: "dec w = plain_digits 0 10 (scast w)" using False by (simp add: dec_def number_text_signed sgn)
    have "dec w \<noteq> []" unfolding d
      by (simp add: plain_digits_def digit_loop.simps [of _ _ "scast w"] case_prod_beta)
    then have "peek (dec w @ rest) \<noteq> CHR ''-''"
      using simple_strtol_plain(2) [OF m(1)] unfolding d by (cases "plain_digits 0 10 (scast w)") auto
    then show ?thesis
      using strto_auto_base [OF assms m(1), where 'a = 32] m(2)
      by (simp add: d simple_strtol_def simple_strtoul_def case_prod_beta)
  qed
qed

lemma dec_not_empty: "dec w \<noteq> []"

  by (auto simp: dec_def number_text_signed plain_digits_def
      digit_loop.simps [of _ _ "scast w"] digit_loop.simps [of _ _ "- scast w"] case_prod_beta split: if_splits)

section \<open>Lists of options\<close>

lemma get_option_last: "get_option (Some (dec w)) = (1, Some [], Some w)"
  using strtol_dec [of "[]" w] dec_not_empty [of w] by (simp add: get_option_def stops_def)

lemma get_option_comma: "get_option (Some (dec w @ CHR '','' # s)) = (2, Some s, Some w)"
  using strtol_dec [of "CHR '','' # s" w] dec_not_empty [of w] by (simp add: get_option_def stops_def isxdigit_iff)

fun join :: "u32 list \<Rightarrow> string" where
  "join [] = []"
| "join [v] = dec v"
| "join (v # vs) = dec v @ CHR '','' # join vs"

lemma get_options_loop_join:
  assumes "vs \<noteq> []" "i + length vs \<le> nints" "nints \<le> length ints"
  shows "get_options_loop i nints (Some (join vs)) ints =
    (i + length vs, Some [], take i ints @ vs @ drop (i + length vs) ints)"
  using assms
proof (induction vs arbitrary: i ints rule: join.induct)
  case (2 v)
  then show ?case
    by (simp add: get_options_loop.simps [of i] get_option_last upd_conv_take_nth_drop)
next
  case (3 v v' vs)
  have "get_options_loop i nints (Some (join (v # v' # vs))) ints =
      get_options_loop (i + 1) nints (Some (join (v' # vs))) (ints[i := v])"
    using 3 by (simp add: get_options_loop.simps [of i] get_option_comma)
  also have "\<dots> = (i + 1 + length (v' # vs), Some [],
      take (i + 1) (ints[i := v]) @ (v' # vs) @ drop (i + 1 + length (v' # vs)) (ints[i := v]))"
    using 3 by (intro "3.IH") auto
  also have "take (i + 1) (ints[i := v]) = take i ints @ [v]"
    using 3 by (simp add: take_Suc_conv_app_nth)
  finally show ?case using 3 by simp
qed simp

section \<open>Properties\<close>

text \<open>
  C29: a comma-separated list of integers, each printed as \<open>%ld\<close> does, is parsed completely: the
  array holds their number, then the integers in order, and its other cells are unchanged.
\<close>

theorem get_options_join:
  assumes "vs \<noteq> []" "length vs < nints" "nints \<le> length ints"
  shows "get_options (Some (join vs)) nints ints =
    (Some [], of_nat (length vs) # vs @ drop (length vs + 1) ints)"
  using get_options_loop_join [of vs 1 nints ints] assms by (cases ints) (auto simp: get_options_def)

theorem get_options_join_witness:
  "get_options (Some (join [5, - 3])) 4 [0, 0, 0, 7, 8] = (Some [], [2, 5, - 3, 7, 8])"
  using get_options_join [of "[5, - 3]" 4 "[0, 0, 0, 7, 8]"] by simp

text \<open>
  A size given as a decimal number with a suffix is read as that number times the unit, in
  64 bits, and the suffix is consumed; without a suffix the number itself is read.
\<close>

theorem memparse_suffix:
  assumes "(suffix, k) \<in> {(''G'', 30), (''g'', 30), (''M'', 20), (''m'', 20), (''K'', 10), (''k'', 10), ([], 0)}"
  shows "memparse (plain_digits 0 10 (ucast (w :: u32)) @ suffix) = (push_bit k (ucast w), [])"
proof -
  have u: "unat (ucast w :: u64) < 2 ^ 32" using unsigned_less [of w, where 'a = nat] by (simp only: unat_wide) simp
  have "stops suffix" using assms by (auto simp: stops_def isxdigit_iff)
  then have "simple_strtoull (plain_digits 0 10 (ucast w) @ suffix) 0 = (ucast w, suffix)"
    using strto_auto_base [OF _ u, of suffix, where 'a = 64] by (simp add: simple_strtoull_def)
  then show ?thesis using assms by (auto simp: memparse_def)
qed

theorem memparse_suffix_witness:
  "memparse (plain_digits 0 10 (ucast (64 :: u32)) @ ''M'') = (0x4000000, [])"
  using memparse_suffix [of "''M''" 20 64] by simp

end
