(* ===== verification/Proc_Files.thy ===== *)
theory Proc_Files
  imports Resource Simpad_Board Cmdline
begin

unbundle bit_operations_syntax

text \<open>
  Where the components meet the formatted text: the listing of the resource tree and the
  \<open>reserve=\<close> boot option (\<^verbatim>\<open>kernel/resource.c\<close>), and the \<^verbatim>\<open>/proc/cs3\<close> file of the
  SIMpad latch (\<^verbatim>\<open>arch/arm/mach-sa1100/simpad.c\<close>).
\<close>

section \<open>Printing into a growing page\<close>

text \<open>\<open>p += sprintf(p, fmt, ...)\<close>: the memory from \<open>buf\<close> on and the offset of \<open>p\<close>.\<close>

definition printf_at :: "u32 \<Rightarrow> mem \<times> nat \<Rightarrow> string \<Rightarrow> arg list \<Rightarrow> (mem \<times> nat) option" where
  "printf_at buf st fmt args =
     (let (m, p) = st in
      case sprintf (\<lambda>a. m (p + a)) (buf + of_nat p) fmt args of
        None \<Rightarrow> None
      | Some (n, m', _) \<Rightarrow> Some (\<lambda>a. if a < p then m a else m' (a - p), p + n))"

text \<open>The name of a resource is never null in the model.\<close>

fun do_resource_list ::
  "resource list \<Rightarrow> string \<Rightarrow> int \<Rightarrow> u32 \<Rightarrow> nat \<Rightarrow> mem \<times> nat \<Rightarrow> (mem \<times> nat) option" where
  "do_resource_list [] fmt off buf sz st = Some st"
| "do_resource_list (entry # rest) fmt off buf sz st =
     (let off = (if off < 0 then 0 else off) in
      if int sz - int (snd st) < 80 then Some st
      else case printf_at buf st (drop (nat off) fmt)
                  [Word (rstart entry), Word (rend entry), Str (Some (rname entry))] of
             None \<Rightarrow> None
           | Some st \<Rightarrow>
               (case (if rchild entry \<noteq> [] then do_resource_list (rchild entry) fmt (off - 2) buf sz st
                      else Some st) of
                  None \<Rightarrow> None
                | Some st \<Rightarrow> do_resource_list rest fmt off buf sz st))"

definition list_format :: "char \<Rightarrow> string" where
  "list_format w = replicate 8 (CHR '' '') @ [CHR ''%'', CHR ''0'', w] @ ''lx-%0'' @ [w] @ ''lx : %s'' @ [CHR 0x0A]"

definition get_resource_list :: "resource \<Rightarrow> u32 \<Rightarrow> nat \<Rightarrow> mem \<Rightarrow> (mem \<times> nat) option" where
  "get_resource_list root buf sz m =
     (let fmt = (if rend root < 0x10000 then list_format (CHR ''4'') else list_format (CHR ''8''))
      in do_resource_list (rchild root) fmt 8 buf sz (m, 0))"

section \<open>The boot option \<open>reserve=\<close>\<close>

definition MAXRESERVE :: nat where "MAXRESERVE = 4"

text \<open>The static counter, and the memory and port trees.\<close>

record reserving =
  reserved :: nat
  iomem_resource :: resource
  ioport_resource :: resource

text \<open>\<open>slot x\<close> is the address of \<open>reserve[x]\<close>.\<close>

definition reserve_one :: "(nat \<Rightarrow> nat) \<Rightarrow> u32 \<Rightarrow> u32 \<Rightarrow> reserving \<Rightarrow> reserving" where
  "reserve_one slot io_start io_num r =
     (let x = reserved r in
      if x < MAXRESERVE then
        let res = Res (slot x) ''reserved'' io_start (io_start + io_num - 1) IORESOURCE_BUSY [] in
        if 0x10000 \<le> io_start then
          let (err, t) = request_resource (iomem_resource r) res
          in if err = 0 then r\<lparr>iomem_resource := t, reserved := x + 1\<rparr> else r\<lparr>iomem_resource := t\<rparr>
        else
          let (err, t) = request_resource (ioport_resource r) res
          in if err = 0 then r\<lparr>ioport_resource := t, reserved := x + 1\<rparr> else r\<lparr>ioport_resource := t\<rparr>
      else r)"

lemma strto_loop_length: "length (snd (strto_loop base r s)) \<le> length s"
  by (induction base r s rule: strto_loop.induct) auto

lemma strto_base_length: "length (snd (strto_base base s)) \<le> length s"
  by (auto simp: strto_base_def Let_def)

lemma simple_strtoul_length: "length (snd (simple_strtoul s base)) \<le> length s"
  using strto_base_length [of base s]
    strto_loop_length [of "fst (strto_base base s)" "0 :: u32" "snd (strto_base base s)"]
  by (simp add: simple_strtoul_def case_prod_beta)

lemma simple_strtol_length: "length (snd (simple_strtol s base)) \<le> length s"
  using simple_strtoul_length [of "tl s" base] simple_strtoul_length [of s base]
  by (auto simp: simple_strtol_def case_prod_beta)

lemma get_option_length:
  assumes "get_option (Some s) = (res, s', v)"
  obtains t where "s' = Some t" "length t \<le> length s" "res = 2 \<Longrightarrow> length t < length s"
  using assms simple_strtol_length [of s 0]
  by (auto simp: get_option_def case_prod_beta split: if_splits)

function reserve_setup_loop :: "(nat \<Rightarrow> nat) \<Rightarrow> string \<Rightarrow> reserving \<Rightarrow> reserving" where
  "reserve_setup_loop slot s r =
     (case get_option (Some s) of
        (res, Some s1, Some io_start) \<Rightarrow>
          if res \<noteq> 2 then r
          else (case get_option (Some s1) of
                  (res, Some s2, Some io_num) \<Rightarrow>
                    if res = 0 then r else reserve_setup_loop slot s2 (reserve_one slot io_start io_num r)
                | _ \<Rightarrow> r)
      | _ \<Rightarrow> r)"
  by pat_completeness auto
termination
  by (relation "measure (\<lambda>(slot, s, r). length s)")
     (auto dest!: sym [of _ "get_option _"] elim!: get_option_length)

declare reserve_setup_loop.simps [simp del]

definition reserve_setup :: "(nat \<Rightarrow> nat) \<Rightarrow> string \<Rightarrow> reserving \<Rightarrow> reserving" where
  "reserve_setup slot s r = reserve_setup_loop slot s r"

section \<open>The file \<open>/proc/cs3\<close>\<close>

definition cs3_names :: "string list" where
  "cs3_names = [''VCC_5V_EN'', ''VCC_3V_EN'', ''EN1'', ''EN0'', ''DISPLAY_ON'', ''PCMCIA_BUFF_DIS'',
     ''MQ_RESET'', ''PCMCIA_RESET'', ''DECT_POWER_ON'', ''IRDA_SD'', ''RS232_ON'', ''SD_MEDIAQ'',
     ''LED2_ON'', ''IRDA_MODE'', ''ENABLE_5V'', ''RESET_SIMCARD'']"

text \<open>The lines for the bits from \<open>i\<close> on.\<close>

function cs3_lines :: "nat \<Rightarrow> u32 \<Rightarrow> u32 \<Rightarrow> mem \<times> nat \<Rightarrow> (mem \<times> nat) option" where
  "cs3_lines i shadow page st =
     (if i \<le> 15 then
        (case (if shadow AND push_bit i 1 \<noteq> 0
               then printf_at page st (''%s'' @ [CHR 0x09] @ '': TRUE '' @ [CHR 0x0A]) [Str (Some (cs3_names ! i))]
               else printf_at page st (''%s'' @ [CHR 0x09] @ '': FALSE '' @ [CHR 0x0A]) [Str (Some (cs3_names ! i))]) of
           None \<Rightarrow> None
         | Some st \<Rightarrow> cs3_lines (i + 1) shadow page st)
      else Some st)"
  by pat_completeness auto
termination by (relation "measure (\<lambda>(i, s, p, st). 16 - i)") auto

declare cs3_lines.simps [simp del]

text \<open>The returned length, the end-of-file flag, the offset of \<open>*start\<close> and the page.\<close>

definition proc_cs3_read :: "u32 \<Rightarrow> int \<Rightarrow> int \<Rightarrow> board \<Rightarrow> mem \<Rightarrow> (int \<times> bool \<times> int \<times> mem) option" where
  "proc_cs3_read page off count b m =
     (case printf_at page (m, 0) (''Chipselect3 : %x'' @ [CHR 0x0A]) [Word (cs3_shadow b)] of
        None \<Rightarrow> None
      | Some st \<Rightarrow>
          (case cs3_lines 0 (cs3_shadow b) page st of
             None \<Rightarrow> None
           | Some (m, p) \<Rightarrow>
               let len = int p - off; len = (if len < 0 then 0 else len)
               in Some (len, len \<le> count, off, m)))"

definition proc_cs3_write :: "string \<Rightarrow> nat \<Rightarrow> board \<Rightarrow> int \<times> board" where
  "proc_cs3_write buffer count b =
     (let (newRegValue, endp) = simple_strtoul buffer 0
      in (int count + int (length buffer - length endp), set_cs3 newRegValue b))"

section \<open>Texts of the formats\<close>

lemma vsn_loop_literal:
  "CHR ''%'' \<notin> set t \<Longrightarrow> vsn_loop b (t @ fmt) args = vsn_loop (puts t b) fmt args"
  by (induction t arbitrary: b) auto

lemma directive_str:
  "directive b (CHR ''s'' # fmt) (Str (Some n) # args) = Some (puts n b, fmt, args)"
proof -
  have "put_string b 0 (-1) (-1) (Some n) = puts n b"
    by (simp add: put_string_def put_loops shown_length_def puts_def)
  then show ?thesis
    by (simp add: directive_def get_width_def get_precision_def get_qualifier_def convert_def isdigit_iff)
qed

lemma directive_hex:
  assumes "(c, w :: int) \<in> {(CHR ''4'', 4), (CHR ''8'', 8)}"
  shows "directive b (CHR ''0'' # c # CHR ''l'' # CHR ''x'' # fmt) (Word v # args) =
    Some (puts (number_text (ucast v) 16 w (-1) ZEROPAD) b, fmt, args)"
proof -
  have "ZEROPAD AND SIGN = 0" by (simp add: flag_defs)
  then have g: "get_num (Some (CHR ''l'')) ZEROPAD (Word v # args) = Some (ucast v, args)"
    by (simp add: get_num_def)
  have c: "isdigit c" "skip_atoi 0 (c # CHR ''l'' # s) = (w, CHR ''l'' # s)"
      "parse_flags 0 (CHR ''0'' # c # s) = (ZEROPAD, c # s)" for s
    using assms by (auto simp: isdigit_iff)
  have x: "directive b (CHR ''0'' # c # CHR ''l'' # CHR ''x'' # fmt) (Word v # args) =
      convert b ZEROPAD w (-1) (Some (CHR ''l'')) (CHR ''x'' # fmt) (Word v # args)"
    by (simp add: directive_def get_width_def get_precision_def get_qualifier_def c
        del: skip_atoi.simps parse_flags.simps)
  show ?thesis by (simp add: x convert_def g number_puts)
qed

lemma directive_x:
  "directive b (CHR ''x'' # fmt) (Word v # args) = Some (puts (plain_digits 0 16 (ucast v)) b, fmt, args)"
  by (simp add: directive_def get_width_def get_precision_def get_qualifier_def convert_def
      get_num_def isdigit_iff number_puts number_text_plain)

lemma digit_loop_length:
  "unat num < 16 ^ k \<Longrightarrow> unat num < 2 ^ 32 \<Longrightarrow> length (digit_loop digits 16 num) \<le> k"
proof (induction k arbitrary: num)
  case 0
  then show ?case by (simp add: digit_loop.simps unat_eq_zero)
next
  case (Suc k)
  define num' where "num' = snd (do_div num 16)"
  have n: "unat num' = unat num div 16" using Suc.prems(2) by (simp add: num'_def unat_do_div)
  then have "unat num' < 16 ^ k" "unat num' < 2 ^ 32"
    using Suc.prems by (auto simp: less_mult_imp_div_less mult.commute intro: le_less_trans [OF div_le_dividend])
  then have "length (digit_loop digits 16 num') \<le> k" by (rule Suc.IH)
  then show ?case by (simp add: digit_loop.simps [of digits 16 num] num'_def case_prod_beta)
qed

lemma hex_tmp_length: "length (if (ucast (v :: u32) :: u64) = 0 then ''0'' else digit_loop digits 16 (ucast (v :: u32))) \<le> 8"
proof -
  have "unat (ucast v :: u64) < 2 ^ 32" using unsigned_less [of v, where 'a = nat] by (simp only: unat_wide) simp
  then show ?thesis using digit_loop_length [of "ucast v" 8 digits] by simp
qed

lemma hex_length:
  assumes "w \<le> 8"
  shows "length (number_text (ucast (v :: u32)) 16 w (-1) ZEROPAD) \<le> 8"
proof -
  define tmp where "tmp = (if (ucast v :: u64) = 0 then ''0'' else digit_loop small_digits 16 (ucast v))"
  have "length tmp \<le> 8" unfolding tmp_def by (rule hex_tmp_length)
  moreover have "number_text (ucast v) 16 w (-1) ZEROPAD =
      replicate (nat (w - max (-1) (int (length tmp)))) (CHR ''0'') @ rev tmp"
    by (simp add: number_text_def number_sign_def out_text_def flag_defs tmp_def Let_def)
  ultimately show ?thesis using assms by simp
qed

lemma plain_hex_length: "length (plain_digits 0 16 (ucast (v :: u32))) \<le> 8"
  using hex_tmp_length [of v small_digits] by (auto simp: plain_digits_def flag_defs split: if_splits)

text \<open>Text written at a place in a page.\<close>

definition write_text :: "mem \<Rightarrow> nat \<Rightarrow> string \<Rightarrow> mem" where
  "write_text m p t = (\<lambda>a. if p \<le> a \<and> a < p + length t then t ! (a - p)
     else if a = p + length t then NUL else m a)"

lemma out_size_max:
  assumes "2 \<le> unat buf"
  shows "unat (out_size buf 0xffffffff) = 2 ^ 32 - unat buf"
proof -
  have lt: "unat buf < 2 ^ 32" using unsigned_less [of buf, where 'a = nat] by simp
  have e: "buf + 0xffffffff - 1 = buf - 2" by simp
  have "unat (buf - 2) = unat buf - 2" "unat (buf - 1) = unat buf - 1"
    using assms by (subst unat_sub; simp add: word_le_nat_alt)+
  then have "buf - 2 < buf - 1" using assms by (simp only: word_less_nat_alt)
  then have "out_size buf 0xffffffff = (0xffffffff :: u32) - buf + 1"
    unfolding out_size_def e Let_def by simp
  moreover have s: "unat ((0xffffffff :: u32) - buf) = 2 ^ 32 - 1 - unat buf"
    using lt by (subst unat_sub) (simp_all add: word_le_nat_alt)
  moreover have "unat ((0xffffffff :: u32) - buf + 1) = unat ((0xffffffff :: u32) - buf) + 1"
    using assms lt s by (subst unat_add_lem [THEN iffD1]) simp_all
  ultimately show ?thesis using assms lt by simp
qed

lemma printf_at_text:
  assumes "\<And>b. vsn_loop b fmt args = Some (puts t b, r)"
    and "2 \<le> unat buf" "unat buf + p + length t < 2 ^ 32"
  shows "printf_at buf (m, p) fmt args = Some (write_text m p t, p + length t)"
proof -
  have u: "unat (buf + of_nat p) = unat buf + p"
    using assms(3) by (subst unat_word_ariths) (simp add: unat_of_nat)
  define n where "n = unat (out_size (buf + of_nat p) 0xffffffff)"
  have n: "length t < n" using out_size_max [of "buf + of_nat p"] assms(2,3) by (simp add: n_def u)
  have "vsn_loop b fmt args = Some (emit t [] b, r)" for b by (simp add: assms(1) emit_puts)
  then have "sprintf (\<lambda>a. m (p + a)) (buf + of_nat p) fmt args =
      Some (length t, bounded t n (\<lambda>a. m (p + a)), [])"
    unfolding sprintf_def vsprintf_def n_def by (rule vsnprintf_emit)
  moreover have "(\<lambda>a. if a < p then m a else bounded t n (\<lambda>a. m (p + a)) (a - p)) = write_text m p t"
    using n by (intro ext) (auto simp: bounded_def write_text_def)
  ultimately show ?thesis by (simp add: printf_at_def)
qed

section \<open>The listing stays in its page\<close>

definition line_text :: "int \<Rightarrow> nat \<Rightarrow> u32 \<Rightarrow> u32 \<Rightarrow> string \<Rightarrow> string" where
  "line_text w k s e n = replicate (8 - k) (CHR '' '') @ number_text (ucast s) 16 w (-1) ZEROPAD @ ''-'' @
     number_text (ucast e) 16 w (-1) ZEROPAD @ '' : '' @ n @ [CHR 0x0A]"

lemma list_line:
  assumes "(c, w :: int) \<in> {(CHR ''4'', 4), (CHR ''8'', 8)}" "k \<le> 8"
  shows "vsn_loop b (drop k (list_format c)) [Word s, Word e, Str (Some n)] = Some (puts (line_text w k s e n) b, [])"
proof -
  have "drop k (list_format c) = replicate (8 - k) (CHR '' '') @ CHR ''%'' # CHR ''0'' # c # CHR ''l'' # CHR ''x'' #
      CHR ''-'' # CHR ''%'' # CHR ''0'' # c # CHR ''l'' # CHR ''x'' # CHR '' '' # CHR '':'' # CHR '' '' #
      CHR ''%'' # CHR ''s'' # [CHR 0x0A]"
    using assms(2) by (simp add: list_format_def)
  then show ?thesis
    using directive_hex [OF assms(1)]
    by (simp add: vsn_loop_literal directive_str line_text_def put_puts puts_puts del: puts_simps)
qed

lemma line_text_length:
  assumes "w \<le> 8" "length n \<le> 50"
  shows "length (line_text w k s e n) \<le> 79"
  using hex_length [OF assms(1), of s] hex_length [OF assms(1), of e] assms(2) by (simp add: line_text_def)

fun names_short :: "resource \<Rightarrow> bool" where
  "names_short (Res i n s e f cs) \<longleftrightarrow> length n \<le> 50 \<and> (\<forall>c \<in> set cs. names_short c)"

lemma names_short_iff: "names_short r \<longleftrightarrow> length (rname r) \<le> 50 \<and> (\<forall>c \<in> set (rchild r). names_short c)"
  by (cases r) simp

definition stays_below :: "nat \<Rightarrow> mem \<times> nat \<Rightarrow> mem \<times> nat \<Rightarrow> bool" where
  "stays_below sz st st' \<longleftrightarrow> snd st \<le> snd st' \<and> snd st' \<le> sz \<and> (\<forall>a. a < snd st \<or> sz \<le> a \<longrightarrow> fst st' a = fst st a)"

lemma stays_below_refl: "snd st \<le> sz \<Longrightarrow> stays_below sz st st"
  by (simp add: stays_below_def)

lemma stays_below_trans: "stays_below sz st st1 \<Longrightarrow> stays_below sz st1 st2 \<Longrightarrow> stays_below sz st st2"
  by (auto simp: stays_below_def)

lemma printf_at_stays:
  assumes "\<And>b. vsn_loop b fmt args = Some (puts t b, r)" "snd st + length t < sz"
    and "2 \<le> unat buf" "unat buf + sz < 2 ^ 32"
  obtains st' where "printf_at buf st fmt args = Some st'" "stays_below sz st st'" "snd st' = snd st + length t"
proof
  show "printf_at buf st fmt args = Some (write_text (fst st) (snd st) t, snd st + length t)"
    using printf_at_text [OF assms(1,3), of "snd st" "fst st"] assms(2,4) by simp
  show "stays_below sz st (write_text (fst st) (snd st) t, snd st + length t)"
    using assms(2) by (auto simp: stays_below_def write_text_def)
qed simp

lemma do_resource_list_bounded:
  assumes "(c, w :: int) \<in> {(CHR ''4'', 4), (CHR ''8'', 8)}" "2 \<le> unat buf" "unat buf + sz < 2 ^ 32"
    and "\<forall>e \<in> set es. names_short e" "off \<le> 8" "snd st \<le> sz"
  shows "\<exists>st'. do_resource_list es (list_format c) off buf sz st = Some st' \<and> stays_below sz st st'"
  using assms(2-6)
proof (induction es "list_format c" off buf sz st rule: do_resource_list.induct)
  case (1 off buf sz st)
  then show ?case by (auto intro: stays_below_refl)
next
  case (2 entry rest off buf sz st)
  define off' where "off' = (if off < 0 then 0 else off)"
  have off': "nat off' \<le> 8" "off' - 2 \<le> 8" "off' \<le> 8" using "2.prems"(4) by (auto simp: off'_def)
  have w: "w \<le> 8" using assms(1) by auto
  have short: "length (rname entry) \<le> 50" "\<forall>e \<in> set (rchild entry). names_short e"
    using "2.prems"(3) names_short_iff [of entry] by auto
  show ?case
  proof (cases "int sz - int (snd st) < 80")
    case True
    then show ?thesis using "2.prems"(5) by (auto intro: stays_below_refl)
  next
    case False
    have "snd st + length (line_text w (nat off') (rstart entry) (rend entry) (rname entry)) < sz"
      using False line_text_length [OF w short(1), of "nat off'" "rstart entry" "rend entry"] by linarith
    then obtain st1 where st1: "printf_at buf st (drop (nat off') (list_format c))
        [Word (rstart entry), Word (rend entry), Str (Some (rname entry))] = Some st1" "stays_below sz st st1"
      using printf_at_stays [OF list_line [OF assms(1) off'(1)] _ "2.prems"(1,2)] by blast
    have le1: "snd st1 \<le> sz" using st1(2) by (simp add: stays_below_def)
    obtain st2 where st2: "(if rchild entry \<noteq> [] then do_resource_list (rchild entry) (list_format c) (off' - 2) buf sz st1
        else Some st1) = Some st2" "stays_below sz st1 st2"
    proof (cases "rchild entry = []")
      case True
      then show ?thesis using that stays_below_refl [OF le1] by auto
    next
      case c: False
      then have "\<exists>st'. do_resource_list (rchild entry) (list_format c) (off' - 2) buf sz st1 = Some st' \<and> stays_below sz st1 st'"
        using "2.hyps"(1) [OF off'_def False st1(1)] "2.prems"(1,2) short(2) off'(2) le1 by blast
      then show ?thesis using that c by auto
    qed
    have le2: "snd st2 \<le> sz" using st2(2) by (simp add: stays_below_def)
    obtain st3 where st3: "do_resource_list rest (list_format c) off' buf sz st2 = Some st3" "stays_below sz st2 st3"
      using "2.hyps"(2) [OF off'_def False st1(1) st2(1)] "2.prems" off'(3) le2 by auto
    have "stays_below sz st st3"
      by (rule stays_below_trans [OF st1(2) stays_below_trans [OF st2(2) st3(2)]])
    then show ?thesis using False st1(1) st2(1) st3(1) by (simp add: off'_def [symmetric] Let_def)
  qed
qed

section \<open>Reserved ranges\<close>

lemma link_in_length: "link_in new cs = Inl cs' \<Longrightarrow> length cs' = length cs + 1"
  by (induction new cs arbitrary: cs' rule: link_in.induct) (auto split: if_splits sum.splits)

lemma request_resource_step:
  assumes "request_resource root new = (err, root')" "tree_ok root" "rchild new = []"
  shows "tree_ok root' \<and> length (rchild root') = length (rchild root) + (if err = 0 then 1 else 0)"
proof (cases "do_request_resource root new")
  case (Linked t)
  then have "rstart new \<le> rend new" "length (rchild t) = length (rchild root) + 1"
    by (auto simp: do_request_resource_def not_less split: if_splits sum.splits dest: link_in_length)
  moreover from this have "tree_ok new" using assms(3) tree_ok_iff [of new] by simp
  ultimately show ?thesis
    using assms(1,2) Linked do_request_resource_ok [OF Linked] by (auto simp: request_resource_def)
qed (use assms in \<open>auto simp: request_resource_def EBUSY_def\<close>)

definition reserving_ok :: "nat \<Rightarrow> nat \<Rightarrow> reserving \<Rightarrow> bool" where
  "reserving_ok i k r \<longleftrightarrow> reserved r \<le> MAXRESERVE \<and> tree_ok (iomem_resource r) \<and> tree_ok (ioport_resource r) \<and>
     length (rchild (iomem_resource r)) + length (rchild (ioport_resource r)) + i = k + reserved r"

lemma reserve_one_ok: "reserving_ok i k r \<Longrightarrow> reserving_ok i k (reserve_one slot io_start io_num r)"
proof -
  assume ok: "reserving_ok i k r"
  define res where "res = Res (slot (reserved r)) ''reserved'' io_start (io_start + io_num - 1) IORESOURCE_BUSY []"
  have leaf: "rchild res = []" by (simp add: res_def)
  obtain em tm ep tp where req: "request_resource (iomem_resource r) res = (em, tm)"
      "request_resource (ioport_resource r) res = (ep, tp)" by fastforce
  have "tree_ok (iomem_resource r)" "tree_ok (ioport_resource r)" using ok by (simp_all add: reserving_ok_def)
  then show ?thesis
    using ok request_resource_step [OF req(1) _ leaf] request_resource_step [OF req(2) _ leaf] req
    by (auto simp: reserve_one_def Let_def res_def [symmetric] reserving_ok_def split: if_splits)
qed

lemma reserve_setup_loop_cases:
  obtains "reserve_setup_loop slot s r = r"
  | s2 io_start io_num where "length s2 < length s"
      "reserve_setup_loop slot s r = reserve_setup_loop slot s2 (reserve_one slot io_start io_num r)"
proof (cases "\<exists>s1 io_start res s2 io_num. get_option (Some s) = (2, Some s1, Some io_start) \<and>
    get_option (Some s1) = (res, Some s2, Some io_num) \<and> res \<noteq> 0")
  case True
  then obtain s1 io_start res s2 io_num where g: "get_option (Some s) = (2, Some s1, Some io_start)"
      "get_option (Some s1) = (res, Some s2, Some io_num)" "res \<noteq> 0" by blast
  have "length s1 < length s" by (rule get_option_length [OF g(1)]) auto
  moreover have "length s2 \<le> length s1" by (rule get_option_length [OF g(2)]) auto
  ultimately have "length s2 < length s" by simp
  moreover have "reserve_setup_loop slot s r = reserve_setup_loop slot s2 (reserve_one slot io_start io_num r)"
    using g by (subst reserve_setup_loop.simps) simp
  ultimately show ?thesis by (rule that(2))
next
  case False
  then have "reserve_setup_loop slot s r = r"
    by (subst reserve_setup_loop.simps) (auto split: prod.splits option.splits)
  then show ?thesis by (rule that(1))
qed

lemma reserve_setup_loop_ok: "reserving_ok i k r \<Longrightarrow> reserving_ok i k (reserve_setup_loop slot s r)"
proof (induction "length s" arbitrary: s r rule: less_induct)
  case less
  show ?case by (rule reserve_setup_loop_cases [of slot s r]) (use less reserve_one_ok in auto)
qed

section \<open>The lines of \<open>/proc/cs3\<close>\<close>

lemma cs3_name_length: "i \<le> 15 \<Longrightarrow> length (cs3_names ! i) \<le> 15"
proof -
  have "list_all (\<lambda>i. length (cs3_names ! i) \<le> 15) [0..<16]" by code_simp
  then show "i \<le> 15 \<Longrightarrow> length (cs3_names ! i) \<le> 15" by (auto simp: list_all_iff)
qed

lemma cs3_line:
  assumes "snd st + 25 < sz" "2 \<le> unat page" "unat page + sz < 2 ^ 32" "length n \<le> 15"
    and "CHR ''%'' \<notin> set t" "length t \<le> 10"
  obtains st' where "printf_at page st (''%s'' @ t) [Str (Some n)] = Some st'" "stays_below sz st st'"
    "snd st' \<le> snd st + 25"
proof -
  have v: "vsn_loop b (''%s'' @ t) [Str (Some n)] = Some (puts (n @ t) b, [])" for b
    using vsn_loop_literal [OF assms(5), of "puts n b" "[]" "[]"] by (simp add: directive_str puts_puts)
  have l: "snd st + length (n @ t) < sz" using assms(1,4,6) by simp
  obtain st' where "printf_at page st (''%s'' @ t) [Str (Some n)] = Some st'" "stays_below sz st st'"
      "snd st' = snd st + length (n @ t)"
    using printf_at_stays [OF v l assms(2,3)] by blast
  then show ?thesis using that [of st'] assms(4,6) by simp
qed

lemma cs3_lines_bounded:
  assumes "2 \<le> unat page" "unat page + sz < 2 ^ 32" "snd st + 25 * (16 - i) < sz"
  shows "\<exists>st'. cs3_lines i shadow page st = Some st' \<and> stays_below sz st st' \<and> snd st' \<le> snd st + 25 * (16 - i)"
  using assms
proof (induction i shadow page st rule: cs3_lines.induct)
  case (1 i shadow page st)
  show ?case
  proof (cases "i \<le> 15")
    case False
    then show ?thesis using "1.prems"(3) by (subst cs3_lines.simps) (auto intro: stays_below_refl)
  next
    case True
    define t where "t = (if shadow AND push_bit i 1 \<noteq> 0 then [CHR 0x09] @ '': TRUE '' @ [CHR 0x0A]
      else [CHR 0x09] @ '': FALSE '' @ [CHR 0x0A])"
    define line where "line = (if shadow AND push_bit i 1 \<noteq> 0
        then printf_at page st (''%s'' @ [CHR 0x09] @ '': TRUE '' @ [CHR 0x0A]) [Str (Some (cs3_names ! i))]
        else printf_at page st (''%s'' @ [CHR 0x09] @ '': FALSE '' @ [CHR 0x0A]) [Str (Some (cs3_names ! i))])"
    have line: "line = printf_at page st (''%s'' @ t) [Str (Some (cs3_names ! i))]" by (simp add: line_def t_def)
    have "snd st + 25 < sz" using "1.prems"(3) True by linarith
    then obtain st1 where st1: "line = Some st1" "stays_below sz st st1" "snd st1 \<le> snd st + 25"
      unfolding line by (rule cs3_line [OF _ "1.prems"(1,2) cs3_name_length [OF True], of st t]) (auto simp: t_def)
    have room: "snd st1 + 25 * (16 - (i + 1)) < sz" using st1(3) "1.prems"(3) True by linarith
    obtain st2 where st2: "cs3_lines (i + 1) shadow page st1 = Some st2" "stays_below sz st1 st2"
        "snd st2 \<le> snd st1 + 25 * (16 - (i + 1))"
      using "1.IH" [OF True st1(1) [unfolded line_def] "1.prems"(1,2) room] by blast
    have "snd st2 \<le> snd st + 25 * (16 - i)" using st2(3) st1(3) True by linarith
    moreover have "cs3_lines i shadow page st = Some st2"
      by (simp only: cs3_lines.simps [of i] line_def [symmetric] True if_True st1(1) option.case st2(1))
    ultimately show ?thesis using stays_below_trans [OF st1(2) st2(2)] by blast
  qed
qed

section \<open>Properties\<close>

text \<open>
  C30: when no resource name is longer than 50 characters, the listing of a resource tree of any
  size and depth ends, returns a length within the page it was given and writes nothing outside
  it, although each line is printed with the unbounded \<open>sprintf\<close>.
\<close>

theorem get_resource_list_bounded:
  assumes "\<forall>e \<in> set (rchild root). names_short e" "2 \<le> unat buf" "unat buf + sz < 2 ^ 32"
  shows "\<exists>m' n. get_resource_list root buf sz m = Some (m', n) \<and> n \<le> sz \<and> (\<forall>a \<ge> sz. m' a = m a)"
proof -
  obtain c :: char and w :: int where c: "(c, w) \<in> {(CHR ''4'', 4), (CHR ''8'', 8)}"
      "(if rend root < 0x10000 then list_format (CHR ''4'') else list_format (CHR ''8'')) = list_format c"
    by (cases "rend root < 0x10000") auto
  show ?thesis
    using do_resource_list_bounded [OF c(1) assms(2,3,1), of 8 "(m, 0)"]
    unfolding get_resource_list_def Let_def c(2) stays_below_def by auto
qed

theorem get_resource_list_bounded_witness:
  "list_all names_short (rchild io_example) \<and>
   (\<exists>m' n. get_resource_list io_example 0xc0100000 4096 (\<lambda>_. NUL) = Some (m', n) \<and> n \<le> 4096 \<and>
      m' 4096 = NUL)"
proof -
  have short: "\<forall>e \<in> set (rchild io_example). names_short e" by (simp add: io_example_def)
  have "unat (0xc0100000 :: u32) + 4096 < 2 ^ 32" "2 \<le> unat (0xc0100000 :: u32)" by simp_all
  then obtain m' n where "get_resource_list io_example 0xc0100000 4096 (\<lambda>_. NUL) = Some (m', n)" "n \<le> 4096"
      "\<forall>a \<ge> 4096. m' a = NUL"
    using get_resource_list_bounded [OF short] by blast
  then show ?thesis using short by (auto simp: list_all_iff)
qed

text \<open>
  C31: the boot option \<open>reserve=\<close>, whatever its text: at most four ranges are reserved, both
  trees stay well formed, and they have grown by exactly the ranges that were counted.
\<close>

theorem reserve_setup_ok:
  assumes "reserved r \<le> 4" "tree_ok (iomem_resource r)" "tree_ok (ioport_resource r)"
  shows "let r' = reserve_setup slot s r in
    reserved r' \<le> 4 \<and> tree_ok (iomem_resource r') \<and> tree_ok (ioport_resource r') \<and>
    length (rchild (iomem_resource r')) + length (rchild (ioport_resource r')) + reserved r =
    length (rchild (iomem_resource r)) + length (rchild (ioport_resource r)) + reserved r'"
  using reserve_setup_loop_ok [of "reserved r" "length (rchild (iomem_resource r)) + length (rchild (ioport_resource r))" r slot s]
    assms by (simp add: reserving_ok_def reserve_setup_def MAXRESERVE_def Let_def)

definition boot_trees :: reserving where
  "boot_trees = \<lparr>reserved = 0, iomem_resource = Res 0 ''PCI mem'' 0 0xffffffff 0 [],
     ioport_resource = Res 1 ''PCI IO'' 0 0xffff 0 []\<rparr>"

theorem reserve_setup_ok_witness:
  "let r' = reserve_setup (\<lambda>x. 10 + x) ''0x300,32,0x310,16,0x20000,4096'' boot_trees in
   reserved r' = 2 \<and> tree_ok (iomem_resource r') \<and> tree_ok (ioport_resource r') \<and>
   length (rchild (iomem_resource r')) + length (rchild (ioport_resource r')) = 2"
proof -
  define r' where "r' = reserve_setup (\<lambda>x. 10 + x) ''0x300,32,0x310,16,0x20000,4096'' boot_trees"
  have "reserved r' = 2" unfolding r'_def by code_simp
  then show ?thesis
    using reserve_setup_ok [of boot_trees "\<lambda>x. 10 + x" "''0x300,32,0x310,16,0x20000,4096''"]
    by (simp add: Let_def r'_def [symmetric]) (simp add: boot_trees_def)
qed



text \<open>
  C38: a write to \<open>/proc/cs3\<close> bypasses the drivers: the digit \<open>3\<close> switches on both supply rails
  of the PCMCIA slot, which no driver operation ever does, and the handler claims to have
  consumed more than it was given.
\<close>

theorem proc_cs3_write_unchecked:
  "both_rails (cs3_latch (snd (proc_cs3_write ''3'' n b))) \<and> fst (proc_cs3_write ''3'' n b) = int n + 1"
proof -
  have "simple_strtoul ''3'' 0 = (3, [])"
    by (simp add: simple_strtoul_def strto_base_def isxdigit_iff digit_value_def isdigit_iff)
  then show ?thesis
    by (simp add: proc_cs3_write_def set_cs3_def cs3_latch_def both_rails_def cs3_bits)
qed

end
