(* ===== verification/Codec.thy ===== *)
theory Codec
  imports Prelude "HOL-Library.Monad_Syntax"
begin

text \<open>
  Byte buffers with checked accesses, and the contract of the JFFS2 compressors.  A buffer is a
  list of bytes; a read or a write outside it is \<open>None\<close>.  Every compressor of
  \<^verbatim>\<open>fs/jffs2\<close> has the same interface, which the locale \<open>codec\<close> states once:
  \<^verbatim>\<open>int X_compress(data_in, cpage_out, *sourcelen, *dstlen)\<close> and
  \<^verbatim>\<open>void X_decompress(data_in, cpage_out, srclen, destlen)\<close>.
\<close>

section \<open>Buffers\<close>

type_synonym buffer = "u8 list"

definition load :: "buffer \<Rightarrow> nat \<Rightarrow> u8 option" where
  "load b i = (if i < length b then Some (b ! i) else None)"

definition store :: "buffer \<Rightarrow> nat \<Rightarrow> u8 \<Rightarrow> buffer option" where
  "store b i v = (if i < length b then Some (b[i := v]) else None)"

text \<open>
  \<^verbatim>\<open>memcpy\<close> inside one buffer; on overlapping ranges its effect is undefined.
\<close>

definition buf_memcpy :: "buffer \<Rightarrow> nat \<Rightarrow> nat \<Rightarrow> nat \<Rightarrow> buffer option" where
  "buf_memcpy b dst src n =
     (if dst + n \<le> length b \<and> src + n \<le> length b \<and> (src + n \<le> dst \<or> dst + n \<le> src)
      then Some (take dst b @ take n (drop src b) @ drop (dst + n) b) else None)"

lemma load_Some [simp]: "i < length b \<Longrightarrow> load b i = Some (b ! i)"
  by (simp add: load_def)

lemma store_Some [simp]: "i < length b \<Longrightarrow> store b i v = Some (b[i := v])"
  by (simp add: store_def)

lemma store_length: "store b i v = Some b' \<Longrightarrow> length b' = length b"
  by (auto simp: store_def split: if_splits)

section \<open>Filling a buffer from the front\<close>

text \<open>The buffer \<open>out\<close> once its first \<open>p\<close> bytes are those of \<open>data\<close>.\<close>

definition filled :: "buffer \<Rightarrow> nat \<Rightarrow> buffer \<Rightarrow> buffer" where
  "filled data p out = take p data @ drop p out"

lemma filled_0 [simp]: "filled data 0 out = out"
  by (simp add: filled_def)

lemma length_filled [simp]:
  "p \<le> length data \<Longrightarrow> p \<le> length out \<Longrightarrow> length (filled data p out) = length out"
  by (simp add: filled_def)

lemma nth_filled:
  assumes "p \<le> length data" "p \<le> length out"
  shows "filled data p out ! i = (if i < p then data ! i else out ! i)"
  using assms by (auto simp: filled_def nth_append)

lemma filled_update:
  assumes "p < length data" "p < length out"
  shows "(filled data p out)[p := data ! p] = filled data (Suc p) out"
  using assms
  by (intro nth_equalityI) (auto simp: nth_filled nth_list_update less_Suc_eq)

lemma take_filled: "n \<le> length data \<Longrightarrow> n \<le> length out \<Longrightarrow> take n (filled data n out) = take n data"
  by (simp add: filled_def)

section \<open>The contract of a compressor\<close>

text \<open>
  What a call on \<open>n\<close> bytes of data with room for \<open>m\<close> bytes leaves: a return code, the output
  buffer, the number of bytes compressed and the number of bytes they take.  On success the bytes
  taken are fewer than the bytes compressed, and expanding them gives the compressed bytes back in
  any buffer that has room for them, touching nothing behind them.  On failure the lengths are as
  they were.
\<close>

type_synonym compressor = "buffer \<Rightarrow> buffer \<Rightarrow> u32 \<Rightarrow> u32 \<Rightarrow> (int \<times> buffer \<times> u32 \<times> u32) option"
type_synonym expander = "buffer \<Rightarrow> buffer \<Rightarrow> u32 \<Rightarrow> u32 \<Rightarrow> buffer option"

definition expands :: "expander \<Rightarrow> buffer \<Rightarrow> buffer \<Rightarrow> u32 \<Rightarrow> u32 \<Rightarrow> bool" where
  "expands decompress data c n m \<longleftrightarrow>
     (\<forall>out. unat n \<le> length out \<longrightarrow>
        decompress (take (unat m) c) out m n = Some (filled data (unat n) out))"

definition codec_result ::
  "expander \<Rightarrow> buffer \<Rightarrow> nat \<Rightarrow> u32 \<Rightarrow> u32 \<Rightarrow> int \<times> buffer \<times> u32 \<times> u32 \<Rightarrow> bool" where
  "codec_result decompress data len n m = (\<lambda>(ret, c, n', m').
     length c = len \<and>
     (if ret = 0 then m' < n' \<and> n' \<le> n \<and> m' \<le> m \<and> expands decompress data c n' m'
      else n' = n \<and> m' = m))"

definition codec_args :: "buffer \<Rightarrow> buffer \<Rightarrow> u32 \<Rightarrow> u32 \<Rightarrow> bool" where
  "codec_args data cpage n m \<longleftrightarrow> unat n \<le> length data \<and> unat m \<le> length cpage \<and>
     unat n < 2 ^ 28 \<and> unat m < 2 ^ 28"

locale codec =
  fixes compress :: compressor and decompress :: expander and room :: "u32 \<Rightarrow> u32 \<Rightarrow> bool"
  assumes contract: "codec_args data cpage n m \<Longrightarrow> room n m \<Longrightarrow>
    \<exists>r. compress data cpage n m = Some r \<and> codec_result decompress data (length cpage) n m r"
begin

text \<open>The call never leaves its buffers, and what it reports as compressed is not lost.\<close>

lemma success:
  assumes "codec_args data cpage n m" "room n m" "compress data cpage n m = Some (0, c, n', m')"
  shows "m' < n'" "n' \<le> n" "m' \<le> m" "length c = length cpage" "expands decompress data c n' m'"
  using contract [OF assms(1,2)] assms(3) by (auto simp: codec_result_def)

lemma failure:
  assumes "codec_args data cpage n m" "room n m" "compress data cpage n m = Some (ret, c, n', m')" "ret \<noteq> 0"
  shows "n' = n" "m' = m" "length c = length cpage"
  using contract [OF assms(1,2)] assms(3,4) by (auto simp: codec_result_def)

lemma returns:
  assumes "codec_args data cpage n m" "room n m"
  obtains ret c n' m' where "compress data cpage n m = Some (ret, c, n', m')"
  using contract [OF assms] by auto

end

end
