(* ===== verification/Jffs2_Rtime.thy ===== *)
theory Jffs2_Rtime
  imports Codec
begin

text \<open>
  The \<open>rtime\<close> compressor, \<^verbatim>\<open>fs/jffs2/compr_rtime.c\<close>: each byte is sent with the length of
  the run that follows its last occurrence.  The table \<open>positions\<close> is a function of the byte;
  the \<^verbatim>\<open>int\<close> positions are natural numbers, which they are as long as the lengths stay below
  \<open>2 ^ 31\<close>; the loop bound \<^verbatim>\<open>(*dstlen)-2\<close> is the unsigned subtraction of the code.
\<close>

section \<open>Compression\<close>

function rtime_run :: "buffer \<Rightarrow> nat \<Rightarrow> nat \<Rightarrow> nat \<Rightarrow> nat \<Rightarrow> (nat \<times> nat) option" where
  "rtime_run data_in sourcelen backpos pos runlen =
     (if backpos < pos \<and> pos < sourcelen then do {
        a \<leftarrow> load data_in pos;
        b \<leftarrow> load data_in backpos;
        if a = b \<and> runlen < 255 then rtime_run data_in sourcelen (Suc backpos) (Suc pos) (Suc runlen)
        else Some (pos, runlen)
      } else Some (pos, runlen))"
  by pat_completeness auto
termination by (relation "measure (\<lambda>(d, s, b, p, r). s - p)") auto

declare rtime_run.simps [simp del]

lemma rtime_run_result:
  assumes "rtime_run data s b p r = Some (p', r')"
  shows "p \<le> p'" "r \<le> r'" "r \<le> 255 \<Longrightarrow> r' \<le> 255" "p' = p + (r' - r)" "p \<le> s \<Longrightarrow> p' \<le> s"
    "i < r' - r \<Longrightarrow> data ! (p + i) = data ! (b + i)"
proof -
  have "p \<le> p' \<and> r \<le> r' \<and> (r \<le> 255 \<longrightarrow> r' \<le> 255) \<and> p' = p + (r' - r) \<and> (p \<le> s \<longrightarrow> p' \<le> s) \<and>
      (\<forall>i < r' - r. data ! (p + i) = data ! (b + i))"
    using assms
  proof (induction data s b p r rule: rtime_run.induct)
    case (1 data s b p r)
    show ?case
    proof (cases "b < p \<and> p < s \<and> p < length data \<and> b < length data \<and> data ! p = data ! b \<and> r < 255")
      case True
      then have rec: "rtime_run data s (Suc b) (Suc p) (Suc r) = Some (p', r')"
        using "1.prems" by (subst (asm) rtime_run.simps) simp
      have IH: "Suc p \<le> p' \<and> Suc r \<le> r' \<and> (Suc r \<le> 255 \<longrightarrow> r' \<le> 255) \<and> p' = Suc p + (r' - Suc r) \<and>
          (Suc p \<le> s \<longrightarrow> p' \<le> s) \<and> (\<forall>i < r' - Suc r. data ! (Suc p + i) = data ! (Suc b + i))"
        by (rule "1.IH" [of "data ! p" "data ! b"]) (use True rec in simp_all)
      have "data ! (p + i) = data ! (b + i)" if "i < r' - r" for i
        using IH True that by (cases i) auto
      moreover have "Suc p \<le> p'" "Suc r \<le> r'" "r' \<le> 255" "p' = Suc p + (r' - Suc r)" "p' \<le> s"
        using IH True Suc_leI by blast+
      ultimately show ?thesis by (auto simp del: add_Suc)
    next
      case False
      then have "p' = p \<and> r' = r"
        using "1.prems" by (subst (asm) rtime_run.simps) (auto simp: load_def split: if_splits bind_splits)
      then show ?thesis by simp
    qed
  qed
  then show "p \<le> p'" "r \<le> r'" "r \<le> 255 \<Longrightarrow> r' \<le> 255" "p' = p + (r' - r)" "p \<le> s \<Longrightarrow> p' \<le> s"
    "i < r' - r \<Longrightarrow> data ! (p + i) = data ! (b + i)"
    by blast+
qed

type_synonym positions = "u8 \<Rightarrow> nat"

function rtime_compress_loop ::
  "buffer \<Rightarrow> u32 \<Rightarrow> u32 \<Rightarrow> positions \<Rightarrow> buffer \<Rightarrow> nat \<Rightarrow> nat \<Rightarrow> (buffer \<times> nat \<times> nat) option" where
  "rtime_compress_loop data_in sourcelen dstlen positions cpage_out outpos pos =
     (if pos < unat sourcelen \<and> of_nat outpos \<le> dstlen - 2 then do {
        value \<leftarrow> load data_in pos;
        cpage_out \<leftarrow> store cpage_out outpos value;
        (pos', runlen) \<leftarrow> rtime_run data_in (unat sourcelen) (positions value) (Suc pos) 0;
        cpage_out \<leftarrow> store cpage_out (Suc outpos) (of_nat runlen);
        rtime_compress_loop data_in sourcelen dstlen (positions(value := Suc pos)) cpage_out (outpos + 2) pos'
      } else Some (cpage_out, outpos, pos))"
  by pat_completeness auto
termination
  by (relation "measure (\<lambda>(d, s, t, ps, c, ou, p). unat s - p)") (auto dest!: rtime_run_result(1))

declare rtime_compress_loop.simps [simp del]

definition rtime_compress :: compressor where
  "rtime_compress data_in cpage_out sourcelen dstlen = do {
     (cpage_out, outpos, pos) \<leftarrow> rtime_compress_loop data_in sourcelen dstlen (\<lambda>_. 0) cpage_out 0 0;
     if pos \<le> outpos then Some (- 1, cpage_out, sourcelen, dstlen)
     else Some (0, cpage_out, of_nat pos, of_nat outpos)
   }"

section \<open>Expansion\<close>

primrec rtime_copy :: "nat \<Rightarrow> buffer \<Rightarrow> nat \<Rightarrow> nat \<Rightarrow> buffer option" where
  "rtime_copy 0 cpage_out outpos backoffs = Some cpage_out"
| "rtime_copy (Suc r) cpage_out outpos backoffs = do {
     v \<leftarrow> load cpage_out backoffs;
     cpage_out \<leftarrow> store cpage_out outpos v;
     rtime_copy r cpage_out (Suc outpos) (Suc backoffs)
   }"

definition rtime_repeat :: "buffer \<Rightarrow> nat \<Rightarrow> nat \<Rightarrow> nat \<Rightarrow> buffer option" where
  "rtime_repeat cpage_out outpos backoffs r =
     (if r \<noteq> 0 then
        if outpos \<le> backoffs + r then rtime_copy r cpage_out outpos backoffs
        else buf_memcpy cpage_out outpos backoffs r
      else Some cpage_out)"

function rtime_decompress_loop ::
  "buffer \<Rightarrow> u32 \<Rightarrow> positions \<Rightarrow> buffer \<Rightarrow> nat \<Rightarrow> nat \<Rightarrow> buffer option" where
  "rtime_decompress_loop data_in destlen positions cpage_out outpos pos =
     (if outpos < unat destlen then do {
        value \<leftarrow> load data_in pos;
        cpage_out \<leftarrow> store cpage_out outpos value;
        r \<leftarrow> load data_in (Suc pos);
        cpage_out \<leftarrow> rtime_repeat cpage_out (Suc outpos) (positions value) (unat r);
        rtime_decompress_loop data_in destlen (positions(value := Suc outpos)) cpage_out
          (Suc outpos + unat r) (pos + 2)
      } else Some cpage_out)"
  by pat_completeness auto
termination by (relation "measure (\<lambda>(d, s, ps, c, ou, p). unat s - ou)") auto

declare rtime_decompress_loop.simps [simp del]

definition rtime_decompress :: expander where
  "rtime_decompress data_in cpage_out srclen destlen =
     rtime_decompress_loop data_in destlen (\<lambda>_. 0) cpage_out 0 0"

section \<open>Round trip\<close>

lemma rtime_run_total:
  "s \<le> length data \<Longrightarrow> b < p \<Longrightarrow> \<exists>p' r'. rtime_run data s b p r = Some (p', r')"
  by (induction data s b p r rule: rtime_run.induct) (subst rtime_run.simps, auto)

lemma rtime_copy_filled:
  assumes "b < p" "p + r \<le> length data" "p + r \<le> length out" "\<forall>i < r. data ! (p + i) = data ! (b + i)"
  shows "rtime_copy r (filled data p out) p b = Some (filled data (p + r) out)"
  using assms
proof (induction r arbitrary: p b)
  case (Suc r)
  have "data ! p = data ! b" using Suc.prems(4) by force
  then have "(filled data p out)[p := filled data p out ! b] = filled data (Suc p) out"
    using Suc.prems filled_update [of p data out] by (simp add: nth_filled)
  moreover have "\<forall>i < r. data ! (Suc p + i) = data ! (Suc b + i)" using Suc.prems(4) by force
  then have "rtime_copy r (filled data (Suc p) out) (Suc p) (Suc b) = Some (filled data (Suc p + r) out)"
    using Suc.prems by (intro Suc.IH) auto
  ultimately show ?case using Suc.prems by simp
qed simp

lemma buf_memcpy_filled:
  assumes "b + r \<le> p" "p + r \<le> length data" "p + r \<le> length out" "\<forall>i < r. data ! (p + i) = data ! (b + i)"
  shows "buf_memcpy (filled data p out) p b r = Some (filled data (p + r) out)"
proof -
  have "take r (drop b (filled data p out)) = take r (drop p data)"
    using assms by (intro nth_equalityI) (auto simp: nth_filled)
  moreover have "take p (filled data p out) = take p data" "drop (p + r) (filled data p out) = drop (p + r) out"
    using assms by (auto simp: filled_def add.commute)
  ultimately show ?thesis using assms by (simp add: buf_memcpy_def filled_def take_add)
qed

lemma rtime_repeat_filled:
  assumes "b < p" "p + r \<le> length data" "p + r \<le> length out" "\<forall>i < r. data ! (p + i) = data ! (b + i)"
  shows "rtime_repeat (filled data p out) p b r = Some (filled data (p + r) out)"
  using rtime_copy_filled [OF assms] buf_memcpy_filled [of b r p data out] assms
  by (simp add: rtime_repeat_def)

lemma rtime_compress_keeps:
  assumes "rtime_compress_loop data s t ps c ou p = Some (c', ou', p')"
  shows "length c' = length c" "ou \<le> ou'" "p \<le> p'" "i < ou \<Longrightarrow> c' ! i = c ! i" "p \<le> unat s \<Longrightarrow> p' \<le> unat s"
proof -
  have "length c' = length c \<and> ou \<le> ou' \<and> p \<le> p' \<and> (\<forall>i < ou. c' ! i = c ! i) \<and> (p \<le> unat s \<longrightarrow> p' \<le> unat s)"
    using assms
  proof (induction data s t ps c ou p rule: rtime_compress_loop.induct)
    case (1 data s t ps c ou p)
    show ?case
    proof (cases "p < unat s \<and> of_nat ou \<le> t - 2")
      case True
      then obtain c1 p1 r c2 where st: "p < length data" "store c ou (data ! p) = Some c1"
          "rtime_run data (unat s) (ps (data ! p)) (Suc p) 0 = Some (p1, r)"
          "store c1 (Suc ou) (of_nat r) = Some c2"
          "rtime_compress_loop data s t (ps(data ! p := Suc p)) c2 (ou + 2) p1 = Some (c', ou', p')"
        using "1.prems" by (subst (asm) rtime_compress_loop.simps) (auto simp: load_def split: if_splits bind_splits)
      note IH = "1.IH" [OF True _ st(2,3) refl st(4,5), unfolded load_def]
      have c2: "length c2 = length c" "\<forall>i < ou. c2 ! i = c ! i"
        using st(2,4) by (auto simp: store_def split: if_splits)
      show ?thesis using IH st(1) c2 rtime_run_result(1,5) [OF st(3)] True by auto
    next
      case False
      then show ?thesis using "1.prems" by (subst (asm) rtime_compress_loop.simps) auto
    qed
  qed
  then show "length c' = length c" "ou \<le> ou'" "p \<le> p'" "i < ou \<Longrightarrow> c' ! i = c ! i"
    "p \<le> unat s \<Longrightarrow> p' \<le> unat s" by blast+
qed

lemma rtime_compress_total:
  assumes "unat s \<le> length data" "2 \<le> unat t" "unat t \<le> length c" "ou \<le> unat t" "\<forall>v. ps v \<le> p"
  shows "\<exists>c' ou' p'. rtime_compress_loop data s t ps c ou p = Some (c', ou', p') \<and> ou' \<le> unat t"
  using assms
proof (induction data s t ps c ou p rule: rtime_compress_loop.induct)
  case (1 data s t ps c ou p)
  show ?case
  proof (cases "p < unat s \<and> of_nat ou \<le> t - 2")
    case True
    have "ou < 2 ^ 32" using 1(5) unsigned_less [of t, where 'a = nat] by simp
    then have "ou \<le> unat t - 2"
      using True 1(3) by (simp add: word_le_nat_alt unat_sub unat_of_nat)
    then have ou: "ou + 2 \<le> unat t" using 1(3) by linarith
    obtain p1 r where run: "rtime_run data (unat s) (ps (data ! p)) (Suc p) 0 = Some (p1, r)"
      using rtime_run_total [of "unat s" data "ps (data ! p)" "Suc p"] 1(2,6) le_imp_less_Suc by blast
    let ?c = "c[ou := data ! p, Suc ou := of_nat r]"
    have st: "load data p = Some (data ! p)" "store c ou (data ! p) = Some (c[ou := data ! p])"
      "store (c[ou := data ! p]) (Suc ou) (of_nat r) = Some ?c"
      using True 1(2,4) ou by simp_all
    have "\<forall>v. (ps(data ! p := Suc p)) v \<le> p1"
      using 1(6) rtime_run_result(1) [OF run] by (auto intro: le_trans)
    then have "\<exists>c' ou' p'. rtime_compress_loop data s t (ps(data ! p := Suc p)) ?c (ou + 2) p1 = Some (c', ou', p') \<and>
        ou' \<le> unat t"
      using 1(2,3,4) ou by (intro "1.IH" [OF True st(1,2) run refl st(3)]) simp_all
    then show ?thesis using True by (subst rtime_compress_loop.simps) (simp add: st run)
  next
    case False
    then show ?thesis using 1(5) by (subst rtime_compress_loop.simps) auto
  qed
qed

lemma rtime_roundtrip_loop:
  assumes "rtime_compress_loop data s t ps c ou p = Some (c', ou', p')" "unat s \<le> length data"
    "\<forall>v. ps v \<le> p" "p' \<le> length out" "ou' \<le> length D" "\<forall>i < ou'. D ! i = c' ! i" "unat d = p'"
  shows "rtime_decompress_loop D d ps (filled data p out) p ou = Some (filled data p' out)"
  using assms
proof (induction data s t ps c ou p rule: rtime_compress_loop.induct)
  case (1 data s t ps c ou p)
  show ?case
  proof (cases "p < unat s \<and> of_nat ou \<le> t - 2")
    case True
    then obtain c1 p1 r c2 where st: "p < length data" "store c ou (data ! p) = Some c1"
        "rtime_run data (unat s) (ps (data ! p)) (Suc p) 0 = Some (p1, r)"
        "store c1 (Suc ou) (of_nat r) = Some c2"
        "rtime_compress_loop data s t (ps(data ! p := Suc p)) c2 (ou + 2) p1 = Some (c', ou', p')"
      using "1.prems"(1) by (subst (asm) rtime_compress_loop.simps) (auto simp: load_def split: if_splits bind_splits)
    note run = rtime_run_result [OF st(3)] and keep = rtime_compress_keeps [OF st(5)]
    have p1: "p1 = Suc p + r" "r \<le> 255" "p1 \<le> unat s" using run(3,4,5) True by simp_all
    have "c2 ! ou = data ! p" "c2 ! Suc ou = of_nat r"
      using st(2,4) by (auto simp: store_def split: if_splits)
    then have D: "load D ou = Some (data ! p)" "load D (Suc ou) = Some (of_nat r)"
      using keep(2) keep(4) [of ou] keep(4) [of "Suc ou"] "1.prems"(5,6) by simp_all
    have r: "unat (of_nat r :: u8) = r" using p1(2) by (simp add: unat_of_nat)
    have "rtime_repeat (filled data (Suc p) out) (Suc p) (ps (data ! p)) r = Some (filled data p1 out)"
      unfolding p1(1) using "1.prems"(2,3,4) run(6) p1 keep(3)
      by (intro rtime_repeat_filled) (auto simp: le_imp_less_Suc)
    moreover have "rtime_decompress_loop D d (ps(data ! p := Suc p)) (filled data p1 out) p1 (ou + 2) =
        Some (filled data p' out)"
      using "1.prems"(2,3,4,5,6,7) p1(1)
      by (intro "1.IH" [OF True _ st(2,3) refl st(4,5)]) (auto simp: st(1) intro: le_trans)
    ultimately show ?thesis
      using "1.prems"(4,7) st(1) keep(3) p1(1)
      by (subst rtime_decompress_loop.simps) (simp add: D r filled_update)
  next
    case False
    then have "p' = p" using "1.prems"(1) by (subst (asm) rtime_compress_loop.simps) auto
    then show ?thesis using "1.prems"(7) by (subst rtime_decompress_loop.simps) simp
  qed
qed

lemma rtime_contract:
  assumes "codec_args data cpage n m" "2 \<le> unat m"
  shows "\<exists>r. rtime_compress data cpage n m = Some r \<and> codec_result rtime_decompress data (length cpage) n m r"
proof -
  obtain c ou p where loop: "rtime_compress_loop data n m (\<lambda>_. 0) cpage 0 0 = Some (c, ou, p)" "ou \<le> unat m"
    using rtime_compress_total [of n data m cpage 0 "\<lambda>_. 0" 0] assms by (auto simp: codec_args_def)
  note keep = rtime_compress_keeps [OF loop(1)]
  have u: "unat (of_nat p :: u32) = p" "unat (of_nat ou :: u32) = ou"
    using keep(5) loop(2) assms(1) by (auto simp: unat_of_nat codec_args_def)
  have "expands rtime_decompress data c (of_nat p) (of_nat ou)"
    unfolding expands_def rtime_decompress_def
    using rtime_roundtrip_loop [OF loop(1), where D = "take ou c" and d = "of_nat p"] assms loop(2) keep(1) u
    by (auto simp: codec_args_def)
  then show ?thesis
    using loop keep(1,5) u by (auto simp: rtime_compress_def codec_result_def word_le_nat_alt word_less_nat_alt)
qed

interpretation rtime: codec rtime_compress rtime_decompress "\<lambda>n m. 2 \<le> unat m"
  by unfold_locales (rule rtime_contract)

end
