(* ===== verification/Jffs2_Rubin.thy ===== *)
theory Jffs2_Rubin
  imports Codec
begin

unbundle bit_operations_syntax

text \<open>
  The \<open>rubin\<close> arithmetic coder, \<^verbatim>\<open>fs/jffs2/compr_rubin.c\<close> with the bit buffer of
  \<^verbatim>\<open>fs/jffs2/pushpull.c\<close> and \<^verbatim>\<open>pushpull.h\<close>.  The registers are words of the width of an
  \<^verbatim>\<open>unsigned long\<close>, the split of the interval is computed in unsigned arithmetic as the code
  does it.  An access outside a buffer and a division by zero are \<open>None\<close>; the loop of
  \<^verbatim>\<open>__do_decode\<close> does not end on every state and is a partial function.
\<close>

section \<open>The bit buffer\<close>

record pushpull =
  pp_buf :: buffer
  buflen :: u32
  ofs :: u32
  reserve :: u32

definition init_pushpull :: "buffer \<Rightarrow> u32 \<Rightarrow> u32 \<Rightarrow> u32 \<Rightarrow> pushpull" where
  "init_pushpull b len off res = \<lparr>pp_buf = b, buflen = len, ofs = off, reserve = res\<rparr>"

definition ENOSPC :: int where "ENOSPC = 28"

definition byte_at :: "u32 \<Rightarrow> nat" where "byte_at i = unat (drop_bit 3 i)"
definition bit_in :: "u32 \<Rightarrow> nat" where "bit_in i = 7 - unat (i AND 7)"

definition pushbit :: "pushpull \<Rightarrow> bool \<Rightarrow> bool \<Rightarrow> (int \<times> pushpull) option" where
  "pushbit pp b use_reserved =
     (if buflen pp - (if use_reserved then 0 else reserve pp) \<le> ofs pp then Some (- ENOSPC, pp)
      else do {
        v \<leftarrow> load (pp_buf pp) (byte_at (ofs pp));
        buf' \<leftarrow> store (pp_buf pp) (byte_at (ofs pp))
          (if b then v OR push_bit (bit_in (ofs pp)) 1 else v AND NOT (push_bit (bit_in (ofs pp)) 1));
        Some (0, pp\<lparr>pp_buf := buf', ofs := ofs pp + 1\<rparr>)
      })"

definition pushedbits :: "pushpull \<Rightarrow> u32" where "pushedbits pp = ofs pp"

definition pullbit :: "pushpull \<Rightarrow> (u32 \<times> pushpull) option" where
  "pullbit pp = do {
     v \<leftarrow> load (pp_buf pp) (byte_at (ofs pp));
     Some (ucast (drop_bit (bit_in (ofs pp)) v AND 1), pp\<lparr>ofs := ofs pp + 1\<rparr>)
   }"

section \<open>The coder\<close>

definition RUBIN_REG_SIZE :: nat where "RUBIN_REG_SIZE = 16"
definition UPPER_BIT_RUBIN :: u32 where "UPPER_BIT_RUBIN = push_bit (RUBIN_REG_SIZE - 1) 1"
definition LOWER_BITS_RUBIN :: u32 where "LOWER_BITS_RUBIN = push_bit (RUBIN_REG_SIZE - 1) 1 - 1"

record rubin_state =
  rp :: u32
  rq :: u32
  rec_q :: u32
  bit_number :: int
  rpp :: pushpull
  bit_divider :: int
  rbits :: "int list"

text \<open>The arguments start from an uninitialised structure \<open>rs\<close>.\<close>

definition init_rubin :: "rubin_state \<Rightarrow> int \<Rightarrow> int list \<Rightarrow> rubin_state" where
  "init_rubin rs d bits = rs\<lparr>rq := 0, rp := 2 * UPPER_BIT_RUBIN, bit_number := 0, bit_divider := d,
     rbits := map (\<lambda>c. bits ! c) [0..<8]\<rparr>"

text \<open>The interval has left one half of the register: its top bit is settled.\<close>

definition settled :: "u32 \<Rightarrow> u32 \<Rightarrow> bool" where
  "settled p q \<longleftrightarrow> UPPER_BIT_RUBIN \<le> q \<or> p + q \<le> UPPER_BIT_RUBIN"

definition shift_q :: "u32 \<Rightarrow> u32" where "shift_q q = push_bit 1 (q AND LOWER_BITS_RUBIN)"

lemma pushbit_room:
  assumes "pushbit pp b u = Some (0, pp')"
  shows "buflen pp' = buflen pp" "reserve pp' = reserve pp" "unat (ofs pp') = Suc (unat (ofs pp))"
    "\<not> buflen pp - (if u then 0 else reserve pp) \<le> ofs pp"
proof -
  have less: "ofs pp < buflen pp - (if u then 0 else reserve pp)" and
    eq: "buflen pp' = buflen pp" "reserve pp' = reserve pp" "ofs pp' = ofs pp + 1"
    using assms by (auto simp: pushbit_def ENOSPC_def not_le split: if_splits bind_splits)
  from less have "unat (ofs pp) + 1 < 2 ^ 32"
    using unsigned_less [of "buflen pp - (if u then 0 else reserve pp)", where 'a = nat]
    by (simp add: word_less_nat_alt)
  then have "unat (ofs pp + 1) = Suc (unat (ofs pp))"
    by (subst unat_add_lem [THEN iffD1]) auto
  then show "buflen pp' = buflen pp" "reserve pp' = reserve pp" "unat (ofs pp') = Suc (unat (ofs pp))"
    "\<not> buflen pp - (if u then 0 else reserve pp) \<le> ofs pp"
    using eq less by simp_all
qed

lemma pushbit_shrinks:
  assumes "pushbit pp b False = Some (0, pp')"
  shows "unat (buflen pp' - reserve pp') - unat (ofs pp') < unat (buflen pp - reserve pp) - unat (ofs pp)"
  using pushbit_room [OF assms] by (simp add: word_le_nat_alt)

function encode_loop :: "rubin_state \<Rightarrow> (int \<times> rubin_state) option" where
  "encode_loop rs =
     (if settled (rp rs) (rq rs) then do {
        (ret, pp') \<leftarrow> pushbit (rpp rs) (rq rs AND UPPER_BIT_RUBIN \<noteq> 0) False;
        if ret \<noteq> 0 then Some (ret, rs\<lparr>bit_number := bit_number rs + 1, rpp := pp'\<rparr>)
        else encode_loop (rs\<lparr>bit_number := bit_number rs + 1, rpp := pp', rq := shift_q (rq rs),
          rp := push_bit 1 (rp rs)\<rparr>)
      } else Some (0, rs))"
  by pat_completeness auto
termination
  by (relation "measure (\<lambda>rs. unat (buflen (rpp rs) - reserve (rpp rs)) - unat (ofs (rpp rs)))")
    (auto dest: pushbit_shrinks)

declare encode_loop.simps [simp del]

text \<open>The part of the interval that the symbol 0 gets.\<close>

definition rubin_split :: "int \<Rightarrow> int \<Rightarrow> u32 \<Rightarrow> u32 option" where
  "rubin_split A B p =
     (if of_int (A + B) = (0 :: u32) then None
      else let i0 = of_int A * p div of_int (A + B);
               i0 = (if sint i0 \<le> 0 then 1 else i0) in
        Some (if p \<le> i0 then p - 1 else i0))"

definition encode :: "rubin_state \<Rightarrow> int \<Rightarrow> int \<Rightarrow> bool \<Rightarrow> (int \<times> rubin_state) option" where
  "encode rs A B symbol = do {
     (ret, rs) \<leftarrow> encode_loop rs;
     if ret \<noteq> 0 then Some (ret, rs)
     else do {
       i0 \<leftarrow> rubin_split A B (rp rs);
       Some (0, if \<not> symbol then rs\<lparr>rp := i0\<rparr> else rs\<lparr>rp := rp rs - i0, rq := rq rs + i0\<rparr>)
     }
   }"

primrec end_loop :: "nat \<Rightarrow> rubin_state \<Rightarrow> rubin_state option" where
  "end_loop 0 rs = Some rs"
| "end_loop (Suc i) rs = do {
     (_, pp') \<leftarrow> pushbit (rpp rs) (UPPER_BIT_RUBIN AND rq rs \<noteq> 0) True;
     end_loop i (rs\<lparr>rpp := pp', rq := shift_q (rq rs)\<rparr>)
   }"

definition end_rubin :: "rubin_state \<Rightarrow> rubin_state option" where
  "end_rubin = end_loop RUBIN_REG_SIZE"

section \<open>The decoder\<close>

primrec init_decode_loop :: "nat \<Rightarrow> rubin_state \<Rightarrow> rubin_state option" where
  "init_decode_loop 0 rs = Some (rs\<lparr>bit_number := bit_number rs + 1\<rparr>)"
| "init_decode_loop (Suc i) rs = do {
     (c, pp') \<leftarrow> pullbit (rpp rs);
     init_decode_loop i (rs\<lparr>bit_number := bit_number rs + 1, rpp := pp', rec_q := rec_q rs * 2 + c\<rparr>)
   }"

definition init_decode :: "rubin_state \<Rightarrow> int \<Rightarrow> int list \<Rightarrow> rubin_state option" where
  "init_decode rs d bits =
     init_decode_loop RUBIN_REG_SIZE ((init_rubin rs d bits)\<lparr>rec_q := 0, bit_number := 0\<rparr>)"

text \<open>The first loop of \<^verbatim>\<open>__do_decode\<close> counts the bits to read, the second reads them.\<close>

partial_function (option) do_decode_norm :: "u32 \<Rightarrow> u32 \<Rightarrow> nat \<Rightarrow> (u32 \<times> u32 \<times> nat) option" where
  "do_decode_norm p q bits =
     (let bits = Suc bits; q = shift_q q; p = push_bit 1 p in
      if settled p q then do_decode_norm p q bits else Some (p, q, bits))"

primrec do_decode_pull :: "nat \<Rightarrow> pushpull \<Rightarrow> u32 \<Rightarrow> (pushpull \<times> u32) option" where
  "do_decode_pull 0 pp r = Some (pp, r)"
| "do_decode_pull (Suc n) pp r = do {
     (c, pp) \<leftarrow> pullbit pp;
     do_decode_pull n pp (shift_q r + c)
   }"

definition do_decode :: "rubin_state \<Rightarrow> u32 \<Rightarrow> u32 \<Rightarrow> rubin_state option" where
  "do_decode rs p q = do {
     (p, q, bits) \<leftarrow> do_decode_norm p q 0;
     (pp', r) \<leftarrow> do_decode_pull bits (rpp rs) (rec_q rs);
     Some (rs\<lparr>rp := p, rq := q, bit_number := bit_number rs + int bits, rpp := pp', rec_q := r\<rparr>)
   }"

definition decode :: "rubin_state \<Rightarrow> int \<Rightarrow> int \<Rightarrow> (bool \<times> rubin_state) option" where
  "decode rs A B = do {
     rs \<leftarrow> (if settled (rp rs) (rq rs) then do_decode rs (rp rs) (rq rs) else Some rs);
     i0 \<leftarrow> rubin_split A B (rp rs);
     if rq rs + i0 \<le> rec_q rs then Some (True, rs\<lparr>rq := rq rs + i0, rp := rp rs - i0\<rparr>)
     else Some (False, rs\<lparr>rp := i0\<rparr>)
   }"

section \<open>Bytes\<close>

function out_byte_loop :: "nat \<Rightarrow> u8 \<Rightarrow> rubin_state \<Rightarrow> (int \<times> rubin_state) option" where
  "out_byte_loop i byte rs =
     (if i < 8 then do {
        (ret, rs') \<leftarrow> encode rs (bit_divider rs - rbits rs ! i) (rbits rs ! i) (byte AND 1 \<noteq> 0);
        if ret \<noteq> 0 then Some (ret, rs') else out_byte_loop (Suc i) (drop_bit 1 byte) rs'
      } else Some (0, rs))"
  by pat_completeness auto
termination by (relation "measure (\<lambda>(i, b, rs). 8 - i)") auto

declare out_byte_loop.simps [simp del]

text \<open>
  On failure the registers and the offset are restored; the bits that were written into the buffer
  stay there.
\<close>

definition out_byte :: "rubin_state \<Rightarrow> u8 \<Rightarrow> (int \<times> rubin_state) option" where
  "out_byte rs byte = do {
     (ret, rs') \<leftarrow> out_byte_loop 0 byte rs;
     if ret \<noteq> 0 then Some (ret, rs\<lparr>rpp := (rpp rs)\<lparr>pp_buf := pp_buf (rpp rs')\<rparr>\<rparr>)
     else Some (0, rs')
   }"

function in_byte_loop :: "nat \<Rightarrow> u32 \<Rightarrow> int \<Rightarrow> rubin_state \<Rightarrow> (u32 \<times> rubin_state) option" where
  "in_byte_loop i result d rs =
     (if i < 8 then do {
        (symbol, rs) \<leftarrow> decode rs (d - rbits rs ! i) (rbits rs ! i);
        in_byte_loop (Suc i) (result OR push_bit i (of_bool symbol)) d rs
      } else Some (result, rs))"
  by pat_completeness auto
termination by (relation "measure (\<lambda>(i, r, d, rs). 8 - i)") auto

declare in_byte_loop.simps [simp del]

definition in_byte :: "rubin_state \<Rightarrow> (u32 \<times> rubin_state) option" where
  "in_byte rs = in_byte_loop 0 0 (bit_divider rs) rs"

section \<open>Buffers\<close>

function rubin_compress_loop :: "buffer \<Rightarrow> u32 \<Rightarrow> nat \<Rightarrow> rubin_state \<Rightarrow> (nat \<times> rubin_state) option" where
  "rubin_compress_loop data_in sourcelen pos rs =
     (if pos < unat sourcelen then do {
        v \<leftarrow> load data_in pos;
        (ret, rs) \<leftarrow> out_byte rs v;
        if ret \<noteq> 0 then Some (pos, rs) else rubin_compress_loop data_in sourcelen (Suc pos) rs
      } else Some (pos, rs))"
  by pat_completeness auto
termination by (relation "measure (\<lambda>(d, s, p, rs). unat s - p)") auto

declare rubin_compress_loop.simps [simp del]

text \<open>The structure \<open>rs\<close> on the stack has no particular contents before it is initialised.\<close>

definition rubin_do_compress ::
  "rubin_state \<Rightarrow> int \<Rightarrow> int list \<Rightarrow> compressor" where
  "rubin_do_compress rs d bits data_in cpage_out sourcelen dstlen = do {
     (pos, rs) \<leftarrow> rubin_compress_loop data_in sourcelen 0
       (init_rubin (rs\<lparr>rpp := init_pushpull cpage_out (dstlen * 8) 0 32\<rparr>) d bits);
     rs \<leftarrow> end_rubin rs;
     let outpos = unat ((pushedbits (rpp rs) + 7) div 8);
     if pos \<le> outpos then Some (- 1, pp_buf (rpp rs), sourcelen, dstlen)
     else Some (0, pp_buf (rpp rs), of_nat pos, of_nat outpos)
   }"

function rubin_decompress_loop :: "u32 \<Rightarrow> buffer \<Rightarrow> nat \<Rightarrow> rubin_state \<Rightarrow> buffer option" where
  "rubin_decompress_loop destlen page_out outpos rs =
     (if outpos < unat destlen then do {
        (v, rs) \<leftarrow> in_byte rs;
        page_out \<leftarrow> store page_out outpos (ucast v);
        rubin_decompress_loop destlen page_out (Suc outpos) rs
      } else Some page_out)"
  by pat_completeness auto
termination by (relation "measure (\<lambda>(d, pg, ou, rs). unat d - ou)") auto

declare rubin_decompress_loop.simps [simp del]

definition rubin_do_decompress :: "rubin_state \<Rightarrow> int \<Rightarrow> int list \<Rightarrow> expander" where
  "rubin_do_decompress rs d bits cdata_in page_out srclen destlen = do {
     rs \<leftarrow> init_decode (rs\<lparr>rpp := init_pushpull cdata_in srclen 0 0\<rparr>) d bits;
     rubin_decompress_loop destlen page_out 0 rs
   }"

section \<open>Dynamic probabilities\<close>

text \<open>The histogram counts in bytes and wraps.\<close>

function histo_loop :: "buffer \<Rightarrow> u32 \<Rightarrow> nat \<Rightarrow> (u8 \<Rightarrow> u8) \<Rightarrow> (u8 \<Rightarrow> u8) option" where
  "histo_loop data_in mysrclen i histo =
     (if i < unat mysrclen then do {
        v \<leftarrow> load data_in i;
        histo_loop data_in mysrclen (Suc i) (histo(v := histo v + 1))
      } else Some histo)"
  by pat_completeness auto
termination by (relation "measure (\<lambda>(d, s, i, h). unat s - i)") auto

declare histo_loop.simps [simp del]

definition add_bits :: "(u8 \<Rightarrow> u8) \<Rightarrow> nat \<Rightarrow> int list \<Rightarrow> int list" where
  "add_bits histo i bits = map (\<lambda>k. bits ! k + (if bit i k then uint (histo (of_nat i)) else 0)) [0..<8]"

definition scale_bit :: "u32 \<Rightarrow> int \<Rightarrow> int" where
  "scale_bit mysrclen b =
     (let b = sint (of_int (b * 256) div mysrclen);
          b = (if b = 0 then 1 else b) in
      if 255 < b then 255 else b)"

definition dyn_bits :: "(u8 \<Rightarrow> u8) \<Rightarrow> u32 \<Rightarrow> int list" where
  "dyn_bits histo mysrclen = map (scale_bit mysrclen) (fold (add_bits histo) [0..<256] (replicate 8 0))"

primrec store_all :: "u8 list \<Rightarrow> nat \<Rightarrow> buffer \<Rightarrow> buffer option" where
  "store_all [] i b = Some b"
| "store_all (v # vs) i b = do { b \<leftarrow> store b i v; store_all vs (Suc i) b }"

definition dynrubin_compress :: "rubin_state \<Rightarrow> compressor" where
  "dynrubin_compress rs data_in cpage_out sourcelen dstlen =
     (if dstlen \<le> 12 then Some (- 1, cpage_out, sourcelen, dstlen)
      else do {
        histo \<leftarrow> histo_loop data_in sourcelen 0 (\<lambda>_. 0);
        bits \<leftarrow> (if sourcelen = 0 then None else Some (dyn_bits histo sourcelen));
        cpage_out \<leftarrow> store_all (map of_int bits) 0 cpage_out;
        (ret, rest, mysrclen, mydstlen) \<leftarrow>
          rubin_do_compress rs 256 bits data_in (drop 8 cpage_out) sourcelen (dstlen - 8);
        let cpage_out = take 8 cpage_out @ rest;
        if ret \<noteq> 0 then Some (ret, cpage_out, sourcelen, dstlen)
        else if mysrclen \<le> mydstlen + 8 then Some (- 1, cpage_out, sourcelen, dstlen)
        else Some (0, cpage_out, mysrclen, mydstlen + 8)
      })"

definition dynrubin_decompress :: "rubin_state \<Rightarrow> expander" where
  "dynrubin_decompress rs data_in cpage_out sourcelen dstlen =
     (if length data_in < 8 then None
      else rubin_do_decompress rs 256 (map uint (take 8 data_in)) (drop 8 data_in) cpage_out (sourcelen - 8) dstlen)"

definition BIT_DIVIDER_MIPS :: int where "BIT_DIVIDER_MIPS = 1043"
definition bits_mips :: "int list" where "bits_mips = [277, 249, 290, 267, 229, 341, 212, 241]"

definition rubinmips_decompress :: "rubin_state \<Rightarrow> expander" where
  "rubinmips_decompress rs data_in cpage_out sourcelen dstlen =
     rubin_do_decompress rs BIT_DIVIDER_MIPS bits_mips data_in cpage_out sourcelen dstlen"

section \<open>The bits of a buffer\<close>

text \<open>Bit \<open>i\<close> of a buffer, and the number that the \<open>n\<close> bits from \<open>i\<close> on spell.\<close>

definition buf_bit :: "buffer \<Rightarrow> nat \<Rightarrow> bool" where
  "buf_bit b i = bit (b ! (i div 8)) (7 - i mod 8)"

primrec bits_val :: "buffer \<Rightarrow> nat \<Rightarrow> nat \<Rightarrow> nat" where
  "bits_val b i 0 = 0"
| "bits_val b i (Suc n) = 2 * bits_val b i n + of_bool (buf_bit b (i + n))"

definition win :: "buffer \<Rightarrow> nat \<Rightarrow> nat" where "win b i = bits_val b i 16"

lemma bits_val_front: "bits_val b i (Suc n) = of_bool (buf_bit b i) * 2 ^ n + bits_val b (Suc i) n"
  by (induction n) (simp_all add: algebra_simps)

lemma bits_val_less: "bits_val b i n < 2 ^ n"
  by (induction n) (auto simp: of_bool_def)

lemma bits_val_cong:
  "(\<And>k. i \<le> k \<Longrightarrow> k < i + n \<Longrightarrow> buf_bit b k = buf_bit b' k) \<Longrightarrow> bits_val b i n = bits_val b' i n"
  by (induction n) auto

lemma win_less: "win b i < 2 ^ 16"
  unfolding win_def by (rule bits_val_less)

lemma win_step:
  shows "win b i = of_bool (buf_bit b i) * 2 ^ 15 + win b (Suc i) div 2"
    and "win b (Suc i) = 2 * (win b i mod 2 ^ 15) + of_bool (buf_bit b (i + 16))"
proof -
  have 16: "(16::nat) = Suc 15" by simp
  have lo: "win b i = of_bool (buf_bit b i) * 2 ^ 15 + bits_val b (Suc i) 15"
    unfolding win_def by (subst 16, rule bits_val_front)
  have hi: "win b (Suc i) = 2 * bits_val b (Suc i) 15 + of_bool (buf_bit b (Suc i + 15))"
    unfolding win_def by (subst 16, rule bits_val.simps(2))
  have "bits_val b (Suc i) 15 < 2 ^ 15" by (rule bits_val_less)
  then show "win b i = of_bool (buf_bit b i) * 2 ^ 15 + win b (Suc i) div 2"
    "win b (Suc i) = 2 * (win b i mod 2 ^ 15) + of_bool (buf_bit b (i + 16))"
    using lo hi by (simp_all add: of_bool_def add.commute)
qed

lemma byte_at_nat: "byte_at i = unat i div 8"
  by (simp only: byte_at_def unat_drop_bit_eq) (simp add: drop_bit_eq_div)

lemma bit_in_nat: "bit_in i = 7 - unat i mod 8"
proof -
  have "i AND 7 = take_bit 3 i" by (simp add: take_bit_eq_mask mask_numeral)
  then have "unat (i AND 7) = unat i mod 8"
    by (simp only: unsigned_take_bit_eq) (simp add: take_bit_eq_mod)
  then show ?thesis by (simp add: bit_in_def)
qed

lemma set_byte_bit:
  fixes v :: u8
  assumes "k < 8" "j < 8"
  shows "bit (if b then v OR push_bit k 1 else v AND NOT (push_bit k 1)) j = (if j = k then b else bit v j)"
  using assms by (auto simp: bit_simps)

lemma pushbit_bits:
  assumes "pushbit pp b u = Some (0, pp')"
  shows "length (pp_buf pp') = length (pp_buf pp)"
    "unat (ofs pp) < 8 * length (pp_buf pp)"
    "buf_bit (pp_buf pp') i = (if i = unat (ofs pp) then b else buf_bit (pp_buf pp) i)"
proof -
  let ?o = "unat (ofs pp)" and ?B = "pp_buf pp"
  let ?v = "if b then ?B ! (?o div 8) OR push_bit (7 - ?o mod 8) 1 else ?B ! (?o div 8) AND NOT (push_bit (7 - ?o mod 8) 1)"
  have o: "?o div 8 < length ?B" and pp': "pp_buf pp' = ?B[?o div 8 := ?v]"
    using assms
    by (auto simp: pushbit_def ENOSPC_def load_def store_def byte_at_nat bit_in_nat split: if_splits bind_splits)
  show "length (pp_buf pp') = length (pp_buf pp)" "?o < 8 * length ?B" using o pp' by auto
  have same: "i = ?o" if "i div 8 = ?o div 8" "7 - i mod 8 = 7 - ?o mod 8"
  proof -
    have "i mod 8 < 8" "?o mod 8 < 8" by simp_all
    with that(2) have "i mod 8 = ?o mod 8" by linarith
    with that(1) show ?thesis by (metis div_mult_mod_eq)
  qed
  show "buf_bit (pp_buf pp') i = (if i = ?o then b else buf_bit ?B i)"
    unfolding buf_bit_def pp' using o same set_byte_bit [of "7 - ?o mod 8" "7 - i mod 8" b "?B ! (?o div 8)"]
    by (cases "i div 8 = ?o div 8") auto
qed

lemma pullbit_bits:
  assumes "unat (ofs pp) < 8 * length (pp_buf pp)"
  shows "pullbit pp = Some (of_bool (buf_bit (pp_buf pp) (unat (ofs pp))), pp\<lparr>ofs := ofs pp + 1\<rparr>)"
proof -
  have "unat (ofs pp) div 8 < length (pp_buf pp)" using assms by linarith
  moreover have "ucast (drop_bit k v AND 1) = (of_bool (bit v k) :: u32)" for k and v :: u8
    by (auto intro!: bit_word_eqI simp: bit_simps)
  ultimately show ?thesis by (simp add: pullbit_def byte_at_nat bit_in_nat buf_bit_def)
qed

definition pp_ok :: "pushpull \<Rightarrow> bool" where
  "pp_ok pp \<longleftrightarrow> unat (reserve pp) \<le> unat (buflen pp) \<and> unat (buflen pp) \<le> 8 * length (pp_buf pp)"

lemma pushbit_cases:
  assumes "pp_ok pp"
  obtains "pushbit pp b u = Some (- ENOSPC, pp)" "buflen pp - (if u then 0 else reserve pp) \<le> ofs pp"
  | pp' where "pushbit pp b u = Some (0, pp')"
proof (cases "buflen pp - (if u then 0 else reserve pp) \<le> ofs pp")
  case True
  then have "pushbit pp b u = Some (- ENOSPC, pp)" by (auto simp: pushbit_def)
  then show thesis using True by (rule that(1))
next
  case False
  have le: "reserve pp \<le> buflen pp" using assms by (simp add: pp_ok_def word_le_nat_alt)
  have "unat (ofs pp) < unat (buflen pp)"
    using False le by (auto simp: not_le word_less_nat_alt unat_sub split: if_splits)
  then have "unat (ofs pp) div 8 < length (pp_buf pp)" using assms unfolding pp_ok_def by linarith
  then show thesis using False that(2) by (auto simp: pushbit_def byte_at_nat)
qed

section \<open>The interval\<close>

text \<open>
  The interval \<open>[q, q + p)\<close> is not empty and stays inside the 16-bit register.
\<close>

definition interval :: "u32 \<Rightarrow> u32 \<Rightarrow> bool" where
  "interval p q \<longleftrightarrow> 1 \<le> unat p \<and> unat p + unat q \<le> 2 ^ 16"

definition inside :: "nat \<Rightarrow> u32 \<Rightarrow> u32 \<Rightarrow> bool" where
  "inside w p q \<longleftrightarrow> unat q \<le> w \<and> w < unat q + unat p"

lemma rubin_regs: "UPPER_BIT_RUBIN = 0x8000" "LOWER_BITS_RUBIN = 0x7fff"
  by (simp_all add: UPPER_BIT_RUBIN_def LOWER_BITS_RUBIN_def RUBIN_REG_SIZE_def push_bit_eq_mult)

lemma shift_q_nat: "unat (shift_q q) = 2 * (unat q mod 2 ^ 15)"
proof -
  have "q AND 0x7fff = take_bit 15 q" by (simp add: take_bit_eq_mask mask_numeral)
  then have a: "unat (q AND 0x7fff) = unat q mod 2 ^ 15"
    by (simp only: unsigned_take_bit_eq) (simp add: take_bit_eq_mod)
  have "unat q mod 2 ^ 15 < 2 ^ 15" by simp
  then have "2 * unat (q AND 0x7fff) < 2 ^ 32" unfolding a by simp
  then have "unat (2 * (q AND 0x7fff)) = 2 * unat (q AND 0x7fff)"
    by (subst unat_mult_lem [THEN iffD1]) auto
  then show ?thesis by (simp add: shift_q_def rubin_regs push_bit_eq_mult a mult.commute)
qed

lemma shift_q_less: "unat (shift_q q) < 2 ^ 16"
proof -
  have "2 * (unat q mod 2 ^ 15) < 2 * 2 ^ 15" by simp
  then show ?thesis by (simp add: shift_q_nat)
qed

lemma interval_sum: "interval p q \<Longrightarrow> unat (p + q) = unat p + unat q"
  by (subst unat_add_lem [THEN iffD1]) (auto simp: interval_def)

lemma settled_nat:
  "interval p q \<Longrightarrow> settled p q \<longleftrightarrow> 2 ^ 15 \<le> unat q \<or> unat p + unat q \<le> 2 ^ 15"
  by (simp add: settled_def rubin_regs word_le_nat_alt interval_sum)

lemma double_p:
  assumes "interval p q"
  shows "unat (push_bit 1 p) = 2 * unat p" "unat (p * 2) = 2 * unat p"
proof -
  show "unat (p * 2) = 2 * unat p"
    using assms by (subst unat_mult_lem [THEN iffD1]) (auto simp: interval_def)
  then show "unat (push_bit 1 p) = 2 * unat p" by (simp add: push_bit_eq_mult)
qed

lemma top_bit:
  assumes "interval p q"
  shows "q AND UPPER_BIT_RUBIN \<noteq> 0 \<longleftrightarrow> 2 ^ 15 \<le> unat q" "UPPER_BIT_RUBIN AND q \<noteq> 0 \<longleftrightarrow> 2 ^ 15 \<le> unat q"
proof -
  have "unat q < 2 ^ 16" using assms by (simp add: interval_def)
  then have "unat q div 2 ^ 15 < 2" by (simp add: less_mult_imp_div_less)
  then have "odd (unat q div 2 ^ 15) \<longleftrightarrow> unat q div 2 ^ 15 = 1" by (metis less_2_cases odd_one even_zero One_nat_def)
  also have "\<dots> \<longleftrightarrow> 2 ^ 15 \<le> unat q" using \<open>unat q < 2 ^ 16\<close> by (simp, linarith)
  finally have "bit (unat q) 15 \<longleftrightarrow> 2 ^ 15 \<le> unat q" unfolding bit_iff_odd .
  then have b: "bit q 15 \<longleftrightarrow> 2 ^ 15 \<le> unat q" by (simp only: bit_unsigned_iff) simp
  have "q AND UPPER_BIT_RUBIN \<noteq> 0 \<longleftrightarrow> bit q 15"
    using and_2p_ne_0 [of q 15] by (simp add: rubin_regs)
  with b show "q AND UPPER_BIT_RUBIN \<noteq> 0 \<longleftrightarrow> 2 ^ 15 \<le> unat q" "UPPER_BIT_RUBIN AND q \<noteq> 0 \<longleftrightarrow> 2 ^ 15 \<le> unat q"
    by (simp_all add: and.commute)
qed

lemma interval_shift:
  assumes "interval p q" "settled p q"
  shows "interval (push_bit 1 p) (shift_q q)" "interval (p * 2) (shift_q q)"
proof -
  have "unat q mod 2 ^ 15 = (if 2 ^ 15 \<le> unat q then unat q - 2 ^ 15 else unat q)"
    using assms(1) by (auto simp: interval_def le_mod_geq)
  then show "interval (push_bit 1 p) (shift_q q)" "interval (p * 2) (shift_q q)"
    using assms by (auto simp: interval_def shift_q_nat double_p [OF assms(1)] settled_nat [OF assms(1)])
qed

text \<open>A bit and the window behind it lie in the interval when the window lies in the doubled one.\<close>

lemma inside_shift:
  assumes "interval p q" "settled p q" "buf_bit b i \<longleftrightarrow> 2 ^ 15 \<le> unat q"
    "inside (win b (Suc i)) (push_bit 1 p) (shift_q q)"
  shows "inside (win b i) p q"
proof -
  have "unat q mod 2 ^ 15 = (if 2 ^ 15 \<le> unat q then unat q - 2 ^ 15 else unat q)"
    using assms(1) by (auto simp: interval_def le_mod_geq)
  then show ?thesis
    using assms(3,4) win_step(1) [of b i] settled_nat [OF assms(1)] assms(2)
    by (auto simp: inside_def shift_q_nat double_p [OF assms(1)] split: if_splits)
qed

lemma rubin_split_bounds:
  assumes "2 \<le> unat p" "rubin_split A B p = Some i0"
  shows "1 \<le> unat i0" "unat i0 < unat p"
proof -
  define i where "i = (of_int A * p div of_int (A + B) :: u32)"
  define j where "j = (if sint i \<le> 0 then 1 else i)"
  have i0: "i0 = (if p \<le> j then p - 1 else j)"
    using assms(2) by (simp add: rubin_split_def i_def j_def Let_def split: if_splits)
  have "j \<noteq> 0" by (auto simp: j_def)
  then have "1 \<le> unat j" by (metis unat_gt_0 Suc_leI One_nat_def)
  moreover have "unat (p - 1) = unat p - 1"
    using assms(1) by (subst unat_sub) (simp_all add: word_le_nat_alt)
  ultimately show "1 \<le> unat i0" "unat i0 < unat p"
    using assms(1) i0 by (auto simp: word_le_nat_alt split: if_splits)
qed

lemma not_settled_wide: "interval p q \<Longrightarrow> \<not> settled p q \<Longrightarrow> 2 \<le> unat p"
  by (simp add: settled_nat)

section \<open>One symbol\<close>

abbreviation "offset rs \<equiv> unat (ofs (rpp rs))"
abbreviation "bytes rs \<equiv> pp_buf (rpp rs)"

text \<open>Encoding only adds to the bits in the buffer, and stays out of the reserve.\<close>

definition grows :: "rubin_state \<Rightarrow> rubin_state \<Rightarrow> bool" where
  "grows rs rs' \<longleftrightarrow> rbits rs' = rbits rs \<and> bit_divider rs' = bit_divider rs \<and>
     buflen (rpp rs') = buflen (rpp rs) \<and> reserve (rpp rs') = reserve (rpp rs) \<and>
     length (bytes rs') = length (bytes rs) \<and> offset rs \<le> offset rs' \<and>
     (\<forall>i < offset rs. buf_bit (bytes rs') i = buf_bit (bytes rs) i) \<and>
     (offset rs \<le> unat (buflen (rpp rs) - reserve (rpp rs)) \<longrightarrow>
      offset rs' \<le> unat (buflen (rpp rs) - reserve (rpp rs)))"

lemma grows_refl [simp]: "grows rs rs"
  by (simp add: grows_def)

lemma grows_trans: "grows rs rs' \<Longrightarrow> grows rs' rs'' \<Longrightarrow> grows rs rs''"
  unfolding grows_def by auto

lemma grows_pp_ok: "grows rs rs' \<Longrightarrow> pp_ok (rpp rs) \<Longrightarrow> pp_ok (rpp rs')"
  by (simp add: grows_def pp_ok_def)

abbreviation shifted :: "rubin_state \<Rightarrow> pushpull \<Rightarrow> rubin_state" where
  "shifted rs pp' \<equiv> rs\<lparr>bit_number := bit_number rs + 1, rpp := pp', rq := shift_q (rq rs), rp := push_bit 1 (rp rs)\<rparr>"

lemma pushbit_refused: "pushbit pp b u = Some (ret, pp') \<Longrightarrow> ret \<noteq> 0 \<Longrightarrow> pp' = pp"
  by (auto simp: pushbit_def split: if_splits bind_splits)

lemma encode_loop_induct [consumes 1, case_names stop full step]:
  assumes "encode_loop rs = Some (ret, rs')"
    and stop: "\<And>rs. \<not> settled (rp rs) (rq rs) \<Longrightarrow> P rs 0 rs"
    and full: "\<And>rs ret. settled (rp rs) (rq rs) \<Longrightarrow> ret \<noteq> 0 \<Longrightarrow> P rs ret (rs\<lparr>bit_number := bit_number rs + 1\<rparr>)"
    and step: "\<And>rs pp' ret rs'. settled (rp rs) (rq rs) \<Longrightarrow>
      pushbit (rpp rs) (rq rs AND UPPER_BIT_RUBIN \<noteq> 0) False = Some (0, pp') \<Longrightarrow>
      encode_loop (shifted rs pp') = Some (ret, rs') \<Longrightarrow> P (shifted rs pp') ret rs' \<Longrightarrow> P rs ret rs'"
  shows "P rs ret rs'"
  using assms(1)
proof (induction rs rule: encode_loop.induct)
  case (1 rs)
  show ?case
  proof (cases "settled (rp rs) (rq rs)")
    case True
    then obtain r pp' where push: "pushbit (rpp rs) (rq rs AND UPPER_BIT_RUBIN \<noteq> 0) False = Some (r, pp')"
      using "1.prems" by (subst (asm) encode_loop.simps) (auto split: bind_splits)
    show ?thesis
    proof (cases "r = 0")
      case r: True
      then have "encode_loop (shifted rs pp') = Some (ret, rs')"
        using "1.prems" True push by (subst (asm) encode_loop.simps) simp
      then show ?thesis using "1.IH" [OF True push refl] r step [OF True] push by blast
    next
      case r: False
      then have "pp' = rpp rs" using push pushbit_refused by blast
      then have "ret = r \<and> rs' = rs\<lparr>bit_number := bit_number rs + 1\<rparr>"
        using "1.prems" True push r by (subst (asm) encode_loop.simps) simp
      then show ?thesis using full [OF True r] by simp
    qed
  next
    case False
    then show ?thesis using "1.prems" stop by (subst (asm) encode_loop.simps) auto
  qed
qed

lemma grows_shifted:
  assumes "pushbit (rpp rs) b False = Some (0, pp')"
  shows "grows rs (shifted rs pp')"
  using pushbit_room [OF assms] pushbit_bits [OF assms]
  by (auto simp: grows_def word_le_nat_alt)

lemma encode_loop_grows: "encode_loop rs = Some (ret, rs') \<Longrightarrow> grows rs rs'"
proof (induction rule: encode_loop_induct)
  case (step rs pp' ret rs')
  then show ?case using grows_shifted grows_trans by blast
qed (auto simp: grows_def)

lemma encode_loop_interval:
  "encode_loop rs = Some (ret, rs') \<Longrightarrow> ret = 0 \<Longrightarrow> interval (rp rs) (rq rs) \<Longrightarrow>
   interval (rp rs') (rq rs') \<and> \<not> settled (rp rs') (rq rs')"
  by (induction rule: encode_loop_induct) (auto simp: interval_shift)

lemma encode_loop_total:
  "pp_ok (rpp rs) \<Longrightarrow> \<exists>ret rs'. encode_loop rs = Some (ret, rs')"
proof (induction rs rule: encode_loop.induct)
  case (1 rs)
  let ?b = "rq rs AND UPPER_BIT_RUBIN \<noteq> 0"
  show ?case
  proof (cases "settled (rp rs) (rq rs)")
    case True
    show ?thesis
    proof (rule pushbit_cases [OF "1.prems", of ?b False])
      assume "pushbit (rpp rs) ?b False = Some (- ENOSPC, rpp rs)"
      then show ?thesis using True by (subst encode_loop.simps) (simp add: ENOSPC_def)
    next
      fix pp' assume push: "pushbit (rpp rs) ?b False = Some (0, pp')"
      have "pp_ok (rpp (shifted rs pp'))" using grows_pp_ok [OF grows_shifted [OF push] "1.prems"] .
      then show ?thesis
        using "1.IH" [OF True push refl] True push by (subst encode_loop.simps) simp
    qed
  qed (subst encode_loop.simps, simp)
qed

text \<open>
  A buffer \<open>fb\<close> that continues the bits of a state and whose next sixteen bits lie in its
  interval: what the finished stream looks like from an earlier state.
\<close>

definition continues :: "buffer \<Rightarrow> rubin_state \<Rightarrow> bool" where
  "continues fb rs \<longleftrightarrow> (\<forall>i < offset rs. buf_bit fb i = buf_bit (bytes rs) i) \<and>
     inside (win fb (offset rs)) (rp rs) (rq rs) \<and> offset rs + 16 \<le> 8 * length fb \<and>
     8 * length fb < 2 ^ 32"

lemma continues_shifted:
  assumes push: "pushbit (rpp rs) (rq rs AND UPPER_BIT_RUBIN \<noteq> 0) False = Some (0, pp')"
    and "settled (rp rs) (rq rs)" "interval (rp rs) (rq rs)" "continues fb (shifted rs pp')"
  shows "continues fb rs"
proof -
  have o: "unat (ofs pp') = Suc (offset rs)" using pushbit_room(3) [OF push] .
  have "buf_bit fb (offset rs) \<longleftrightarrow> 2 ^ 15 \<le> unat (rq rs)"
    using assms(4) o pushbit_bits(3) [OF push, of "offset rs"] top_bit(1) [OF assms(3)]
    by (simp add: continues_def)
  moreover have "inside (win fb (Suc (offset rs))) (push_bit 1 (rp rs)) (shift_q (rq rs))"
    using assms(4) o by (simp add: continues_def)
  ultimately have "inside (win fb (offset rs)) (rp rs) (rq rs)"
    using assms(2,3) inside_shift by blast
  then show ?thesis
    using assms(4) o pushbit_bits(3) [OF push] by (auto simp: continues_def)
qed

lemma encode_loop_continues:
  "encode_loop rs = Some (ret, rs') \<Longrightarrow> ret = 0 \<Longrightarrow> interval (rp rs) (rq rs) \<Longrightarrow> continues fb rs' \<Longrightarrow> continues fb rs"
proof (induction rule: encode_loop_induct)
  case (step rs pp' ret rs')
  then have "continues fb (shifted rs pp')" by (simp add: interval_shift)
  then show ?case using continues_shifted step by blast
qed auto

lemma split_parts:
  assumes "interval p q" "\<not> settled p q" "rubin_split A B p = Some i0"
  shows "1 \<le> unat i0" "unat i0 < unat p" "unat (p - i0) = unat p - unat i0" "unat (q + i0) = unat q + unat i0"
proof -
  show b: "1 \<le> unat i0" "unat i0 < unat p"
    using rubin_split_bounds [OF not_settled_wide [OF assms(1,2)] assms(3)] .
  show "unat (p - i0) = unat p - unat i0" using b by (subst unat_sub) (simp_all add: word_le_nat_alt)
  show "unat (q + i0) = unat q + unat i0"
    using assms(1) b by (subst unat_add_lem [THEN iffD1]) (auto simp: interval_def)
qed

lemma encode_cases:
  assumes "encode rs A B s = Some (ret, rs')"
  obtains (full) "encode_loop rs = Some (ret, rs')" "ret \<noteq> 0"
  | (ok) rs1 i0 where "ret = 0" "encode_loop rs = Some (0, rs1)" "rubin_split A B (rp rs1) = Some i0"
      "rs' = (if \<not> s then rs1\<lparr>rp := i0\<rparr> else rs1\<lparr>rp := rp rs1 - i0, rq := rq rs1 + i0\<rparr>)"
  using assms by (auto simp: encode_def split: bind_splits if_splits)

lemma encode_grows:
  assumes "encode rs A B s = Some (ret, rs')"
  shows "grows rs rs'"
  using assms
proof (cases rule: encode_cases)
  case (ok rs1 i0)
  have "grows rs1 rs'" using ok(4) by (simp add: grows_def)
  then show ?thesis using encode_loop_grows [OF ok(2)] grows_trans by blast
qed (rule encode_loop_grows)

lemma encode_sound:
  assumes "encode rs A B s = Some (0, rs')" "interval (rp rs) (rq rs)"
  shows "interval (rp rs') (rq rs')" "continues fb rs' \<Longrightarrow> continues fb rs"
proof -
  obtain rs1 i0 where ok: "encode_loop rs = Some (0, rs1)" "rubin_split A B (rp rs1) = Some i0"
      "rs' = (if \<not> s then rs1\<lparr>rp := i0\<rparr> else rs1\<lparr>rp := rp rs1 - i0, rq := rq rs1 + i0\<rparr>)"
    using assms(1) by (cases rule: encode_cases) auto
  have 1: "interval (rp rs1) (rq rs1)" "\<not> settled (rp rs1) (rq rs1)"
    using encode_loop_interval [OF ok(1) refl assms(2)] by auto
  note i0 = split_parts [OF 1 ok(2)]
  show "interval (rp rs') (rq rs')"
    using 1(1) i0 ok(3) by (auto simp: interval_def)
  assume "continues fb rs'"
  then have "continues fb rs1"
    using i0 ok(3) by (auto simp: continues_def inside_def split: if_splits)
  then show "continues fb rs" using encode_loop_continues [OF ok(1) refl assms(2)] by blast
qed

lemma encode_total:
  assumes "pp_ok (rpp rs)" "of_int (A + B) \<noteq> (0 :: u32)"
  shows "\<exists>ret rs'. encode rs A B s = Some (ret, rs')"
proof -
  obtain ret rs1 where "encode_loop rs = Some (ret, rs1)" using encode_loop_total [OF assms(1)] by blast
  then show ?thesis using assms(2) by (simp add: encode_def rubin_split_def Let_def)
qed

section \<open>The decoder follows\<close>

lemma encode_loop_norm:
  "encode_loop rs = Some (ret, rs') \<Longrightarrow> ret = 0 \<Longrightarrow> settled (rp rs) (rq rs) \<Longrightarrow>
   offset rs < offset rs' \<and> do_decode_norm (rp rs) (rq rs) b = Some (rp rs', rq rs', b + (offset rs' - offset rs))"
proof (induction arbitrary: b rule: encode_loop_induct)
  case (step rs pp' ret rs')
  have o: "unat (ofs pp') = Suc (offset rs)" using pushbit_room(3) [OF step(2)] .
  show ?case
  proof (cases "settled (push_bit 1 (rp rs)) (shift_q (rq rs))")
    case True
    then show ?thesis
      using step.IH [of "Suc b"] step.prems(1) o by (subst do_decode_norm.simps) (auto simp: Let_def)
  next
    case False
    then have "rs' = shifted rs pp'" using step(3) by (subst (asm) encode_loop.simps) simp
    then show ?thesis using False o by (subst do_decode_norm.simps) (simp add: Let_def)
  qed
qed auto

lemma unat_of_bool [simp]: "unat (of_bool b :: 'a::len word) = of_bool b"
  by (cases b) simp_all

lemma do_decode_pull_window:
  assumes "unat r = win (pp_buf pp) i" "unat (ofs pp) = i + 16" "i + 16 + n \<le> 8 * length (pp_buf pp)"
    "8 * length (pp_buf pp) < 2 ^ 32"
  shows "\<exists>r' o'. do_decode_pull n pp r = Some (pp\<lparr>ofs := o'\<rparr>, r') \<and>
    unat r' = win (pp_buf pp) (i + n) \<and> unat o' = i + n + 16"
  using assms
proof (induction n arbitrary: pp r i)
  case (Suc n)
  let ?pp = "pp\<lparr>ofs := ofs pp + 1\<rparr>" and ?c = "of_bool (buf_bit (pp_buf pp) (i + 16)) :: u32"
  have pull: "pullbit pp = Some (?c, ?pp)" using pullbit_bits [of pp] Suc.prems(2,3) by simp
  have o: "unat (ofs pp + 1) = Suc i + 16"
    using Suc.prems(2,3,4) by (subst unat_add_lem [THEN iffD1]) auto
  have "unat (shift_q r) + unat ?c < 2 ^ 32"
    using shift_q_less [of r] by (simp add: of_bool_def)
  then have "unat (shift_q r + ?c) = win (pp_buf pp) (Suc i)"
    using Suc.prems(1) win_step(2) [of "pp_buf pp" i]
    by (subst unat_add_lem [THEN iffD1]) (auto simp: shift_q_nat)
  then have "\<exists>r' o'. do_decode_pull n ?pp (shift_q r + ?c) = Some (?pp\<lparr>ofs := o'\<rparr>, r') \<and>
      unat r' = win (pp_buf ?pp) (Suc i + n) \<and> unat o' = Suc i + n + 16"
    using Suc.prems o by (intro Suc.IH) auto
  then show ?case using pull by simp
next
  case (0 pp r i)
  then show ?case by (intro exI [of _ r] exI [of _ "ofs pp"]) simp
qed

text \<open>The decoder \<open>ds\<close> has read the window that follows the bits of the encoder \<open>rs\<close>.\<close>

definition tracks :: "buffer \<Rightarrow> rubin_state \<Rightarrow> rubin_state \<Rightarrow> bool" where
  "tracks fb rs ds \<longleftrightarrow> rp ds = rp rs \<and> rq ds = rq rs \<and> rbits ds = rbits rs \<and>
     bit_divider ds = bit_divider rs \<and> bytes ds = fb \<and>
     unat (rec_q ds) = win fb (offset rs) \<and> offset ds = offset rs + 16"

lemma tracks_loop:
  assumes "encode_loop rs = Some (0, rs1)" "continues fb rs1" "tracks fb rs ds"
  shows "\<exists>ds1. (if settled (rp ds) (rq ds) then do_decode ds (rp ds) (rq ds) else Some ds) = Some ds1 \<and> tracks fb rs1 ds1"
proof (cases "settled (rp rs) (rq rs)")
  case True
  note g = encode_loop_grows [OF assms(1)]
  note norm = encode_loop_norm [OF assms(1) refl True, of 0]
  obtain r' o' where pull: "do_decode_pull (offset rs1 - offset rs) (rpp ds) (rec_q ds) = Some ((rpp ds)\<lparr>ofs := o'\<rparr>, r')"
      "unat r' = win fb (offset rs1)" "unat o' = offset rs1 + 16"
    using do_decode_pull_window [of "rec_q ds" "rpp ds" "offset rs" "offset rs1 - offset rs"] norm assms(2,3)
    by (auto simp: tracks_def continues_def)
  then show ?thesis
    using True norm g assms(3) by (auto simp: do_decode_def tracks_def grows_def)
next
  case False
  then have "rs1 = rs" using assms(1) by (subst (asm) encode_loop.simps) simp
  then show ?thesis using False assms(3) by (auto simp: tracks_def)
qed

lemma decode_tracks:
  assumes "encode rs A B s = Some (0, rs')" "interval (rp rs) (rq rs)" "continues fb rs'" "tracks fb rs ds"
  shows "\<exists>ds'. decode ds A B = Some (s, ds') \<and> tracks fb rs' ds'"
  using assms(1)
proof (cases rule: encode_cases)
  case (ok rs1 i0)
  have 1: "interval (rp rs1) (rq rs1)" "\<not> settled (rp rs1) (rq rs1)"
    using encode_loop_interval [OF ok(2) refl assms(2)] by auto
  note i0 = split_parts [OF 1 ok(3)]
  have "continues fb rs1"
    using assms(3) i0 ok(4) by (auto simp: continues_def inside_def split: if_splits)
  then obtain ds1 where ds1: "(if settled (rp ds) (rq ds) then do_decode ds (rp ds) (rq ds) else Some ds) = Some ds1"
      "tracks fb rs1 ds1"
    using tracks_loop [OF ok(2) _ assms(4)] by blast
  have "rq rs1 + i0 \<le> rec_q ds1 \<longleftrightarrow> s"
    using assms(3) ds1(2) ok(4) i0 by (auto simp: word_le_nat_alt continues_def inside_def tracks_def split: if_splits)
  then show ?thesis
    using ds1 ok(3,4) by (auto simp: decode_def tracks_def)
qed simp

section \<open>Bytes\<close>

lemma out_byte_loop_cases:
  assumes "out_byte_loop i byte rs = Some (ret, rs')"
  obtains (stop) "\<not> i < 8" "ret = 0" "rs' = rs"
  | (full) "i < 8" "ret \<noteq> 0"
      "encode rs (bit_divider rs - rbits rs ! i) (rbits rs ! i) (byte AND 1 \<noteq> 0) = Some (ret, rs')"
  | (step) rs1 where "i < 8"
      "encode rs (bit_divider rs - rbits rs ! i) (rbits rs ! i) (byte AND 1 \<noteq> 0) = Some (0, rs1)"
      "out_byte_loop (Suc i) (drop_bit 1 byte) rs1 = Some (ret, rs')"
proof (cases "i < 8")
  case True
  then obtain r rs1 where "encode rs (bit_divider rs - rbits rs ! i) (rbits rs ! i) (byte AND 1 \<noteq> 0) = Some (r, rs1)"
      "(if r \<noteq> 0 then Some (r, rs1) else out_byte_loop (Suc i) (drop_bit 1 byte) rs1) = Some (ret, rs')"
    using assms by (subst (asm) out_byte_loop.simps) (auto simp del: drop_bit_Suc split: bind_splits)
  then show thesis using True full step by (cases "r = 0") auto
next
  case False
  then show thesis using assms stop by (subst (asm) out_byte_loop.simps) auto
qed

lemma out_byte_loop_grows: "out_byte_loop i byte rs = Some (ret, rs') \<Longrightarrow> grows rs rs'"
proof (induction "8 - i" arbitrary: i byte rs)
  case 0
  from 0(2) show ?case by (cases rule: out_byte_loop_cases) (use 0(1) in auto)
next
  case (Suc n)
  from Suc(3) show ?case
  proof (cases rule: out_byte_loop_cases)
    case (step rs1)
    have "n = 8 - Suc i" using Suc(2) by simp
    then have "grows rs1 rs'" using Suc(1) step(3) by blast
    then show ?thesis using encode_grows [OF step(2)] grows_trans by blast
  qed (auto intro: encode_grows)
qed

lemma out_byte_loop_total:
  assumes "pp_ok (rpp rs)" "of_int (bit_divider rs) \<noteq> (0 :: u32)"
  shows "\<exists>ret rs'. out_byte_loop i byte rs = Some (ret, rs')"
  using assms
proof (induction "8 - i" arbitrary: i byte rs)
  case 0
  then show ?case by (subst out_byte_loop.simps) simp
next
  case (Suc n)
  obtain r rs1 where e: "encode rs (bit_divider rs - rbits rs ! i) (rbits rs ! i) (byte AND 1 \<noteq> 0) = Some (r, rs1)"
    using encode_total [OF Suc.prems(1), of "bit_divider rs - rbits rs ! i" "rbits rs ! i" "byte AND 1 \<noteq> 0"]
      Suc.prems(2) by auto
  note g = encode_grows [OF e]
  have "n = 8 - Suc i" "pp_ok (rpp rs1)" "of_int (bit_divider rs1) \<noteq> (0 :: u32)"
    using Suc.hyps(2) Suc.prems(2) grows_pp_ok [OF g Suc.prems(1)] g by (auto simp: grows_def)
  then have "\<exists>ret rs'. out_byte_loop (Suc i) (drop_bit 1 byte) rs1 = Some (ret, rs')" using Suc.hyps(1) by blast
  then show ?case using e by (subst out_byte_loop.simps) auto
qed

lemma byte_front:
  fixes byte :: u8
  assumes "i < 8"
  shows "push_bit i (ucast (take_bit (8 - i) byte)) =
    (push_bit i (of_bool (byte AND 1 \<noteq> 0)) OR push_bit (Suc i) (ucast (take_bit (8 - Suc i) (drop_bit 1 byte))) :: u32)"
proof -
  have "byte AND 1 \<noteq> 0 \<longleftrightarrow> bit byte 0" using and_2p_ne_0 [of byte 0] by simp
  then have "bit (push_bit i (ucast (take_bit (8 - i) byte)) :: u32) n \<longleftrightarrow>
      bit (push_bit i (of_bool (byte AND 1 \<noteq> 0)) OR push_bit (Suc i) (ucast (take_bit (8 - Suc i) (drop_bit 1 byte))) :: u32) n"
    for n
    using assms by (cases n i rule: linorder_cases)
      (auto simp: bit_simps Suc_diff_Suc simp del: push_bit_Suc drop_bit_Suc)
  then show ?thesis by (intro bit_word_eqI)
qed

lemma out_byte_loop_sound:
  assumes "out_byte_loop i byte rs = Some (0, rs')" "interval (rp rs) (rq rs)"
  shows "interval (rp rs') (rq rs') \<and> (continues fb rs' \<longrightarrow> continues fb rs) \<and>
    (continues fb rs' \<longrightarrow> tracks fb rs ds \<longrightarrow>
      (\<exists>ds'. in_byte_loop i r (bit_divider rs) ds = Some (r OR push_bit i (ucast (take_bit (8 - i) byte)), ds') \<and>
         tracks fb rs' ds'))"
  using assms
proof (induction "8 - i" arbitrary: i byte rs r ds)
  case 0
  from 0(2) show ?case
    by (cases rule: out_byte_loop_cases) (use 0(1,3) in \<open>auto simp: in_byte_loop.simps\<close>)
next
  case (Suc n)
  from Suc(3) show ?case
  proof (cases rule: out_byte_loop_cases)
    case (step rs1)
    let ?A = "bit_divider rs - rbits rs ! i" and ?B = "rbits rs ! i" and ?s = "byte AND 1 \<noteq> 0"
    have n: "n = 8 - Suc i" using Suc(2) by simp
    note snd = encode_sound [OF step(2) Suc(4)] and g = encode_grows [OF step(2)]
    note IH = Suc(1) [OF n step(3) snd(1)]
    have "\<exists>ds'. in_byte_loop i r (bit_divider rs) ds = Some (r OR push_bit i (ucast (take_bit (8 - i) byte)), ds') \<and>
        tracks fb rs' ds'" if fb: "continues fb rs'" and ds: "tracks fb rs ds"
    proof -
      obtain ds1 where ds1: "decode ds ?A ?B = Some (?s, ds1)" "tracks fb rs1 ds1"
        using decode_tracks [OF step(2) Suc(4) _ ds] IH fb by blast
      moreover have "rbits ds = rbits rs" using ds by (simp add: tracks_def)
      moreover have "bit_divider rs1 = bit_divider rs" using g by (simp add: grows_def)
      ultimately show ?thesis
        using IH [of ds1 "r OR push_bit i (of_bool ?s)"] fb step(1) byte_front [OF step(1), of byte]
        by (subst in_byte_loop.simps) (auto simp: or.assoc simp del: drop_bit_Suc push_bit_Suc)
    qed
    then show ?thesis using IH snd(2) by blast
  qed (use Suc(2) in auto)
qed

lemma out_byte_sound:
  assumes "out_byte rs byte = Some (0, rs')" "interval (rp rs) (rq rs)"
  shows "grows rs rs'" "interval (rp rs') (rq rs')" "continues fb rs' \<Longrightarrow> continues fb rs"
    "continues fb rs' \<Longrightarrow> tracks fb rs ds \<Longrightarrow> \<exists>ds'. in_byte ds = Some (ucast byte, ds') \<and> tracks fb rs' ds'"
proof -
  have loop: "out_byte_loop 0 byte rs = Some (0, rs')"
    using assms(1) by (auto simp: out_byte_def split: bind_splits if_splits)
  note snd = out_byte_loop_sound [OF loop assms(2)]
  show "grows rs rs'" using out_byte_loop_grows [OF loop] .
  show "interval (rp rs') (rq rs')" using snd by blast
  show "continues fb rs' \<Longrightarrow> continues fb rs" using snd by blast
  have whole: "take_bit 8 byte = byte" by (intro bit_word_eqI) (auto simp: bit_simps)
  show "\<exists>ds'. in_byte ds = Some (ucast byte, ds') \<and> tracks fb rs' ds'" if "continues fb rs'" "tracks fb rs ds"
  proof -
    have "bit_divider ds = bit_divider rs" using that(2) by (simp add: tracks_def)
    then show ?thesis using snd [of fb ds 0] that whole by (simp add: in_byte_def)
  qed
qed

lemma out_byte_full:
  assumes "out_byte rs byte = Some (ret, rs')" "ret \<noteq> 0"
  shows "grows rs rs'" "rp rs' = rp rs" "rq rs' = rq rs" "offset rs' = offset rs"
proof -
  obtain rs1 where loop: "out_byte_loop 0 byte rs = Some (ret, rs1)"
      and rs': "rs' = rs\<lparr>rpp := (rpp rs)\<lparr>pp_buf := bytes rs1\<rparr>\<rparr>"
    using assms by (auto simp: out_byte_def split: bind_splits if_splits)
  show "grows rs rs'" using out_byte_loop_grows [OF loop] rs' by (simp add: grows_def)
  show "rp rs' = rp rs" "rq rs' = rq rs" "offset rs' = offset rs" using rs' by simp_all
qed

lemma out_byte_total:
  assumes "pp_ok (rpp rs)" "of_int (bit_divider rs) \<noteq> (0 :: u32)"
  obtains ret rs' where "out_byte rs byte = Some (ret, rs')"
proof -
  obtain ret rs1 where "out_byte_loop 0 byte rs = Some (ret, rs1)" using out_byte_loop_total [OF assms] by blast
  then show thesis using that by (cases "ret = 0") (auto simp: out_byte_def)
qed

section \<open>Buffers\<close>

lemma byte_back: "ucast (ucast (v :: u8) :: u32) = v"
  by (intro bit_word_eqI) (simp add: bit_simps)

lemma continues_cong:
  assumes "grows rs rs'" "rp rs' = rp rs" "rq rs' = rq rs" "offset rs' = offset rs"
  shows "continues fb rs' \<longleftrightarrow> continues fb rs"
  using assms by (simp add: continues_def grows_def)

lemma rubin_compress_cases:
  assumes "rubin_compress_loop data s pos rs = Some (pos', rs')"
  obtains (stop) "\<not> pos < unat s" "pos' = pos" "rs' = rs"
  | (full) ret where "pos < unat s" "pos < length data" "out_byte rs (data ! pos) = Some (ret, rs')" "ret \<noteq> 0" "pos' = pos"
  | (step) rs1 where "pos < unat s" "pos < length data" "out_byte rs (data ! pos) = Some (0, rs1)"
      "rubin_compress_loop data s (Suc pos) rs1 = Some (pos', rs')"
proof (cases "pos < unat s")
  case True
  then obtain r rs1 where c: "pos < length data" "out_byte rs (data ! pos) = Some (r, rs1)"
      "(if r \<noteq> 0 then Some (pos, rs1) else rubin_compress_loop data s (Suc pos) rs1) = Some (pos', rs')"
    using assms by (subst (asm) rubin_compress_loop.simps) (auto simp: load_def bind_eq_Some_conv split: if_splits)
  show thesis
  proof (cases "r = 0")
    case r: True
    show thesis using c(3) by (intro step [OF True c(1) c(2) [unfolded r]]) (simp add: r)
  next
    case False
    have "pos' = pos" "rs1 = rs'" using c(3) False by simp_all
    then show thesis using full [OF True c(1) _ False] c(2) by simp
  qed
next
  case False
  then have "rubin_compress_loop data s pos rs = Some (pos, rs)" by (subst rubin_compress_loop.simps) simp
  then show thesis using assms stop [OF False] by simp
qed

lemma rubin_decompress_stop: "unat d = outpos \<Longrightarrow> rubin_decompress_loop d page outpos rs = Some page"
  by (subst rubin_decompress_loop.simps) simp

lemma rubin_compress_loop_sound:
  assumes "rubin_compress_loop data s pos rs = Some (pos', rs')" "interval (rp rs) (rq rs)" "pos \<le> unat s"
  shows "grows rs rs' \<and> interval (rp rs') (rq rs') \<and> pos \<le> pos' \<and> pos' \<le> unat s \<and> (continues fb rs' \<longrightarrow> continues fb rs) \<and>
    (continues fb rs' \<longrightarrow> tracks fb rs ds \<longrightarrow> unat d = pos' \<longrightarrow> pos' \<le> length out \<longrightarrow>
       rubin_decompress_loop d (filled data pos out) pos ds = Some (filled data pos' out))"
  using assms
proof (induction "unat s - pos" arbitrary: pos rs ds)
  case 0
  from 0(2) show ?case
    by (cases rule: rubin_compress_cases) (use 0(1,3,4) in \<open>auto simp: rubin_decompress_stop\<close>)
next
  case (Suc n)
  from Suc(3) show ?case
  proof (cases rule: rubin_compress_cases)
    case (full ret)
    note f = out_byte_full [OF full(3,4)]
    show ?thesis using f continues_cong [OF f] Suc(4,5) full(5) by (auto simp: rubin_decompress_stop)
  next
    case (step rs1)
    note o = out_byte_sound [OF step(3) Suc(4)]
    have n: "n = unat s - Suc pos" "Suc pos \<le> unat s" using Suc(2) step(1) by simp_all
    note IH = Suc(1) [OF n(1) step(4) o(2) n(2)]
    have "rubin_decompress_loop d (filled data pos out) pos ds = Some (filled data pos' out)"
      if h: "continues fb rs'" "tracks fb rs ds" "unat d = pos'" "pos' \<le> length out"
    proof -
      obtain ds1 where ds1: "in_byte ds = Some (ucast (data ! pos), ds1)" "tracks fb rs1 ds1"
        using o(4) [OF _ h(2)] IH h(1) by blast
      have "pos < pos'" using IH by (meson Suc_le_lessD)
      then show ?thesis
        using IH [of ds1] ds1 h step(2) by (subst rubin_decompress_loop.simps) (simp add: filled_update byte_back)
    qed
    then show ?thesis using IH o(1,3) grows_trans Suc_leD by blast
  qed (use Suc(2) in auto)
qed

lemma rubin_compress_loop_total:
  assumes "pp_ok (rpp rs)" "of_int (bit_divider rs) \<noteq> (0 :: u32)" "unat s \<le> length data" "interval (rp rs) (rq rs)"
  shows "\<exists>pos' rs'. rubin_compress_loop data s pos rs = Some (pos', rs')"
  using assms
proof (induction "unat s - pos" arbitrary: pos rs)
  case 0
  then show ?case by (subst rubin_compress_loop.simps) simp
next
  case (Suc n)
  obtain ret rs1 where o: "out_byte rs (data ! pos) = Some (ret, rs1)"
    using out_byte_total [OF Suc.prems(1,2)] by blast
  show ?case
  proof (cases "ret = 0")
    case True
    note snd = out_byte_sound [OF o [unfolded True] Suc.prems(4)]
    have "\<exists>pos' rs'. rubin_compress_loop data s (Suc pos) rs1 = Some (pos', rs')"
      using Suc.hyps(2) Suc.prems grows_pp_ok [OF snd(1)] snd by (intro Suc.hyps(1)) (auto simp: grows_def)
    then show ?thesis using o True Suc.prems(3) by (subst rubin_compress_loop.simps) simp
  next
    case False
    then show ?thesis using o Suc.prems(3) by (subst rubin_compress_loop.simps) simp
  qed
qed

lemma div_shift_parts:
  fixes q :: nat
  assumes "Suc n \<le> 16"
  shows "(q div 2 ^ 15) * 2 ^ n + 2 * (q mod 2 ^ 15) div 2 ^ (16 - n) = q div 2 ^ (16 - Suc n)"
proof -
  define k where "k = 15 - n"
  have k: "16 - n = Suc k" "16 - Suc n = k" "(2 :: nat) ^ 15 = 2 ^ n * 2 ^ k"
    using assms by (auto simp: k_def power_add [symmetric])
  have "q div 2 ^ k = (q mod 2 ^ 15 + (q div 2 ^ 15) * 2 ^ n * 2 ^ k) div 2 ^ k"
    by (metis k(3) mod_mult_div_eq mult.assoc mult.commute)
  also have "\<dots> = q mod 2 ^ 15 div 2 ^ k + (q div 2 ^ 15) * 2 ^ n" by simp
  finally show ?thesis unfolding k(1,2) by simp
qed

text \<open>The flush writes the sixteen bits of \<open>q\<close>.\<close>

lemma end_loop_bits:
  assumes "pp_ok (rpp rs)" "offset rs + n \<le> unat (buflen (rpp rs))" "unat (rq rs) < 2 ^ 16" "n \<le> 16"
  shows "\<exists>rs'. end_loop n rs = Some rs' \<and> offset rs' = offset rs + n \<and> length (bytes rs') = length (bytes rs) \<and>
    (\<forall>i < offset rs. buf_bit (bytes rs') i = buf_bit (bytes rs) i) \<and>
    bits_val (bytes rs') (offset rs) n = unat (rq rs) div 2 ^ (16 - n)"
  using assms
proof (induction n arbitrary: rs)
  case (Suc n)
  let ?b = "UPPER_BIT_RUBIN AND rq rs \<noteq> 0"
  have b: "?b \<longleftrightarrow> 2 ^ 15 \<le> unat (rq rs)"
    using top_bit(2) [of 1 "rq rs"] Suc.prems(3) by (simp add: interval_def)
  obtain pp' where push: "pushbit (rpp rs) ?b True = Some (0, pp')"
    using pushbit_cases [OF Suc.prems(1), of ?b True] Suc.prems(2) by (auto simp: word_le_nat_alt)
  note pb = pushbit_bits [OF push] and room = pushbit_room [OF push]
  define rs1 where "rs1 = rs\<lparr>rpp := pp', rq := shift_q (rq rs)\<rparr>"
  have "pp_ok (rpp rs1)" "offset rs1 + n \<le> unat (buflen (rpp rs1))" "unat (rq rs1) < 2 ^ 16" "n \<le> 16"
    using Suc.prems pb(1) room shift_q_less [of "rq rs"] by (auto simp: pp_ok_def rs1_def)
  then obtain rs' where rs': "end_loop n rs1 = Some rs'" "offset rs' = offset rs1 + n"
      "length (bytes rs') = length (bytes rs1)" "\<forall>i < offset rs1. buf_bit (bytes rs') i = buf_bit (bytes rs1) i"
      "bits_val (bytes rs') (offset rs1) n = unat (rq rs1) div 2 ^ (16 - n)"
    using Suc.IH by blast
  have "unat (rq rs) div 2 ^ 15 = of_bool ?b"
    unfolding b using Suc.prems(3) by (simp add: of_bool_def, linarith)
  moreover have "buf_bit (bytes rs') (offset rs) = ?b"
    using rs'(4) pb(3) room(3) by (simp add: rs1_def)
  ultimately have "bits_val (bytes rs') (offset rs) (Suc n) = unat (rq rs) div 2 ^ (16 - Suc n)"
    using div_shift_parts [OF Suc.prems(4), of "unat (rq rs)"] rs'(5) room(3)
    by (simp only: bits_val_front) (simp add: rs1_def shift_q_nat)
  moreover have "\<forall>i < offset rs. buf_bit (bytes rs') i = buf_bit (bytes rs) i"
    using rs'(4) pb(3) room(3) by (simp add: rs1_def)
  ultimately show ?case
    using push rs' pb(1) room(3) by (simp add: rs1_def)
qed simp


section \<open>The contract\<close>

lemma init_decode_bits:
  assumes "n \<le> 16" "i + n \<le> 8 * length (bytes ds)" "8 * length (bytes ds) < 2 ^ 32" "offset ds = i"
    "unat (rec_q ds) = bits_val (bytes ds) j m" "i = j + m" "m + n \<le> 16"
  shows "\<exists>ds'. init_decode_loop n ds = Some ds' \<and> rp ds' = rp ds \<and> rq ds' = rq ds \<and> rbits ds' = rbits ds \<and>
    bit_divider ds' = bit_divider ds \<and> bytes ds' = bytes ds \<and> offset ds' = i + n \<and>
    unat (rec_q ds') = bits_val (bytes ds) j (m + n)"
  using assms
proof (induction n arbitrary: ds i m)
  case (Suc n)
  let ?c = "of_bool (buf_bit (bytes ds) i) :: u32"
  let ?ds = "ds\<lparr>bit_number := bit_number ds + 1, rpp := (rpp ds)\<lparr>ofs := ofs (rpp ds) + 1\<rparr>, rec_q := rec_q ds * 2 + ?c\<rparr>"
  have pull: "pullbit (rpp ds) = Some (?c, (rpp ds)\<lparr>ofs := ofs (rpp ds) + 1\<rparr>)"
    using pullbit_bits [of "rpp ds"] Suc.prems(2,4) by simp
  have "unat (ofs (rpp ds) + 1) = Suc i"
    using Suc.prems(2,3,4) by (subst unat_add_lem [THEN iffD1]) auto
  then have o: "offset ?ds = Suc i" by simp
  have "(2 :: nat) ^ m \<le> 2 ^ 15" using Suc.prems(7) by (intro power_increasing) auto
  then have small: "unat (rec_q ds) < 2 ^ 15" using Suc.prems(5) bits_val_less [of "bytes ds" j m] by linarith
  then have "unat (rec_q ds * 2) = 2 * unat (rec_q ds)"
    by (subst unat_mult_lem [THEN iffD1]) auto
  then have "unat (rec_q ds * 2 + ?c) = 2 * unat (rec_q ds) + of_bool (buf_bit (bytes ds) i)"
    using small by (subst unat_add_lem [THEN iffD1]) (auto simp: of_bool_def)
  then have "unat (rec_q ?ds) = bits_val (bytes ?ds) j (Suc m)" using Suc.prems(5,6) by simp
  then have "\<exists>ds'. init_decode_loop n ?ds = Some ds' \<and> rp ds' = rp ?ds \<and> rq ds' = rq ?ds \<and> rbits ds' = rbits ?ds \<and>
      bit_divider ds' = bit_divider ?ds \<and> bytes ds' = bytes ?ds \<and> offset ds' = Suc i + n \<and>
      unat (rec_q ds') = bits_val (bytes ?ds) j (Suc m + n)"
    using Suc.prems o by (intro Suc.IH) auto
  then show ?case using pull by simp
qed simp

lemma init_decode_tracks:
  assumes "continues fb rs" "offset rs = 0" "rp rs = 2 * UPPER_BIT_RUBIN" "rq rs = 0" "rbits rs = map (\<lambda>c. bits ! c) [0..<8]"
    "bit_divider rs = d"
  shows "\<exists>ds. init_decode (junk\<lparr>rpp := init_pushpull fb n 0 0\<rparr>) d bits = Some ds \<and> tracks fb rs ds"
proof -
  define ds where "ds = (init_rubin (junk\<lparr>rpp := init_pushpull fb n 0 0\<rparr>) d bits)\<lparr>rec_q := 0, bit_number := 0\<rparr>"
  have "16 \<le> 8 * length fb" "8 * length fb < 2 ^ 32" using assms(1,2) by (auto simp: continues_def)
  then have "\<exists>ds'. init_decode_loop 16 ds = Some ds' \<and> rp ds' = rp ds \<and> rq ds' = rq ds \<and> rbits ds' = rbits ds \<and>
      bit_divider ds' = bit_divider ds \<and> bytes ds' = bytes ds \<and> offset ds' = 0 + 16 \<and>
      unat (rec_q ds') = bits_val (bytes ds) 0 (0 + 16)"
    by (intro init_decode_bits) (auto simp: ds_def init_rubin_def init_pushpull_def)
  then show ?thesis
    using assms by (auto simp: init_decode_def ds_def RUBIN_REG_SIZE_def init_rubin_def init_pushpull_def tracks_def win_def)
qed

lemma buf_bit_take: "i < 8 * m \<Longrightarrow> buf_bit (take m b) i = buf_bit b i"
  unfolding buf_bit_def by (subst nth_take) auto

lemma end_rubin_continues:
  assumes "end_rubin rs = Some rs'" "pp_ok (rpp rs)" "interval (rp rs) (rq rs)"
    "offset rs + 16 \<le> unat (buflen (rpp rs))" "m = (offset rs' + 7) div 8" "m < 2 ^ 28"
  shows "continues (take m (bytes rs')) rs" "offset rs' = offset rs + 16" "length (bytes rs') = length (bytes rs)"
proof -
  have q: "unat (rq rs) < 2 ^ 16" using assms(3) by (simp add: interval_def)
  have e: "offset rs' = offset rs + 16" "length (bytes rs') = length (bytes rs)"
      "\<forall>i < offset rs. buf_bit (bytes rs') i = buf_bit (bytes rs) i" "win (bytes rs') (offset rs) = unat (rq rs)"
    using end_loop_bits [OF assms(2,4) q] assms(1) by (auto simp: end_rubin_def RUBIN_REG_SIZE_def win_def)
  show "offset rs' = offset rs + 16" "length (bytes rs') = length (bytes rs)" using e by auto
  have m: "offset rs + 16 \<le> 8 * m" using assms(5) e(1) by linarith
  have "offset rs + 16 \<le> 8 * length (bytes rs)" using assms(2,4) by (simp add: pp_ok_def)
  then have len: "offset rs + 16 \<le> 8 * length (take m (bytes rs'))" "8 * length (take m (bytes rs')) < 2 ^ 32"
    using m e(2) assms(6) by auto
  have "win (take m (bytes rs')) (offset rs) = win (bytes rs') (offset rs)"
    unfolding win_def using m by (intro bits_val_cong buf_bit_take) auto
  then show "continues (take m (bytes rs')) rs"
    using e m len assms(3) by (auto simp: continues_def inside_def interval_def buf_bit_take)
qed

lemma rubin_contract:
  assumes "codec_args data cpage n m" "4 \<le> unat m" "of_int d \<noteq> (0 :: u32)"
  shows "\<exists>r. rubin_do_compress junk d bits data cpage n m = Some r \<and>
    codec_result (rubin_do_decompress junk' d bits) data (length cpage) n m r"
proof -
  define rs where "rs = init_rubin (junk\<lparr>rpp := init_pushpull cpage (m * 8) 0 32\<rparr>) d bits"
  have m8: "unat (m * 8) = unat m * 8"
    using assms(1) by (subst unat_mult_lem [THEN iffD1]) (auto simp: codec_args_def)
  have lim: "unat (m * 8 - 32) = unat m * 8 - 32"
    using assms(2) m8 by (subst unat_sub) (auto simp: word_le_nat_alt)
  have rs: "pp_ok (rpp rs)" "of_int (bit_divider rs) \<noteq> (0 :: u32)" "interval (rp rs) (rq rs)"
    using assms m8 by (auto simp: rs_def init_rubin_def init_pushpull_def pp_ok_def codec_args_def interval_def rubin_regs)
  obtain pos rs1 where loop: "rubin_compress_loop data n 0 rs = Some (pos, rs1)"
    using rubin_compress_loop_total [OF rs(1,2) _ rs(3)] assms(1) unfolding codec_args_def by blast
  note snd = rubin_compress_loop_sound [OF loop rs(3)]
  have g: "grows rs rs1" and iv: "interval (rp rs1) (rq rs1)" and pos: "pos \<le> unat n" using snd by auto
  have ok1: "pp_ok (rpp rs1)" using grows_pp_ok [OF g rs(1)] .
  have o1: "offset rs1 + 32 \<le> unat m * 8" "buflen (rpp rs1) = m * 8" "length (bytes rs1) = length cpage"
    using g lim assms(2) by (auto simp: grows_def rs_def init_rubin_def init_pushpull_def)
  have "unat (rq rs1) < 2 ^ 16" using iv by (simp add: interval_def)
  then obtain rs2 where e: "end_rubin rs1 = Some rs2" "offset rs2 = offset rs1 + 16"
    using end_loop_bits [OF ok1, of 16] o1 m8 by (auto simp: end_rubin_def RUBIN_REG_SIZE_def)
  define k where "k = (offset rs2 + 7) div 8"
  have k: "k \<le> unat m" using e(2) o1(1) unfolding k_def by linarith
  have m28: "unat m < 2 ^ 28" using assms(1) by (simp add: codec_args_def)
  have "unat (ofs (rpp rs2) + 7) = offset rs2 + 7"
    using e(2) o1(1) m28 by (subst unat_add_lem [THEN iffD1]) auto
  then have out: "unat ((pushedbits (rpp rs2) + 7) div 8) = k" by (simp add: pushedbits_def k_def unat_div)
  have u: "unat (of_nat k :: u32) = k" "unat (of_nat pos :: u32) = pos"
    using k pos m28 assms(1) by (auto simp: unat_of_nat codec_args_def)
  have c: "continues (take k (bytes rs2)) rs1" "length (bytes rs2) = length cpage"
    using end_rubin_continues [OF e(1) ok1 iv _ k_def] o1 m8 k m28 by auto
  have c0: "continues (take k (bytes rs2)) rs" using snd c(1) by auto
  have start: "offset rs = 0" "rp rs = 2 * UPPER_BIT_RUBIN" "rq rs = 0" "rbits rs = map (\<lambda>c. bits ! c) [0..<8]"
      "bit_divider rs = d"
    by (simp_all add: rs_def init_rubin_def init_pushpull_def)
  have "expands (rubin_do_decompress junk' d bits) data (bytes rs2) (of_nat pos) (of_nat k)"
  proof -
    obtain ds where ds: "init_decode (junk'\<lparr>rpp := init_pushpull (take k (bytes rs2)) (of_nat k) 0 0\<rparr>) d bits = Some ds"
        "tracks (take k (bytes rs2)) rs ds"
      using init_decode_tracks [OF c0 start] by blast
    then show ?thesis
      using snd [of "take k (bytes rs2)" ds "of_nat pos"] c(1) u by (simp add: expands_def rubin_do_decompress_def)
  qed
  then show ?thesis
    using loop e(1) out c(2) u k pos
    by (auto simp: rubin_do_compress_def rs_def [symmetric] codec_result_def word_le_nat_alt word_less_nat_alt)
qed

section \<open>The dynamic coder\<close>

lemma store_all_Some:
  "i + length vs \<le> length b \<Longrightarrow> store_all vs i b = Some (take i b @ vs @ drop (i + length vs) b)"
proof (induction vs arbitrary: i b)
  case (Cons v vs)
  then have "store_all vs (Suc i) (b[i := v]) =
      Some (take (Suc i) (b[i := v]) @ vs @ drop (Suc i + length vs) (b[i := v]))"
    by (intro Cons.IH) simp
  moreover have "take (Suc i) (b[i := v]) = take i b @ [v]"
    using Cons.prems by (simp add: take_Suc_conv_app_nth)
  ultimately show ?case using Cons.prems by simp
qed simp

lemma histo_total: "unat n \<le> length data \<Longrightarrow> \<exists>h'. histo_loop data n i h = Some h'"
proof (induction "unat n - i" arbitrary: i h)
  case 0
  then show ?case by (subst histo_loop.simps) simp
next
  case (Suc k)
  then have "\<exists>h'. histo_loop data n (Suc i) (h(data ! i := h (data ! i) + 1)) = Some h'" by (intro Suc.hyps(1)) auto
  then show ?case using Suc.prems Suc.hyps(2) by (subst histo_loop.simps) simp
qed

lemma sint_small: "uint (w :: u32) < 2 ^ 31 \<Longrightarrow> sint w = uint w"
proof -
  assume "uint w < 2 ^ 31"
  moreover have "- (2 ^ 31) \<le> uint w" by (rule order_trans [OF _ uint_ge_0]) simp
  ultimately have "signed_take_bit 31 (uint w) = uint w" by (intro signed_take_bit_int_eq_self)
  then show ?thesis by (simp add: sint_uint)
qed

lemma scale_bit_range: "0 \<le> b \<Longrightarrow> b * 256 < 2 ^ 31 \<Longrightarrow> 1 \<le> scale_bit n b \<and> scale_bit n b \<le> 255"
proof -
  assume b: "0 \<le> b" "b * 256 < 2 ^ 31"
  let ?w = "of_int (b * 256) :: u32"
  have u: "uint ?w = b * 256" using b by (simp only: uint_word_of_int) simp
  have "unat (?w div n) \<le> unat ?w" unfolding unat_div by (rule div_le_dividend)
  then have "uint (?w div n) \<le> b * 256" using u by (simp only: uint_nat)
  then have "uint (?w div n) < 2 ^ 31" using b(2) by linarith
  then have "sint (?w div n) = uint (?w div n)" by (rule sint_small)
  then show ?thesis using uint_ge_0 [of "?w div n"] by (auto simp: scale_bit_def Let_def int_one_le_iff_zero_less le_less)
qed

lemma add_bits_range:
  assumes "length bits = 8" "\<forall>k < 8. 0 \<le> bits ! k \<and> bits ! k \<le> c"
  shows "length (fold (add_bits h) xs bits) = 8 \<and>
    (\<forall>k < 8. 0 \<le> fold (add_bits h) xs bits ! k \<and> fold (add_bits h) xs bits ! k \<le> c + 255 * int (length xs))"
  using assms
proof (induction xs arbitrary: bits c)
  case (Cons x xs)
  have "0 \<le> uint (h (of_nat x)) \<and> uint (h (of_nat x)) \<le> 255"
    using unsigned_less [of "h (of_nat x)", where 'a = int] by simp
  then have "length (add_bits h x bits) = 8" "\<forall>k < 8. 0 \<le> add_bits h x bits ! k \<and> add_bits h x bits ! k \<le> c + 255"
    using Cons.prems by (auto simp: add_bits_def intro: add_increasing2 order_trans)
  then show ?case using Cons.IH [of "add_bits h x bits" "c + 255"] by (auto simp: algebra_simps)
qed simp

lemma dyn_bits_range: "length (dyn_bits h n) = 8" "b \<in> set (dyn_bits h n) \<Longrightarrow> 1 \<le> b \<and> b \<le> 255"
proof -
  define xs :: "nat list" where "xs = [0..<256]"
  have "length xs = 256" unfolding xs_def length_upt by simp
  let ?raw = "fold (add_bits h) xs (replicate 8 0)"
  have d: "dyn_bits h n = map (scale_bit n) ?raw" unfolding dyn_bits_def xs_def ..
  have raw: "length ?raw = 8 \<and> (\<forall>k < 8. 0 \<le> ?raw ! k \<and> ?raw ! k \<le> 0 + 255 * int (length xs))"
    by (rule add_bits_range) auto
  then show "length (dyn_bits h n) = 8" unfolding d by simp
  assume "b \<in> set (dyn_bits h n)"
  then obtain k where k: "k < 8" "b = scale_bit n (?raw ! k)"
    using raw unfolding d in_set_conv_nth by auto
  have "0 \<le> ?raw ! k" "?raw ! k \<le> 65280" using raw k(1) \<open>length xs = 256\<close> by auto
  then show "1 \<le> b \<and> b \<le> 255" unfolding k(2) by (intro scale_bit_range) auto
qed

lemma bytes_of_bits: "\<forall>b \<in> set bits. 0 \<le> b \<and> b \<le> 255 \<Longrightarrow> map uint (map of_int bits :: u8 list) = bits"
  by (induction bits) (simp_all add: uint_word_of_int)

lemma dynrubin_expands:
  assumes "expands (rubin_do_decompress junk 256 bits) data c n m" "length bits = 8"
    "\<forall>b \<in> set bits. 0 \<le> b \<and> b \<le> 255" "unat m < 2 ^ 28"
  shows "expands (dynrubin_decompress junk) data (map of_int bits @ c) n (m + 8)"
proof -
  have u: "unat (m + 8) = 8 + unat m" using assms(4) by (subst unat_add_lem [THEN iffD1]) auto
  have "take (unat (m + 8)) (map of_int bits @ c) = map of_int bits @ take (unat m) c"
    using assms(2) by (simp add: u)
  then show ?thesis
    using assms(1,2) bytes_of_bits [OF assms(3)] by (simp add: expands_def dynrubin_decompress_def)
qed

lemma dynrubin_contract:
  assumes "codec_args data cpage n m" "n \<noteq> 0"
  shows "\<exists>r. dynrubin_compress junk data cpage n m = Some r \<and>
    codec_result (dynrubin_decompress junk') data (length cpage) n m r"
proof (cases "m \<le> 12")
  case True
  then show ?thesis by (simp add: dynrubin_compress_def codec_result_def)
next
  case False
  then have m: "12 < unat m" by (simp add: word_le_nat_alt)
  have m8: "unat (m - 8) = unat m - 8" using m by (subst unat_sub) (auto simp: word_le_nat_alt)
  obtain h where h: "histo_loop data n 0 (\<lambda>_. 0) = Some h" using histo_total assms(1) unfolding codec_args_def by blast
  let ?bits = "dyn_bits h n" and ?rest = "drop 8 cpage"
  let ?pre = "map of_int ?bits :: u8 list"
  note bits = dyn_bits_range [where h = h and n = n]
  have range: "\<forall>b \<in> set ?bits. 0 \<le> b \<and> b \<le> 255" using bits(2) by force
  have st: "store_all ?pre 0 cpage = Some (?pre @ ?rest)"
    using store_all_Some [of 0 ?pre cpage] assms(1) m bits(1) by (simp add: codec_args_def)
  have "codec_args data ?rest n (m - 8)" "4 \<le> unat (m - 8)" using assms(1) m m8 by (auto simp: codec_args_def)
  then obtain ret c n' m' where r: "rubin_do_compress junk 256 ?bits data ?rest n (m - 8) = Some (ret, c, n', m')"
      "codec_result (rubin_do_decompress junk' 256 ?bits) data (length ?rest) n (m - 8) (ret, c, n', m')"
    using rubin_contract [of data ?rest n "m - 8" 256 junk ?bits junk'] by auto
  have eval: "dynrubin_compress junk data cpage n m =
      (if ret \<noteq> 0 then Some (ret, ?pre @ c, n, m)
       else if n' \<le> m' + 8 then Some (- 1, ?pre @ c, n, m) else Some (0, ?pre @ c, n', m' + 8))"
    using False assms(2) h st r(1) bits(1) by (simp add: dynrubin_compress_def)
  have len: "length (?pre @ c) = length cpage" using r(2) bits(1) assms(1) m by (simp add: codec_result_def codec_args_def)
  show ?thesis
  proof (cases "ret = 0 \<and> \<not> n' \<le> m' + 8")
    case True
    then have ok: "n' \<le> n" "m' \<le> m - 8" "expands (rubin_do_decompress junk' 256 ?bits) data c n' m'"
      using r(2) by (auto simp: codec_result_def)
    have le: "unat m' + 8 \<le> unat m" using ok(2) m m8 by (simp add: word_le_nat_alt)
    then have m28: "unat m' < 2 ^ 28" using assms(1) by (simp add: codec_args_def)
    then have "unat (m' + 8) = unat m' + 8" by (subst unat_add_lem [THEN iffD1]) auto
    then have "m' + 8 \<le> m" using le by (simp add: word_le_nat_alt)
    then show ?thesis
      using True eval len ok(1) dynrubin_expands [OF ok(3) bits(1) range m28] by (simp add: codec_result_def not_le)
  qed (use eval len in \<open>auto simp: codec_result_def\<close>)
qed

interpretation dynrubin: codec "dynrubin_compress junk" "dynrubin_decompress junk'" "\<lambda>n m. n \<noteq> 0" for junk junk'
  by unfold_locales (rule dynrubin_contract)

end
