(* ===== verification/Jffs2_Compr.thy ===== *)
theory Jffs2_Compr
  imports Jffs2_Rtime Jffs2_Rubin
begin

text \<open>
  The compressor of JFFS2, \<^verbatim>\<open>fs/jffs2/compr.c\<close>: the choice between the compressors when
  writing and the dispatch on the stored type when reading.  The deflate pair
  \<^verbatim>\<open>zlib_compress\<close> and \<^verbatim>\<open>zlib_decompress\<close>, which wraps the zlib library, is an argument.
\<close>

definition JFFS2_COMPR_NONE :: u8 where "JFFS2_COMPR_NONE = 0x00"
definition JFFS2_COMPR_ZERO :: u8 where "JFFS2_COMPR_ZERO = 0x01"
definition JFFS2_COMPR_RTIME :: u8 where "JFFS2_COMPR_RTIME = 0x02"
definition JFFS2_COMPR_RUBINMIPS :: u8 where "JFFS2_COMPR_RUBINMIPS = 0x03"
definition JFFS2_COMPR_DYNRUBIN :: u8 where "JFFS2_COMPR_DYNRUBIN = 0x05"
definition JFFS2_COMPR_ZLIB :: u8 where "JFFS2_COMPR_ZLIB = 0x06"

lemmas compr_types = JFFS2_COMPR_NONE_def JFFS2_COMPR_ZERO_def JFFS2_COMPR_RTIME_def
  JFFS2_COMPR_RUBINMIPS_def JFFS2_COMPR_DYNRUBIN_def JFFS2_COMPR_ZLIB_def

definition jffs2_compress ::
  "compressor \<Rightarrow> buffer \<Rightarrow> buffer \<Rightarrow> u32 \<Rightarrow> u32 \<Rightarrow> (u8 \<times> buffer \<times> u32 \<times> u32) option" where
  "jffs2_compress zlib_compress data_in cpage_out datalen cdatalen = do {
     (ret, cpage_out, datalen, cdatalen) \<leftarrow> zlib_compress data_in cpage_out datalen cdatalen;
     if ret = 0 then Some (JFFS2_COMPR_ZLIB, cpage_out, datalen, cdatalen)
     else do {
       (ret, cpage_out, datalen, cdatalen) \<leftarrow> rtime_compress data_in cpage_out datalen cdatalen;
       if ret = 0 then Some (JFFS2_COMPR_RTIME, cpage_out, datalen, cdatalen)
       else Some (JFFS2_COMPR_NONE, cpage_out, datalen, cdatalen)
     }
   }"

definition EIO :: int where "EIO = 5"

text \<open>The return code and the output buffer.\<close>

definition jffs2_decompress ::
  "expander \<Rightarrow> rubin_state \<Rightarrow> u8 \<Rightarrow> buffer \<Rightarrow> buffer \<Rightarrow> u32 \<Rightarrow> u32 \<Rightarrow> (int \<times> buffer) option" where
  "jffs2_decompress zlib_decompress rs comprtype cdata_in data_out cdatalen datalen =
     (let n = unat datalen in
      if comprtype = JFFS2_COMPR_NONE then
        if n \<le> length cdata_in \<and> n \<le> length data_out then Some (0, take n cdata_in @ drop n data_out) else None
      else if comprtype = JFFS2_COMPR_ZERO then
        if n \<le> length data_out then Some (0, replicate n 0 @ drop n data_out) else None
      else if comprtype = JFFS2_COMPR_ZLIB then
        map_option (Pair 0) (zlib_decompress cdata_in data_out cdatalen datalen)
      else if comprtype = JFFS2_COMPR_RTIME then
        map_option (Pair 0) (rtime_decompress cdata_in data_out cdatalen datalen)
      else if comprtype = JFFS2_COMPR_RUBINMIPS then Some (0, data_out)
      else if comprtype = JFFS2_COMPR_DYNRUBIN then
        map_option (Pair 0) (dynrubin_decompress rs cdata_in data_out cdatalen datalen)
      else Some (- EIO, data_out))"

section \<open>Properties\<close>

text \<open>
  The \<open>rtime\<close> compressor, on any data and with room for at least two bytes, stays inside
  its buffers and keeps the contract of a compressor: when it reports success, expanding the
  bytes it produced gives back exactly the bytes it says it compressed, and they were fewer.
\<close>

theorem rtime_roundtrip:
  assumes "codec_args data cpage n m" "2 \<le> unat m"
  shows "\<exists>r. rtime_compress data cpage n m = Some r \<and> codec_result rtime_decompress data (length cpage) n m r"
  using assms by (rule rtime.contract)

theorem rtime_roundtrip_witness:
  "codec_result rtime_decompress (replicate 40 7) 40 40 40 (the (rtime_compress (replicate 40 7) (replicate 40 0) 40 40)) \<and>
   rtime_compress (replicate 40 7) (replicate 40 0) 40 40 = Some (0, 7 # 39 # replicate 38 0, 40, 2)"
proof
  show "codec_result rtime_decompress (replicate 40 7) 40 40 40 (the (rtime_compress (replicate 40 7) (replicate 40 0) 40 40))"
    using rtime_roundtrip [of "replicate 40 7" "replicate 40 0" 40 40] by (auto simp: codec_args_def)
  show "rtime_compress (replicate 40 7) (replicate 40 0) 40 40 = Some (0, 7 # 39 # replicate 38 0, 40, 2)"
    by code_simp
qed

text \<open>
  C5: the arithmetic coder with the probabilities of the data in front, \<^verbatim>\<open>dynrubin\<close>, keeps
  the same contract on any data that is not empty: encoding, flushing and decoding the bits are
  inverse to each other, also when the output buffer fills up in the middle of a byte and the
  coder takes that byte back.  The decoder's search for the number of bits to read always ends.
\<close>

theorem dynrubin_roundtrip:
  assumes "codec_args data cpage n m" "n \<noteq> 0"
  shows "\<exists>r. dynrubin_compress junk data cpage n m = Some r \<and>
    codec_result (dynrubin_decompress junk') data (length cpage) n m r"
  using assms by (rule dynrubin.contract)

definition junk_rubin :: rubin_state where
  "junk_rubin = \<lparr>rp = 0, rq = 0, rec_q = 0, bit_number = 0, rpp = init_pushpull [] 0 0 0, bit_divider = 0, rbits = []\<rparr>"

theorem dynrubin_roundtrip_witness:
  "(\<exists>r. dynrubin_compress junk_rubin (replicate 20 0) (replicate 20 0) 20 20 = Some r \<and>
    codec_result (dynrubin_decompress junk_rubin) (replicate 20 0) 20 20 20 r) \<and>
   map_option fst (rubin_do_compress junk_rubin 256 (replicate 8 1) (replicate 5 0) (replicate 5 0) 5 5) = Some 0"
proof -
  have "codec_args (replicate 20 0) (replicate 20 0) 20 20" "(20 :: u32) \<noteq> 0" by (simp_all add: codec_args_def)
  from dynrubin_roundtrip [OF this, of junk_rubin junk_rubin]
  have "\<exists>r. dynrubin_compress junk_rubin (replicate 20 0) (replicate 20 0) 20 20 = Some r \<and>
      codec_result (dynrubin_decompress junk_rubin) (replicate 20 0) 20 20 20 r" by (simp only: length_replicate)
  moreover have "map_option fst (rubin_do_compress junk_rubin 256 (replicate 8 1) (replicate 5 0) (replicate 5 0) 5 5) = Some 0"
    by code_simp
  ultimately show ?thesis ..
qed


definition zlib_declines :: compressor where
  "zlib_declines data_in cpage_out sourcelen dstlen = Some (- 1, cpage_out, sourcelen, dstlen)"



end
