(* ===== verification/Creds.thy ===== *)
theory Creds
  imports Prelude
begin

unbundle bit_operations_syntax

text \<open>
  The credentials of a process: the \<^verbatim>\<open>set*id\<close> system calls of \<^verbatim>\<open>kernel/sys.c\<close>,
  \<^verbatim>\<open>kernel/capability.c\<close> on the calling process, and the user cache of \<^verbatim>\<open>kernel/user.c\<close>.
  The fields of the \<^verbatim>\<open>task_struct\<close> that these functions read and write are a record; a call
  takes the state before to the return value and the state after.
\<close>

section \<open>The task\<close>

type_synonym uid_t = u32
type_synonym cap_t = u32

record cred =
  uid :: uid_t
  euid :: uid_t
  suid :: uid_t
  fsuid :: uid_t
  gid :: uid_t
  egid :: uid_t
  sgid :: uid_t
  fsgid :: uid_t
  groups :: "uid_t list"
  cap_effective :: cap_t
  cap_inheritable :: cap_t
  cap_permitted :: cap_t
  keep_capabilities :: bool
  dumpable :: bool
  flags :: u32
  user :: uid_t

definition EPERM :: int where "EPERM = 1"
definition EAGAIN :: int where "EAGAIN = 11"
definition EINVAL :: int where "EINVAL = 22"

section \<open>Capabilities\<close>

definition CAP_FS_MASK :: cap_t where "CAP_FS_MASK = 0x1f"
definition CAP_SETGID :: nat where "CAP_SETGID = 6"
definition CAP_SETUID :: nat where "CAP_SETUID = 7"
definition PF_SUPERPRIV :: u32 where "PF_SUPERPRIV = 0x100"

definition CAP_TO_MASK :: "nat \<Rightarrow> cap_t" where "CAP_TO_MASK x = push_bit x 1"
definition cap_raised :: "cap_t \<Rightarrow> nat \<Rightarrow> bool" where "cap_raised c flag \<longleftrightarrow> c AND CAP_TO_MASK flag \<noteq> 0"
definition cap_combine :: "cap_t \<Rightarrow> cap_t \<Rightarrow> cap_t" where "cap_combine a b = a OR b"
definition cap_issubset :: "cap_t \<Rightarrow> cap_t \<Rightarrow> bool" where "cap_issubset a s \<longleftrightarrow> a AND NOT s = 0"

definition capable :: "nat \<Rightarrow> cred \<Rightarrow> bool \<times> cred" where
  "capable cap t =
     (if cap_raised (cap_effective t) cap then (True, t\<lparr>flags := flags t OR PF_SUPERPRIV\<rparr>) else (False, t))"

text \<open>\<^verbatim>\<open>c || capable(cap)\<close>: the capability is only asked for when the condition fails.\<close>

definition or_capable :: "bool \<Rightarrow> nat \<Rightarrow> cred \<Rightarrow> bool \<times> cred" where
  "or_capable c cap t = (if c then (True, t) else capable cap t)"

definition SECURE_NO_SETUID_FIXUP :: nat where "SECURE_NO_SETUID_FIXUP = 2"

definition SECUREBITS_DEFAULT :: u32 where "SECUREBITS_DEFAULT = 0"

definition issecure :: "u32 \<Rightarrow> nat \<Rightarrow> bool" where
  "issecure securebits X \<longleftrightarrow>
     (if push_bit (X + 1) 1 AND SECUREBITS_DEFAULT \<noteq> 0 then push_bit X 1 AND SECUREBITS_DEFAULT
      else push_bit X 1 AND securebits) \<noteq> 0"

section \<open>Group identities\<close>

definition undumpable_if :: "bool \<Rightarrow> cred \<Rightarrow> cred" where
  "undumpable_if c t = (if c then t\<lparr>dumpable := False\<rparr> else t)"

definition sys_setregid :: "uid_t \<Rightarrow> uid_t \<Rightarrow> cred \<Rightarrow> int \<times> cred" where
  "sys_setregid rg eg t =
     (let old_rgid = gid t; old_egid = egid t;
          (ok, t) = or_capable (rg = - 1 \<or> old_rgid = rg \<or> egid t = rg) CAP_SETGID t in
      if \<not> ok then (- EPERM, t)
      else let new_rgid = (if rg \<noteq> - 1 then rg else old_rgid);
               (ok, t) = or_capable (eg = - 1 \<or> old_rgid = eg \<or> egid t = eg \<or> sgid t = eg) CAP_SETGID t in
        if \<not> ok then (- EPERM, t)
        else let new_egid = (if eg \<noteq> - 1 then eg else old_egid);
                 t = undumpable_if (new_egid \<noteq> old_egid) t;
                 t = (if rg \<noteq> - 1 \<or> eg \<noteq> - 1 \<and> eg \<noteq> old_rgid then t\<lparr>sgid := new_egid\<rparr> else t) in
          (0, t\<lparr>fsgid := new_egid, egid := new_egid, gid := new_rgid\<rparr>))"

definition sys_setgid :: "uid_t \<Rightarrow> cred \<Rightarrow> int \<times> cred" where
  "sys_setgid g t =
     (let old_egid = egid t; (cap, t) = capable CAP_SETGID t in
      if cap then
        (0, (undumpable_if (old_egid \<noteq> g) t)\<lparr>fsgid := g, sgid := g, egid := g, gid := g\<rparr>)
      else if g = gid t \<or> g = sgid t then
        (0, (undumpable_if (old_egid \<noteq> g) t)\<lparr>fsgid := g, egid := g\<rparr>)
      else (- EPERM, t))"

text \<open>The check of one argument of \<^verbatim>\<open>setresuid\<close> and \<^verbatim>\<open>setresgid\<close>.\<close>

definition one_of :: "uid_t \<Rightarrow> uid_t \<Rightarrow> uid_t \<Rightarrow> uid_t \<Rightarrow> bool" where
  "one_of x a b c \<longleftrightarrow> x = - 1 \<or> x = a \<or> x = b \<or> x = c"

definition sys_setresgid :: "uid_t \<Rightarrow> uid_t \<Rightarrow> uid_t \<Rightarrow> cred \<Rightarrow> int \<times> cred" where
  "sys_setresgid rg eg sg t =
     (let (cap, t) = capable CAP_SETGID t in
      if \<not> cap \<and> \<not> one_of rg (gid t) (egid t) (sgid t) then (- EPERM, t)
      else if \<not> cap \<and> \<not> one_of eg (gid t) (egid t) (sgid t) then (- EPERM, t)
      else if \<not> cap \<and> \<not> one_of sg (gid t) (egid t) (sgid t) then (- EPERM, t)
      else let t = (if eg \<noteq> - 1 then (undumpable_if (eg \<noteq> egid t) t)\<lparr>egid := eg\<rparr> else t);
               t = t\<lparr>fsgid := egid t\<rparr>;
               t = (if rg \<noteq> - 1 then t\<lparr>gid := rg\<rparr> else t) in
        (0, if sg \<noteq> - 1 then t\<lparr>sgid := sg\<rparr> else t))"

definition sys_setfsgid :: "uid_t \<Rightarrow> cred \<Rightarrow> int \<times> cred" where
  "sys_setfsgid g t =
     (let old_fsgid = fsgid t;
          (ok, t) = or_capable (g = gid t \<or> g = egid t \<or> g = sgid t \<or> g = fsgid t) CAP_SETGID t in
      (sint old_fsgid, if ok then (undumpable_if (g \<noteq> old_fsgid) t)\<lparr>fsgid := g\<rparr> else t))"

definition NGROUPS :: nat where "NGROUPS = 32"

text \<open>The groups argument is what \<^verbatim>\<open>copy_from_user\<close> copies; the copy succeeds.\<close>

definition sys_setgroups :: "uid_t list \<Rightarrow> cred \<Rightarrow> int \<times> cred" where
  "sys_setgroups grouplist t =
     (let (cap, t) = capable CAP_SETGID t in
      if \<not> cap then (- EPERM, t)
      else if NGROUPS < length grouplist then (- EINVAL, t)
      else (0, t\<lparr>groups := grouplist\<rparr>))"

fun supplemental_group_member :: "uid_t list \<Rightarrow> uid_t \<Rightarrow> bool" where
  "supplemental_group_member [] grp = False"
| "supplemental_group_member (g # gs) grp = (g = grp \<or> supplemental_group_member gs grp)"

definition in_group_p :: "uid_t \<Rightarrow> cred \<Rightarrow> bool" where
  "in_group_p grp t = (grp = fsgid t \<or> supplemental_group_member (groups t) grp)"

definition in_egroup_p :: "uid_t \<Rightarrow> cred \<Rightarrow> bool" where
  "in_egroup_p grp t = (grp = egid t \<or> supplemental_group_member (groups t) grp)"

section \<open>The user cache\<close>

text \<open>
  A hash table of chains; a pointer to a user structure is the identity it stands for, which
  occurs once in the table.  The structure of root is in the table from the start.
\<close>

record user_struct =
  us_uid :: uid_t
  us_count :: int
  us_processes :: int

type_synonym uidhash = "uid_t \<Rightarrow> user_struct list"

definition uidhashfn :: "uid_t \<Rightarrow> uid_t" where
  "uidhashfn u = (drop_bit 8 u XOR u) AND 255"

definition uid_hash_insert :: "user_struct \<Rightarrow> uid_t \<Rightarrow> uidhash \<Rightarrow> uidhash" where
  "uid_hash_insert up e h = h(e := up # h e)"

fun uid_hash_remove :: "uid_t \<Rightarrow> user_struct list \<Rightarrow> user_struct list" where
  "uid_hash_remove u [] = []"
| "uid_hash_remove u (up # ups) = (if us_uid up = u then ups else up # uid_hash_remove u ups)"

text \<open>The chain with the count of the entry found raised, or nothing.\<close>

fun uid_hash_find :: "uid_t \<Rightarrow> user_struct list \<Rightarrow> user_struct list option" where
  "uid_hash_find u [] = None"
| "uid_hash_find u (up # ups) =
     (if us_uid up \<noteq> u then map_option (Cons up) (uid_hash_find u ups)
      else Some (up\<lparr>us_count := us_count up + 1\<rparr> # ups))"

definition on_user :: "uid_t \<Rightarrow> (user_struct \<Rightarrow> user_struct) \<Rightarrow> uidhash \<Rightarrow> uidhash" where
  "on_user u f h = h(uidhashfn u := map (\<lambda>up. if us_uid up = u then f up else up) (h (uidhashfn u)))"

definition free_uid :: "uid_t \<Rightarrow> uidhash \<Rightarrow> uidhash" where
  "free_uid u h =
     (let h = on_user u (\<lambda>up. up\<lparr>us_count := us_count up - 1\<rparr>) h in
      if \<exists>up \<in> set (h (uidhashfn u)). us_uid up = u \<and> us_count up = 0
      then h(uidhashfn u := uid_hash_remove u (h (uidhashfn u))) else h)"

text \<open>\<open>mem\<close> says whether the slab allocation succeeds.\<close>

definition alloc_uid :: "bool \<Rightarrow> uid_t \<Rightarrow> uidhash \<Rightarrow> bool \<times> uidhash" where
  "alloc_uid mem u h =
     (case uid_hash_find u (h (uidhashfn u)) of
        Some chain \<Rightarrow> (True, h(uidhashfn u := chain))
      | None \<Rightarrow>
          if \<not> mem then (False, h)
          else (True, uid_hash_insert \<lparr>us_uid = u, us_count = 1, us_processes = 0\<rparr> (uidhashfn u) h))"

section \<open>User identities\<close>

type_synonym kstate = "uidhash \<times> cred"

definition set_user :: "bool \<Rightarrow> uid_t \<Rightarrow> bool \<Rightarrow> kstate \<Rightarrow> int \<times> kstate" where
  "set_user mem new_ruid dumpclear = (\<lambda>(h, t).
     let (ok, h) = alloc_uid mem new_ruid h in
     if \<not> ok then (- EAGAIN, (h, t))
     else let old_user = user t;
              h = on_user old_user (\<lambda>up. up\<lparr>us_processes := us_processes up - 1\<rparr>) h;
              h = on_user new_ruid (\<lambda>up. up\<lparr>us_processes := us_processes up + 1\<rparr>) h;
              t = (undumpable_if dumpclear t)\<lparr>uid := new_ruid, user := new_ruid\<rparr> in
       (0, (free_uid old_user h, t)))"

definition cap_emulate_setxuid :: "uid_t \<Rightarrow> uid_t \<Rightarrow> uid_t \<Rightarrow> cred \<Rightarrow> cred" where
  "cap_emulate_setxuid old_ruid old_euid old_suid t =
     (let t = (if (old_ruid = 0 \<or> old_euid = 0 \<or> old_suid = 0) \<and>
                 (uid t \<noteq> 0 \<and> euid t \<noteq> 0 \<and> suid t \<noteq> 0) \<and> \<not> keep_capabilities t
               then t\<lparr>cap_permitted := 0, cap_effective := 0\<rparr> else t);
          t = (if old_euid = 0 \<and> euid t \<noteq> 0 then t\<lparr>cap_effective := 0\<rparr> else t) in
      if old_euid \<noteq> 0 \<and> euid t = 0 then t\<lparr>cap_effective := cap_permitted t\<rparr> else t)"

text \<open>The tail of the three calls: the capabilities follow unless the fixup is switched off.\<close>

definition fixup :: "u32 \<Rightarrow> uid_t \<Rightarrow> uid_t \<Rightarrow> uid_t \<Rightarrow> kstate \<Rightarrow> int \<times> kstate" where
  "fixup securebits old_ruid old_euid old_suid = (\<lambda>(h, t).
     (0, (h, if \<not> issecure securebits SECURE_NO_SETUID_FIXUP
             then cap_emulate_setxuid old_ruid old_euid old_suid t else t)))"

definition sys_setreuid :: "u32 \<Rightarrow> bool \<Rightarrow> uid_t \<Rightarrow> uid_t \<Rightarrow> kstate \<Rightarrow> int \<times> kstate" where
  "sys_setreuid securebits mem ru eu = (\<lambda>(h, t).
     let old_ruid = uid t; old_euid = euid t; old_suid = suid t;
         (ok, t) = or_capable (ru = - 1 \<or> old_ruid = ru \<or> euid t = ru) CAP_SETUID t;
         new_ruid = (if ru \<noteq> - 1 then ru else old_ruid) in
     if \<not> ok then (- EPERM, (h, t))
     else let (ok, t) = or_capable (eu = - 1 \<or> old_ruid = eu \<or> euid t = eu \<or> suid t = eu) CAP_SETUID t;
              new_euid = (if eu \<noteq> - 1 then eu else old_euid) in
       if \<not> ok then (- EPERM, (h, t))
       else let (ret, (h, t)) = (if new_ruid \<noteq> old_ruid then set_user mem new_ruid (new_euid \<noteq> old_euid) (h, t)
                                 else (0, (h, t))) in
         if ret < 0 then (- EAGAIN, (h, t))
         else let t = (undumpable_if (new_euid \<noteq> old_euid) t)\<lparr>euid := new_euid, fsuid := new_euid\<rparr>;
                  t = (if ru \<noteq> - 1 \<or> eu \<noteq> - 1 \<and> eu \<noteq> old_ruid then t\<lparr>suid := euid t\<rparr> else t);
                  t = t\<lparr>fsuid := euid t\<rparr> in
           fixup securebits old_ruid old_euid old_suid (h, t))"

definition sys_setuid :: "u32 \<Rightarrow> bool \<Rightarrow> uid_t \<Rightarrow> kstate \<Rightarrow> int \<times> kstate" where
  "sys_setuid securebits mem u = (\<lambda>(h, t).
     let old_euid = euid t; old_ruid = uid t; old_suid = suid t;
         (cap, t) = capable CAP_SETUID t in
     if cap then
       let (ret, (h, t)) = (if u \<noteq> old_ruid then set_user mem u (old_euid \<noteq> u) (h, t) else (0, (h, t))) in
       if ret < 0 then (- EAGAIN, (h, t))
       else fixup securebits old_ruid old_euid old_suid
         (h, (undumpable_if (old_euid \<noteq> u) t)\<lparr>euid := u, fsuid := u, suid := u\<rparr>)
     else if u \<noteq> uid t \<and> u \<noteq> old_suid then (- EPERM, (h, t))
     else fixup securebits old_ruid old_euid old_suid
       (h, (undumpable_if (old_euid \<noteq> u) t)\<lparr>euid := u, fsuid := u, suid := old_suid\<rparr>))"

definition sys_setresuid :: "u32 \<Rightarrow> bool \<Rightarrow> uid_t \<Rightarrow> uid_t \<Rightarrow> uid_t \<Rightarrow> kstate \<Rightarrow> int \<times> kstate" where
  "sys_setresuid securebits mem ru eu su = (\<lambda>(h, t).
     let old_ruid = uid t; old_euid = euid t; old_suid = suid t;
         (cap, t) = capable CAP_SETUID t in
     if \<not> cap \<and> \<not> one_of ru (uid t) (euid t) (suid t) then (- EPERM, (h, t))
     else if \<not> cap \<and> \<not> one_of eu (uid t) (euid t) (suid t) then (- EPERM, (h, t))
     else if \<not> cap \<and> \<not> one_of su (uid t) (euid t) (suid t) then (- EPERM, (h, t))
     else let (ret, (h, t)) = (if ru \<noteq> - 1 \<and> ru \<noteq> uid t then set_user mem ru (eu \<noteq> euid t) (h, t)
                               else (0, (h, t))) in
       if ret < 0 then (- EAGAIN, (h, t))
       else let t = (if eu \<noteq> - 1 then (undumpable_if (eu \<noteq> euid t) t)\<lparr>euid := eu\<rparr> else t);
                t = t\<lparr>fsuid := euid t\<rparr>;
                t = (if su \<noteq> - 1 then t\<lparr>suid := su\<rparr> else t) in
         fixup securebits old_ruid old_euid old_suid (h, t))"

definition sys_setfsuid :: "u32 \<Rightarrow> uid_t \<Rightarrow> cred \<Rightarrow> int \<times> cred" where
  "sys_setfsuid securebits u t =
     (let old_fsuid = fsuid t;
          (ok, t) = or_capable (u = uid t \<or> u = euid t \<or> u = suid t \<or> u = fsuid t) CAP_SETUID t;
          t = (if ok then (undumpable_if (u \<noteq> old_fsuid) t)\<lparr>fsuid := u\<rparr> else t) in
      (sint old_fsuid,
       if \<not> issecure securebits SECURE_NO_SETUID_FIXUP then
         let t = (if old_fsuid = 0 \<and> fsuid t \<noteq> 0
                  then t\<lparr>cap_effective := cap_effective t AND NOT CAP_FS_MASK\<rparr> else t) in
         if old_fsuid \<noteq> 0 \<and> fsuid t = 0
         then t\<lparr>cap_effective := cap_effective t OR (cap_permitted t AND CAP_FS_MASK)\<rparr> else t
       else t))"

text \<open>\<^verbatim>\<open>sys_capset\<close> with the process itself as target.\<close>

definition sys_capset_self :: "cap_t \<Rightarrow> cap_t \<Rightarrow> cap_t \<Rightarrow> cred \<Rightarrow> int \<times> cred" where
  "sys_capset_self effective inheritable permitted t =
     (if \<not> cap_issubset inheritable (cap_combine (cap_inheritable t) (cap_permitted t)) then (- EPERM, t)
      else if \<not> cap_issubset permitted (cap_combine (cap_permitted t) (cap_permitted t)) then (- EPERM, t)
      else if \<not> cap_issubset effective permitted then (- EPERM, t)
      else (0, t\<lparr>cap_effective := effective, cap_inheritable := inheritable, cap_permitted := permitted\<rparr>))"

definition prctl_keepcaps :: "u32 \<Rightarrow> cred \<Rightarrow> int \<times> cred" where
  "prctl_keepcaps arg2 t =
     (if arg2 \<noteq> 0 \<and> arg2 \<noteq> 1 then (- EINVAL, t) else (0, t\<lparr>keep_capabilities := (arg2 \<noteq> 0)\<rparr>))"

section \<open>Runs of calls\<close>

datatype id_call =
    Setregid uid_t uid_t
  | Setgid uid_t
  | Setresgid uid_t uid_t uid_t
  | Setfsgid uid_t
  | Setgroups "uid_t list"
  | Setreuid bool uid_t uid_t
  | Setuid bool uid_t
  | Setresuid bool uid_t uid_t uid_t
  | Setfsuid uid_t
  | Capset cap_t cap_t cap_t
  | Keepcaps u32

fun exec_call :: "u32 \<Rightarrow> id_call \<Rightarrow> kstate \<Rightarrow> kstate" where
  "exec_call sb (Setregid r e) (h, t) = (h, snd (sys_setregid r e t))"
| "exec_call sb (Setgid g) (h, t) = (h, snd (sys_setgid g t))"
| "exec_call sb (Setresgid r e s) (h, t) = (h, snd (sys_setresgid r e s t))"
| "exec_call sb (Setfsgid g) (h, t) = (h, snd (sys_setfsgid g t))"
| "exec_call sb (Setgroups gs) (h, t) = (h, snd (sys_setgroups gs t))"
| "exec_call sb (Setreuid mem r e) k = snd (sys_setreuid sb mem r e k)"
| "exec_call sb (Setuid mem u) k = snd (sys_setuid sb mem u k)"
| "exec_call sb (Setresuid mem r e s) k = snd (sys_setresuid sb mem r e s k)"
| "exec_call sb (Setfsuid u) (h, t) = (h, snd (sys_setfsuid sb u t))"
| "exec_call sb (Capset e i p) (h, t) = (h, snd (sys_capset_self e i p t))"
| "exec_call sb (Keepcaps a) (h, t) = (h, snd (prctl_keepcaps a t))"

section \<open>What an unprivileged process can reach\<close>

lemma cap_issubset_iff: "cap_issubset a b \<longleftrightarrow> (\<forall>n. bit a n \<longrightarrow> bit b n)"
proof -
  have "bit a n \<Longrightarrow> n < 32" for n using bit_imp_le_length [of a n] by simp
  then show ?thesis by (auto simp: cap_issubset_def bit_eq_iff bit_simps)
qed

lemma cap_raised_iff: "cap_raised c n \<longleftrightarrow> bit c n"
  using and_2p_ne_0 [of c n] by (simp add: cap_raised_def CAP_TO_MASK_def push_bit_eq_mult)

lemma cap_subset_rules [simp]:
  "cap_issubset a a" "cap_issubset 0 a" "cap_issubset a b \<Longrightarrow> cap_issubset (a AND NOT c) b"
  "cap_issubset (a OR (b AND c)) b \<longleftrightarrow> cap_issubset a b" "cap_combine a a = a"
  by (auto simp: cap_issubset_iff bit_simps cap_combine_def)

lemma cap_issubset_trans: "cap_issubset a b \<Longrightarrow> cap_issubset b c \<Longrightarrow> cap_issubset a c"
  by (simp add: cap_issubset_iff)

text \<open>
  The identities are within \<open>U\<close> and \<open>G\<close>, the supplementary groups are \<open>gs\<close>, and the
  effective capabilities are within the permitted ones, which are within \<open>P\<close>.
\<close>

definition within :: "uid_t set \<Rightarrow> uid_t set \<Rightarrow> uid_t list \<Rightarrow> cap_t \<Rightarrow> kstate \<Rightarrow> bool" where
  "within U G gs P = (\<lambda>(h, t).
     {uid t, euid t, suid t, fsuid t} \<subseteq> U \<and> {gid t, egid t, sgid t, fsgid t} \<subseteq> G \<and> groups t = gs \<and>
     cap_issubset (cap_effective t) (cap_permitted t) \<and> cap_issubset (cap_permitted t) P)"

definition powerless :: "cap_t \<Rightarrow> bool" where
  "powerless P \<longleftrightarrow> \<not> cap_raised P CAP_SETUID \<and> \<not> cap_raised P CAP_SETGID"

lemma within_not_capable:
  assumes "within U G gs P (h, t)" "powerless P"
  shows "capable CAP_SETUID t = (False, t)" "capable CAP_SETGID t = (False, t)"
  using assms by (auto simp: within_def powerless_def capable_def cap_raised_iff cap_issubset_iff)

lemma undumpable_sel [simp]:
  "uid (undumpable_if c t) = uid t" "euid (undumpable_if c t) = euid t" "suid (undumpable_if c t) = suid t"
  "fsuid (undumpable_if c t) = fsuid t" "gid (undumpable_if c t) = gid t" "egid (undumpable_if c t) = egid t"
  "sgid (undumpable_if c t) = sgid t" "fsgid (undumpable_if c t) = fsgid t" "groups (undumpable_if c t) = groups t"
  "cap_effective (undumpable_if c t) = cap_effective t" "cap_permitted (undumpable_if c t) = cap_permitted t"
  "cap_inheritable (undumpable_if c t) = cap_inheritable t" "keep_capabilities (undumpable_if c t) = keep_capabilities t"
  by (simp_all add: undumpable_if_def)

lemma emulate_sel [simp]:
  "uid (cap_emulate_setxuid r e s t) = uid t" "euid (cap_emulate_setxuid r e s t) = euid t"
  "suid (cap_emulate_setxuid r e s t) = suid t" "fsuid (cap_emulate_setxuid r e s t) = fsuid t"
  "gid (cap_emulate_setxuid r e s t) = gid t" "egid (cap_emulate_setxuid r e s t) = egid t"
  "sgid (cap_emulate_setxuid r e s t) = sgid t" "fsgid (cap_emulate_setxuid r e s t) = fsgid t"
  "groups (cap_emulate_setxuid r e s t) = groups t"
  by (simp_all add: cap_emulate_setxuid_def Let_def)

lemma emulate_caps:
  assumes "cap_issubset (cap_effective t) (cap_permitted t)" "cap_issubset (cap_permitted t) P"
  shows "cap_issubset (cap_effective (cap_emulate_setxuid r e s t)) (cap_permitted (cap_emulate_setxuid r e s t)) \<and>
    cap_issubset (cap_permitted (cap_emulate_setxuid r e s t)) P"
  using assms by (simp add: cap_emulate_setxuid_def Let_def)

lemma within_fixup:
  "within U G gs P (h, t) \<Longrightarrow> within U G gs P (snd (fixup sb r e s (h, t)))"
  using emulate_caps [of t P r e s] by (simp add: within_def fixup_def)

lemma within_set_user:
  "within U G gs P (h, t) \<Longrightarrow> u \<in> U \<Longrightarrow> within U G gs P (snd (set_user mem u d (h, t)))"
  by (auto simp: set_user_def within_def Let_def split: prod.splits)

lemma withinI:
  assumes "within U G gs P (h, t)" "uid t' \<in> U" "euid t' \<in> U" "suid t' \<in> U" "fsuid t' \<in> U"
    "gid t' \<in> G" "egid t' \<in> G" "sgid t' \<in> G" "fsgid t' \<in> G" "groups t' = groups t"
    "cap_effective t' = cap_effective t" "cap_permitted t' = cap_permitted t"
  shows "within U G gs P (h', t')"
  using assms by (simp add: within_def)

lemma within_sel:
  assumes "within U G gs P (h, t)"
  shows "uid t \<in> U" "euid t \<in> U" "suid t \<in> U" "fsuid t \<in> U" "gid t \<in> G" "egid t \<in> G" "sgid t \<in> G" "fsgid t \<in> G"
  using assms by (simp_all add: within_def)

lemma within_setregid:
  assumes w: "within U G gs P (h, t)" and "powerless P"
  shows "within U G gs P (h, snd (sys_setregid r e t))"
proof (cases "(r = - 1 \<or> gid t = r \<or> egid t = r) \<and> (e = - 1 \<or> gid t = e \<or> egid t = e \<or> sgid t = e)")
  case True
  let ?r = "if r \<noteq> - 1 then r else gid t" and ?e = "if e \<noteq> - 1 then e else egid t"
  have "?r \<in> G" "?e \<in> G" using True within_sel [OF w] by auto
  moreover have "snd (sys_setregid r e t) =
      (let u = undumpable_if (?e \<noteq> egid t) t;
           u = (if r \<noteq> - 1 \<or> e \<noteq> - 1 \<and> e \<noteq> gid t then u\<lparr>sgid := ?e\<rparr> else u) in
       u\<lparr>fsgid := ?e, egid := ?e, gid := ?r\<rparr>)"
    using True unfolding sys_setregid_def or_capable_def Let_def by (simp split del: if_split)
  ultimately show ?thesis
    using within_sel [OF w] by (intro withinI [OF w]) (simp_all add: Let_def)
next
  case False
  then show ?thesis
    using w unfolding sys_setregid_def or_capable_def Let_def by (auto simp: within_not_capable [OF assms])
qed

lemma within_setgid:
  assumes w: "within U G gs P (h, t)" and "powerless P"
  shows "within U G gs P (h, snd (sys_setgid g t))" "within U G gs P (h, snd (sys_setfsgid g t))"
    "within U G gs P (h, snd (sys_setgroups l t))"
  using w within_sel [OF w]
  by (auto simp: sys_setgid_def sys_setfsgid_def sys_setgroups_def or_capable_def within_not_capable [OF assms] Let_def
      intro!: withinI [OF w])

lemma within_setresgid:
  assumes w: "within U G gs P (h, t)" and "powerless P"
  shows "within U G gs P (h, snd (sys_setresgid r e s t))"
proof (cases "one_of r (gid t) (egid t) (sgid t) \<and> one_of e (gid t) (egid t) (sgid t) \<and> one_of s (gid t) (egid t) (sgid t)")
  case True
  then have "r \<noteq> - 1 \<Longrightarrow> r \<in> G" "e \<noteq> - 1 \<Longrightarrow> e \<in> G" "s \<noteq> - 1 \<Longrightarrow> s \<in> G"
    using within_sel [OF w] by (auto simp: one_of_def)
  then show ?thesis
    using True within_sel [OF w]
    by (intro withinI [OF w]) (simp_all add: sys_setresgid_def within_not_capable [OF assms] Let_def)
next
  case False
  then show ?thesis using w by (auto simp: sys_setresgid_def within_not_capable [OF assms])
qed

text \<open>The real identity may change inside a call; the rest of the call sees the new state.\<close>

lemma set_user_result:
  assumes "within U G gs P (h, t)" "u \<in> U"
  obtains ret h' t' where "(if c then set_user mem u d (h, t) else (0, (h, t))) = (ret, (h', t'))"
    "within U G gs P (h', t')" "euid t' = euid t" "suid t' = suid t"
proof -
  obtain ret h' t' where k: "(if c then set_user mem u d (h, t) else (0, (h, t))) = (ret, (h', t'))"
    by (metis prod.exhaust)
  have "within U G gs P (h', t')"
    using k assms(1) within_set_user [OF assms, of mem d] by (auto split: if_splits)
  moreover have "euid t' = euid t" "suid t' = suid t"
    using k by (auto simp: set_user_def Let_def split: if_splits prod.splits)
  ultimately show thesis using k that by blast
qed

lemma within_setreuid:
  assumes w: "within U G gs P (h, t)" and "powerless P"
  shows "within U G gs P (snd (sys_setreuid sb mem r e (h, t)))"
proof (cases "(r = - 1 \<or> uid t = r \<or> euid t = r) \<and> (e = - 1 \<or> uid t = e \<or> euid t = e \<or> suid t = e)")
  case True
  let ?r = "if r \<noteq> - 1 then r else uid t" and ?e = "if e \<noteq> - 1 then e else euid t"
  have U: "?r \<in> U" "?e \<in> U" using True within_sel [OF w] by auto
  obtain ret h' t' where k: "(if ?r \<noteq> uid t then set_user mem ?r (?e \<noteq> euid t) (h, t) else (0, (h, t))) = (ret, (h', t'))"
      "within U G gs P (h', t')"
    using set_user_result [OF w U(1)] by metis
  define u where "u = (undumpable_if (?e \<noteq> euid t) t')\<lparr>euid := ?e, fsuid := ?e\<rparr>"
  define v where "v = (if r \<noteq> - 1 \<or> e \<noteq> - 1 \<and> e \<noteq> uid t then u\<lparr>suid := euid u\<rparr> else u)"
  have "snd (sys_setreuid sb mem r e (h, t)) =
      (if ret < 0 then (h', t') else snd (fixup sb (uid t) (euid t) (suid t) (h', v\<lparr>fsuid := euid v\<rparr>)))"
    using True k(1) unfolding sys_setreuid_def or_capable_def Let_def u_def v_def
    by (cases "ret < 0") (simp_all split del: if_split)
  moreover have "within U G gs P (h', v\<lparr>fsuid := euid v\<rparr>)"
    using within_sel [OF k(2)] U by (intro withinI [OF k(2)]) (simp_all add: u_def v_def)
  ultimately show ?thesis using k(2) within_fixup by simp
next
  case False
  then show ?thesis
    using w unfolding sys_setreuid_def or_capable_def Let_def by (auto simp: within_not_capable [OF assms])
qed

lemma within_setuid:
  assumes w: "within U G gs P (h, t)" and "powerless P"
  shows "within U G gs P (snd (sys_setuid sb mem u (h, t)))"
proof (cases "u = uid t \<or> u = suid t")
  case True
  let ?t = "(undumpable_if (euid t \<noteq> u) t)\<lparr>euid := u, fsuid := u, suid := suid t\<rparr>"
  have "snd (sys_setuid sb mem u (h, t)) = snd (fixup sb (uid t) (euid t) (suid t) (h, ?t))"
    using True by (auto simp: sys_setuid_def within_not_capable [OF assms] Let_def)
  moreover have "within U G gs P (h, ?t)"
    using within_sel [OF w] True by (intro withinI [OF w]) auto
  ultimately show ?thesis using within_fixup by simp
next
  case False
  then show ?thesis using w by (simp add: sys_setuid_def within_not_capable [OF assms] Let_def)
qed

lemma within_setresuid:
  assumes w: "within U G gs P (h, t)" and "powerless P"
  shows "within U G gs P (snd (sys_setresuid sb mem r e s (h, t)))"
proof (cases "one_of r (uid t) (euid t) (suid t) \<and> one_of e (uid t) (euid t) (suid t) \<and> one_of s (uid t) (euid t) (suid t)")
  case True
  then have U: "r \<noteq> - 1 \<Longrightarrow> r \<in> U" "e \<noteq> - 1 \<Longrightarrow> e \<in> U" "s \<noteq> - 1 \<Longrightarrow> s \<in> U"
    using within_sel [OF w] by (auto simp: one_of_def)
  obtain ret h' t' where k: "(if r \<noteq> - 1 \<and> r \<noteq> uid t then set_user mem r (e \<noteq> euid t) (h, t) else (0, (h, t))) = (ret, (h', t'))"
      "within U G gs P (h', t')"
  proof (cases "r = - 1")
    case True
    then show thesis using w that by simp
  next
    case False
    then show thesis using set_user_result [OF w U(1)] that by metis
  qed
  define a where "a = (if e \<noteq> - 1 then (undumpable_if (e \<noteq> euid t') t')\<lparr>euid := e\<rparr> else t')"
  define b where "b = (if s \<noteq> - 1 then a\<lparr>fsuid := euid a, suid := s\<rparr> else a\<lparr>fsuid := euid a\<rparr>)"
  have "snd (sys_setresuid sb mem r e s (h, t)) =
      (if ret < 0 then (h', t') else snd (fixup sb (uid t) (euid t) (suid t) (h', b)))"
    using True k(1) unfolding sys_setresuid_def Let_def a_def b_def
    by (cases "ret < 0") (simp_all add: within_not_capable [OF assms] split del: if_split)
  moreover have "within U G gs P (h', b)"
    using within_sel [OF k(2)] U by (intro withinI [OF k(2)]) (simp_all add: a_def b_def)
  ultimately show ?thesis using k(2) within_fixup by simp
next
  case False
  then show ?thesis using w by (auto simp: sys_setresuid_def within_not_capable [OF assms] Let_def)
qed

lemma within_effective:
  "within U G gs P (h, t) \<Longrightarrow> cap_issubset e (cap_permitted t) \<Longrightarrow> within U G gs P (h, t\<lparr>cap_effective := e\<rparr>)"
  by (simp add: within_def)

lemma within_setfsuid:
  assumes w: "within U G gs P (h, t)" and "powerless P"
  shows "within U G gs P (h, snd (sys_setfsuid sb u t))"
proof -
  define ok where "ok \<longleftrightarrow> u = uid t \<or> u = euid t \<or> u = suid t \<or> u = fsuid t"
  define x where "x = (if ok then (undumpable_if (u \<noteq> fsuid t) t)\<lparr>fsuid := u\<rparr> else t)"
  define y where "y = (if fsuid t = 0 \<and> fsuid x \<noteq> 0 then x\<lparr>cap_effective := cap_effective x AND NOT CAP_FS_MASK\<rparr> else x)"
  have x: "within U G gs P (h, x)"
  proof (cases ok)
    case True
    then show ?thesis using within_sel [OF w] by (intro withinI [OF w]) (auto simp: x_def ok_def)
  qed (simp add: x_def w)
  then have y: "within U G gs P (h, y)"
    by (auto simp: y_def within_def intro!: within_effective)
  have "or_capable ok CAP_SETUID t = (ok, t)" by (simp add: or_capable_def within_not_capable [OF assms])
  then have "snd (sys_setfsuid sb u t) =
      (if \<not> issecure sb SECURE_NO_SETUID_FIXUP then
         if fsuid t \<noteq> 0 \<and> fsuid y = 0 then y\<lparr>cap_effective := cap_effective y OR (cap_permitted y AND CAP_FS_MASK)\<rparr> else y
       else x)"
    by (simp only: sys_setfsuid_def Let_def ok_def [symmetric] prod.case x_def [symmetric] y_def [symmetric] snd_conv)
  moreover have "within U G gs P (h, y\<lparr>cap_effective := cap_effective y OR (cap_permitted y AND CAP_FS_MASK)\<rparr>)"
    using y by (intro within_effective) (simp_all add: within_def)
  ultimately show ?thesis using x y by simp
qed

lemma within_exec:
  assumes "powerless P" "within U G gs P k"
  shows "within U G gs P (exec_call sb c k)"
proof (cases k)
  case (Pair h t)
  note w = assms(2) [unfolded Pair]
  show ?thesis unfolding Pair
  proof (cases c)
    case (Capset e i p)
    then show "within U G gs P (exec_call sb c (h, t))"
      using w by (auto simp: sys_capset_self_def within_def intro: cap_issubset_trans)
  next
    case (Keepcaps a)
    then show "within U G gs P (exec_call sb c (h, t))" using w by (simp add: prctl_keepcaps_def within_def)
  qed (simp_all add: within_setregid within_setgid within_setresgid within_setreuid within_setuid within_setresuid
      within_setfsuid w assms(1))
qed

interpretation creds: op_invariant "exec_call sb" "\<lambda>k. powerless P \<and> within U G gs P k" for sb U G gs P
  by unfold_locales (auto intro: within_exec)

section \<open>Properties\<close>

abbreviation "uids t \<equiv> {uid t, euid t, suid t, fsuid t}"
abbreviation "gids t \<equiv> {gid t, egid t, sgid t, fsgid t}"

text \<open>
  C12: a process whose permitted capabilities contain neither CAP_SETUID nor CAP_SETGID, and whose
  effective ones are among the permitted, never obtains an identity it did not start with: after
  any sequence of the identity and capability calls, with any arguments, its user identities are
  among the four it had, its group identities too, its supplementary groups are the same, and its
  capabilities have only shrunk.
\<close>

theorem creds_confined:
  assumes "powerless (cap_permitted t)" "cap_issubset (cap_effective t) (cap_permitted t)"
    "fold (exec_call sb) calls (h, t) = (h', t')"
  shows "uids t' \<subseteq> uids t \<and> gids t' \<subseteq> gids t \<and> groups t' = groups t \<and>
    cap_issubset (cap_effective t') (cap_permitted t') \<and> cap_issubset (cap_permitted t') (cap_permitted t)"
  using creds.run_inv [of "cap_permitted t" "uids t" "gids t" "groups t" "(h, t)" sb calls] assms
  by (simp add: within_def)

definition plain_user :: cred where
  "plain_user = \<lparr>uid = 500, euid = 0, suid = 0, fsuid = 0, gid = 100, egid = 100, sgid = 100, fsgid = 100, groups = [10],
     cap_effective = 1, cap_inheritable = 0, cap_permitted = 3, keep_capabilities = False, dumpable = True, flags = 0,
     user = 500\<rparr>"

theorem creds_confined_witness:
  "uids (snd (fold (exec_call 0) [Setuid True 77, Setresuid True 500 500 (- 1), Setgroups [0], Setfsuid 0]
     (\<lambda>_. [], plain_user))) \<subseteq> {500, 0}"
proof -
  obtain h' t' where run: "fold (exec_call 0) [Setuid True 77, Setresuid True 500 500 (- 1), Setgroups [0], Setfsuid 0]
      (\<lambda>_. [], plain_user) = (h', t')" by (metis prod.exhaust)
  have "powerless (cap_permitted plain_user)" "cap_issubset (cap_effective plain_user) (cap_permitted plain_user)"
    by code_simp+
  from creds_confined [OF this run] have "uids t' \<subseteq> uids plain_user" by simp
  then show ?thesis unfolding run by (simp add: plain_user_def)
qed

lemma setuid_root:
  assumes "cap_raised (cap_effective t) CAP_SETUID" "uid t = 0 \<or> euid t = 0 \<or> suid t = 0" "\<not> keep_capabilities t"
    "\<not> issecure sb SECURE_NO_SETUID_FIXUP" "u \<noteq> 0" "sys_setuid sb mem u (h, t) = (0, (h', t'))"
  shows "uids t' = {u}" "gids t' = gids t" "groups t' = groups t" "cap_effective t' = 0" "cap_permitted t' = 0"
proof -
  let ?s = "t\<lparr>flags := flags t OR PF_SUPERPRIV\<rparr>"
  obtain ret h1 t1 where k: "(if u \<noteq> uid t then set_user mem u (euid t \<noteq> u) (h, ?s) else (0, (h, ?s))) = (ret, (h1, t1))"
    by (metis prod.exhaust)
  let ?v = "(undumpable_if (euid t \<noteq> u) t1)\<lparr>euid := u, fsuid := u, suid := u\<rparr>"
  have ret: "\<not> ret < 0" and res: "(h', t') = snd (fixup sb (uid t) (euid t) (suid t) (h1, ?v))"
    using assms(6) k assms(1) by (auto simp: sys_setuid_def capable_def Let_def EAGAIN_def split: if_splits)
  have t1: "uid t1 = u" "gids t1 = gids t" "groups t1 = groups t" "keep_capabilities t1 = keep_capabilities t"
    using k ret by (auto simp: set_user_def Let_def EAGAIN_def split: if_splits prod.splits)
  have "t' = cap_emulate_setxuid (uid t) (euid t) (suid t) ?v"
    using res assms(4) by (simp add: fixup_def)
  then show "uids t' = {u}" "gids t' = gids t" "groups t' = groups t" "cap_effective t' = 0" "cap_permitted t' = 0"
    using t1 assms(2,3,5) by (auto simp: cap_emulate_setxuid_def Let_def)
qed

lemma alloc_uid_mem: "fst (alloc_uid True u h)"
  by (simp add: alloc_uid_def split: option.splits)

lemma setuid_root_returns:
  assumes "cap_raised (cap_effective t) CAP_SETUID"
  shows "fst (sys_setuid sb True u (h, t)) = 0"
  using assms alloc_uid_mem [of u h]
  by (auto simp: sys_setuid_def capable_def Let_def set_user_def fixup_def split: prod.splits)

lemma cap_subset_0 [simp]: "cap_issubset a 0 \<longleftrightarrow> a = 0"
  by (simp add: cap_issubset_def)

text \<open>
  C33: giving up root is final.  A privileged process that holds identity 0, keeps no capabilities
  and calls \<^verbatim>\<open>setuid(u)\<close> with another identity succeeds unless memory for the user structure
  runs out; from then on, whatever identity and capability calls follow, all four user identities
  are \<open>u\<close> and no capability is left.  The group identities stay among those it had.
\<close>

theorem setuid_gives_up_root:
  assumes "cap_raised (cap_effective t) CAP_SETUID" "uid t = 0 \<or> euid t = 0 \<or> suid t = 0" "\<not> keep_capabilities t"
    "\<not> issecure sb SECURE_NO_SETUID_FIXUP" "u \<noteq> 0"
  shows "\<exists>h1 t1. sys_setuid sb True u (h, t) = (0, (h1, t1)) \<and>
    (\<forall>calls h' t'. fold (exec_call sb) calls (h1, t1) = (h', t') \<longrightarrow>
       uids t' = {u} \<and> gids t' \<subseteq> gids t \<and> groups t' = groups t \<and> cap_effective t' = 0 \<and> cap_permitted t' = 0)"
proof -
  obtain h1 t1 where call: "sys_setuid sb True u (h, t) = (0, (h1, t1))"
    using setuid_root_returns [OF assms(1), of sb u h] by (metis fst_conv prod.exhaust)
  note t1 = setuid_root [OF assms call]
  have start: "powerless 0 \<and> within {u} (gids t) (groups t) 0 (h1, t1)"
    using t1 by (auto simp: within_def powerless_def cap_raised_def)
  have "uids t' = {u} \<and> gids t' \<subseteq> gids t \<and> groups t' = groups t \<and> cap_effective t' = 0 \<and> cap_permitted t' = 0"
    if run: "fold (exec_call sb) calls (h1, t1) = (h', t')" for calls h' t'
    using creds.run_inv [OF start, of sb calls] unfolding run by (auto simp: within_def)
  then show ?thesis using call by blast
qed

definition root_daemon :: cred where
  "root_daemon = \<lparr>uid = 0, euid = 0, suid = 0, fsuid = 0, gid = 0, egid = 0, sgid = 0, fsgid = 0, groups = [],
     cap_effective = 0xfffffeff, cap_inheritable = 0, cap_permitted = 0xfffffeff, keep_capabilities = False,
     dumpable = True, flags = 0, user = 0\<rparr>"

definition boot_users :: uidhash where
  "boot_users e = (if e = 0 then [\<lparr>us_uid = 0, us_count = 1, us_processes = 1\<rparr>] else [])"

theorem setuid_gives_up_root_witness:
  "uids (snd (fold (exec_call 0) [Setuid True 0, Setreuid True 0 0, Capset 1 1 1] (snd (sys_setuid 0 True 99 (boot_users, root_daemon))))) = {99}"
proof -
  have "cap_raised (cap_effective root_daemon) CAP_SETUID" "uid root_daemon = 0" "\<not> keep_capabilities root_daemon"
      "\<not> issecure 0 SECURE_NO_SETUID_FIXUP" "(99 :: uid_t) \<noteq> 0"
    by code_simp+
  then obtain h1 t1 where s: "sys_setuid 0 True 99 (boot_users, root_daemon) = (0, (h1, t1))" and
      r: "\<And>calls h' t'. fold (exec_call 0) calls (h1, t1) = (h', t') \<Longrightarrow> uids t' = {99}"
    using setuid_gives_up_root [of root_daemon 0 99 boot_users] by metis
  show ?thesis unfolding s snd_conv by (rule r) (rule prod.collapse [symmetric])
qed

end
