(* ===== verification/Pids.thy ===== *)
theory Pids
  imports Prelude
begin

unbundle bit_operations_syntax

text \<open>
  Process identifiers: the \<^verbatim>\<open>task_struct\<close> fields that hold identifiers and \<^verbatim>\<open>get_pid\<close> of
  \<^verbatim>\<open>kernel/fork.c\<close>.
  The task list holds every process but the idle one.  The search for an identifier is a loop
  that need not end; it is a partial function, and that it ends is a theorem.
\<close>

section \<open>Identifiers of a task\<close>

record idents =
  pid :: int
  pgrp :: int
  tgid :: int
  session :: int

definition PID_MAX :: int where "PID_MAX = 0x8000"

definition ids :: "'a idents_scheme \<Rightarrow> int set" where
  "ids t = {pid t, pgrp t, tgid t, session t}"

definition taken :: "'a idents_scheme \<Rightarrow> int \<Rightarrow> bool" where
  "taken p lp \<longleftrightarrow> pid p = lp \<or> pgrp p = lp \<or> tgid p = lp \<or> session p = lp"

definition over_max :: "int \<Rightarrow> bool" where
  "over_max lp \<longleftrightarrow> (of_int lp :: u32) AND 0xffff8000 \<noteq> 0"

text \<open>\<^verbatim>\<open>if (x > last_pid && next_safe > x) next_safe = x;\<close>\<close>

definition lower :: "int \<Rightarrow> int \<Rightarrow> int \<Rightarrow> int" where
  "lower lp x ns = (if lp < x \<and> x < ns then x else ns)"

partial_function (option) pid_scan ::
  "'a idents_scheme list \<Rightarrow> int \<Rightarrow> 'a idents_scheme list \<Rightarrow> int \<Rightarrow> int \<Rightarrow> (bool \<times> int \<times> int) option" where
  "pid_scan all beginpid rest lp ns =
     (case rest of
        [] \<Rightarrow> Some (True, lp, ns)
      | p # ps \<Rightarrow>
          if taken p lp then
            (let lp = lp + 1;
                 (lp, ns) = (if ns \<le> lp then (if over_max lp then 300 else lp, PID_MAX) else (lp, ns)) in
             if lp = beginpid then Some (False, lp, ns)
             else pid_scan all beginpid all lp ns)
          else pid_scan all beginpid ps lp
            (lower lp (session p) (lower lp (tgid p) (lower lp (pgrp p) (lower lp (pid p) ns)))))"

definition CLONE_PID :: u32 where "CLONE_PID = 0x1000"

text \<open>The identifier, or 0 when there is none left, with the new \<^verbatim>\<open>last_pid\<close> and \<^verbatim>\<open>next_safe\<close>.\<close>

definition get_pid :: "u32 \<Rightarrow> int \<Rightarrow> 'a idents_scheme list \<Rightarrow> int \<Rightarrow> int \<Rightarrow> (int \<times> int \<times> int) option" where
  "get_pid clone_flags current_pid ts last_pid next_safe =
     (if clone_flags AND CLONE_PID \<noteq> 0 then Some (current_pid, last_pid, next_safe)
      else
       let beginpid = last_pid;
           lp = last_pid + 1;
           scan = (\<lambda>lp. map_option (\<lambda>(ok, lp, ns). (if ok then lp else 0, lp, ns)) (pid_scan ts beginpid ts lp PID_MAX)) in
       if over_max lp then scan 300
       else if next_safe \<le> lp then scan lp
       else Some (lp, lp, next_safe))"

section \<open>Freshness\<close>

lemma taken_iff: "taken p x \<longleftrightarrow> x \<in> ids p"
  by (auto simp: taken_def ids_def)

definition clear_above :: "int \<Rightarrow> int \<Rightarrow> 'a idents_scheme \<Rightarrow> bool" where
  "clear_above lp ns t \<longleftrightarrow> (\<forall>x \<in> ids t. lp < x \<longrightarrow> ns \<le> x)"

lemma lower_le: "lower lp x ns \<le> ns" "lp < x \<Longrightarrow> lower lp x ns \<le> x" "lp < ns \<Longrightarrow> lp < lower lp x ns"
  by (auto simp: lower_def)

lemma lowered:
  fixes p :: "'a idents_scheme" and lp ns :: int
  defines "ns' \<equiv> lower lp (session p) (lower lp (tgid p) (lower lp (pgrp p) (lower lp (pid p) ns)))"
  shows "ns' \<le> ns" "clear_above lp ns' p" "lp < ns \<Longrightarrow> lp < ns'"
  unfolding ns'_def clear_above_def ids_def
  by (auto intro: order_trans [OF lower_le(1)] lower_le)

text \<open>What a finished scan has seen: the identifier is free, and so are those up to the new limit.\<close>

definition scanned :: "'a idents_scheme list \<Rightarrow> int \<Rightarrow> int \<Rightarrow> bool" where
  "scanned ts lp ns \<longleftrightarrow> (\<forall>t \<in> set ts. \<not> taken t lp \<and> clear_above lp ns t)"

lemma clear_above_mono: "clear_above lp ns t \<Longrightarrow> ns' \<le> ns \<Longrightarrow> clear_above lp ns' t"
  by (force simp: clear_above_def)

lemma scanned_snoc:
  "scanned (seen @ [p]) lp ns' \<longleftrightarrow> scanned seen lp ns' \<and> \<not> taken p lp \<and> clear_above lp ns' p"
  by (auto simp: scanned_def)

lemma scanned_mono: "scanned ts lp ns \<Longrightarrow> ns' \<le> ns \<Longrightarrow> scanned ts lp ns'"
  by (auto simp: scanned_def intro: clear_above_mono)

definition scan_post :: "'a idents_scheme list \<Rightarrow> 'a idents_scheme list \<Rightarrow> int \<Rightarrow> int \<Rightarrow> bool \<times> int \<times> int \<Rightarrow> bool" where
  "scan_post all rest lp ns = (\<lambda>(ok, lp', ns').
     (\<exists>seen. all = seen @ rest \<and> scanned seen lp ns) \<longrightarrow> ok \<longrightarrow> scanned all lp' ns')"

lemma pid_scan_post: "pid_scan all b rest lp ns = Some r \<Longrightarrow> scan_post all rest lp ns r"
proof (erule pid_scan.raw_induct [rotated])
  fix scan all b rest lp ns r
  assume IH: "\<And>all b rest lp ns r. scan all b rest lp ns = Some r \<Longrightarrow> scan_post all rest lp ns r"
    and eq: "(case rest of [] \<Rightarrow> Some (True, lp, ns)
      | p # ps \<Rightarrow> if taken p lp then
            (let lp = lp + 1; (lp, ns) = (if ns \<le> lp then (if over_max lp then 300 else lp, PID_MAX) else (lp, ns)) in
             if lp = b then Some (False, lp, ns) else scan all b all lp ns)
          else scan all b ps lp (lower lp (session p) (lower lp (tgid p) (lower lp (pgrp p) (lower lp (pid p) ns))))) = Some r"
  show "scan_post all rest lp ns r"
  proof (cases rest)
    case Nil
    then show ?thesis using eq by (auto simp: scan_post_def)
  next
    case (Cons p ps)
    show ?thesis
    proof (cases "taken p lp")
      case True
      obtain lp1 ns1 where step: "(if ns \<le> lp + 1 then (if over_max (lp + 1) then 300 else lp + 1, PID_MAX) else (lp + 1, ns)) = (lp1, ns1)"
        by (metis prod.exhaust)
      then have r: "r = (False, lp1, ns1) \<or> scan all b all lp1 ns1 = Some r"
        using eq Cons True by (auto simp: Let_def split: if_splits)
      have "scan_post all all lp1 ns1 r" if "scan all b all lp1 ns1 = Some r" using that by (rule IH)
      then show ?thesis using r by (auto simp: scan_post_def scanned_def)
    next
      case False
      let ?ns = "lower lp (session p) (lower lp (tgid p) (lower lp (pgrp p) (lower lp (pid p) ns)))"
      have "scan_post all ps lp ?ns r" using eq Cons False by (intro IH) simp
      moreover have "scanned (seen @ [p]) lp ?ns" if "scanned seen lp ns" for seen
        using that False lowered [where p = p and lp = lp and ns = ns] scanned_mono unfolding scanned_snoc by blast
      ultimately show ?thesis unfolding scan_post_def Cons by fastforce
    qed
  qed
qed

lemma pid_scan_fresh: "pid_scan ts b ts lp ns = Some (True, lp', ns') \<Longrightarrow> scanned ts lp' ns'"
  using pid_scan_post [of ts b ts lp ns "(True, lp', ns')"] by (auto simp: scan_post_def scanned_def)

section \<open>The search ends\<close>

lemma over_max_iff:
  assumes "0 \<le> l" "l \<le> PID_MAX"
  shows "over_max l \<longleftrightarrow> l = PID_MAX"
proof (cases "l = PID_MAX")
  case True
  then show ?thesis unfolding over_max_def by (simp add: PID_MAX_def)
next
  case False
  define w :: u32 where "w = of_int l"
  have "uint w = l" using assms False by (simp add: w_def PID_MAX_def unsigned_of_int take_bit_int_eq_self)
  then have "uint (take_bit 15 w) = uint w"
    using assms False by (simp add: unsigned_take_bit_eq PID_MAX_def take_bit_int_eq_self)
  then have "take_bit 15 w = w" by (simp only: word_uint_eq_iff)
  moreover have "take_bit 15 w AND 0xffff8000 = 0"
  proof -
    have "(0xffff8000 :: u32) = NOT (mask 15)" by (simp add: mask_eq_exp_minus_1)
    then show ?thesis by (simp add: bit_eq_iff bit_simps)
  qed
  ultimately show ?thesis using False by (simp add: over_max_def w_def)
qed

lemma over_max_PID_MAX: "over_max PID_MAX"
  using over_max_iff [of PID_MAX] by (simp add: PID_MAX_def)

text \<open>The number of steps from one identifier to another one above 300, going around at the top.\<close>

definition steps_to :: "int \<Rightarrow> int \<Rightarrow> int" where
  "steps_to x l = (if l \<le> x then x - l else PID_MAX - l + (x - 300))"

definition next_pid :: "int \<Rightarrow> int" where
  "next_pid l = (if l + 1 = PID_MAX then 300 else l + 1)"

lemma steps_to_next:
  assumes "l \<noteq> x" "0 \<le> l" "l < PID_MAX" "300 \<le> x" "x < PID_MAX"
  shows "steps_to x (next_pid l) = steps_to x l - 1"
  using assms by (auto simp: steps_to_def next_pid_def PID_MAX_def)

lemma steps_to_nonneg: "l < PID_MAX \<Longrightarrow> 300 \<le> x \<Longrightarrow> 0 \<le> steps_to x l"
  by (auto simp: steps_to_def)

lemma pid_scan_Nil: "pid_scan all b [] lp ns = Some (True, lp, ns)"
  by (subst pid_scan.simps) simp

lemma pid_scan_free:
  "\<not> taken p lp \<Longrightarrow> pid_scan all b (p # ps) lp ns =
    pid_scan all b ps lp (lower lp (session p) (lower lp (tgid p) (lower lp (pgrp p) (lower lp (pid p) ns))))"
  by (subst pid_scan.simps) simp

lemma pid_scan_taken:
  assumes "taken p lp" "0 \<le> lp" "lp < ns" "ns \<le> PID_MAX"
  shows "\<exists>ns'. next_pid lp < ns' \<and> ns' \<le> PID_MAX \<and>
    pid_scan all b (p # ps) lp ns =
      (if next_pid lp = b then Some (False, b, ns') else pid_scan all b all (next_pid lp) ns')"
proof -
  have top: "over_max (lp + 1) \<longleftrightarrow> lp + 1 = PID_MAX" using assms by (intro over_max_iff) auto
  define ns' where "ns' = (if ns \<le> lp + 1 then PID_MAX else ns)"
  have step: "(if ns \<le> lp + 1 then (if over_max (lp + 1) then 300 else lp + 1, PID_MAX) else (lp + 1, ns)) = (next_pid lp, ns')"
    and ns': "next_pid lp < ns'" "ns' \<le> PID_MAX"
    using assms unfolding top by (auto simp: next_pid_def ns'_def PID_MAX_def)
  show ?thesis
    by (rule exI [of _ ns'], subst pid_scan.simps) (simp add: assms(1) Let_def step ns')
qed

lemma pid_scan_total:
  assumes free: "\<forall>t \<in> set all. \<not> taken t x" and x: "300 \<le> x" "x < PID_MAX"
    and "set rest \<subseteq> set all" "0 < lp" "lp < ns" "ns \<le> PID_MAX" "steps_to x lp < steps_to x b"
  shows "\<exists>lp' ns'. pid_scan all b rest lp ns = Some (True, lp', ns') \<and> 0 < lp' \<and> lp' < ns' \<and> ns' \<le> PID_MAX"
  using assms(4-)
proof (induction "nat (steps_to x lp)" arbitrary: rest lp ns rule: less_induct)
  case less
  from less.prems show ?case
  proof (induction rest arbitrary: ns)
    case Nil
    then show ?case by (simp add: pid_scan_Nil)
  next
    case (Cons p ps)
    show ?case
    proof (cases "taken p lp")
      case True
      obtain ns' where ns': "next_pid lp < ns'" "ns' \<le> PID_MAX" "pid_scan all b (p # ps) lp ns =
          (if next_pid lp = b then Some (False, b, ns') else pid_scan all b all (next_pid lp) ns')"
        using pid_scan_taken [OF True] Cons.prems by (metis order_less_imp_le)
      have "lp \<noteq> x" using True free Cons.prems(1) by auto
      then have d: "steps_to x (next_pid lp) = steps_to x lp - 1"
        using Cons.prems x by (intro steps_to_next) auto
      have pos: "0 < next_pid lp" using Cons.prems by (auto simp: next_pid_def)
      have "0 \<le> steps_to x (next_pid lp)" using ns' x by (intro steps_to_nonneg) auto
      then have closer: "nat (steps_to x (next_pid lp)) < nat (steps_to x lp)" "steps_to x (next_pid lp) < steps_to x b"
        using d Cons.prems(5) by auto
      then have "next_pid lp \<noteq> b" by auto
      then show ?thesis
        using less.hyps [OF closer(1) subset_refl pos ns'(1,2) closer(2)] ns'(3) by simp
    next
      case False
      define ns1 where "ns1 = lower lp (session p) (lower lp (tgid p) (lower lp (pgrp p) (lower lp (pid p) ns)))"
      note l = lowered [where lp = lp and p = p and ns = ns, folded ns1_def]
      have "lp < ns1" "ns1 \<le> PID_MAX" using l Cons.prems by auto
      then show ?thesis
        using Cons.IH [of ns1] Cons.prems by (simp add: pid_scan_free [OF False] ns1_def [symmetric])
    qed
  qed
qed

section \<open>Fresh identifiers\<close>

text \<open>
  The state of the allocator: no identifier strictly between \<^verbatim>\<open>last_pid\<close> and \<^verbatim>\<open>next_safe\<close>
  is in use, so these can be handed out without a search.
\<close>

definition pids_ok :: "'a idents_scheme list \<Rightarrow> int \<Rightarrow> int \<Rightarrow> bool" where
  "pids_ok ts lp ns \<longleftrightarrow> 0 \<le> lp \<and> lp < PID_MAX \<and> ns \<le> PID_MAX \<and> (\<forall>t \<in> set ts. clear_above lp ns t)"

lemma free_pid_exists:
  assumes "4 * length ts < 32467"
  obtains x where "300 \<le> x" "x < PID_MAX" "x \<noteq> b" "\<forall>t \<in> set ts. \<not> taken t x"
proof -
  let ?used = "\<Union> (ids ` set ts)"
  have "card (ids t) \<le> 4" for t :: "'a idents_scheme"
    using card_length [of "[pid t, pgrp t, tgid t, session t]"] by (simp add: ids_def)
  then have "(\<Sum>t \<in> set ts. card (ids t)) \<le> card (set ts) * 4"
    using sum_bounded_above [of "set ts" "\<lambda>t. card (ids t)" 4] by simp
  then have "card ?used \<le> 4 * card (set ts)" by (intro order_trans [OF card_UN_le]) auto
  also have "\<dots> \<le> 4 * length ts" by (simp add: card_length)
  finally have "card ?used < 32467" using assms by simp
  moreover have "card ({300..<PID_MAX} - {b}) \<ge> 32467" by (simp add: PID_MAX_def card_Diff_singleton_if)
  moreover have "finite ?used" by (simp add: ids_def)
  ultimately have "\<not> {300..<PID_MAX} - {b} \<subseteq> ?used" by (meson card_mono leD order_less_le_trans)
  then obtain x where "x \<in> {300..<PID_MAX} - {b}" "x \<notin> ?used" by blast
  then show thesis by (intro that [of x]) (auto simp: taken_iff)
qed

lemma get_pid_ok:
  assumes "pids_ok ts lp ns" "4 * length ts < 32467" "clone_flags AND CLONE_PID = 0"
  shows "\<exists>p ns'. get_pid clone_flags c ts lp ns = Some (p, p, ns') \<and> 0 < p \<and>
    (\<forall>t \<in> set ts. \<not> taken t p) \<and> pids_ok ts p ns'"
proof -
  obtain x where x: "300 \<le> x" "x < PID_MAX" "x \<noteq> lp" "\<forall>t \<in> set ts. \<not> taken t x"
    using free_pid_exists [OF assms(2)] by blast
  have lp: "0 \<le> lp" "lp < PID_MAX" using assms(1) by (auto simp: pids_ok_def)
  have top: "over_max (lp + 1) \<longleftrightarrow> lp + 1 = PID_MAX" using lp by (intro over_max_iff) auto
  have "next_pid lp < PID_MAX" "0 < next_pid lp" using lp by (auto simp: next_pid_def PID_MAX_def)
  moreover have "steps_to x (next_pid lp) < steps_to x lp" using steps_to_next [of lp x] x lp by simp
  ultimately obtain p ns' where scan: "pid_scan ts lp ts (next_pid lp) PID_MAX = Some (True, p, ns')"
      and p: "0 < p" "p < ns'" "ns' \<le> PID_MAX"
    using pid_scan_total [OF x(4,1,2) subset_refl, of "next_pid lp" PID_MAX lp] by blast
  from pid_scan_fresh [OF scan] p have found: "\<forall>t \<in> set ts. \<not> taken t p" "pids_ok ts p ns'"
    by (auto simp: scanned_def pids_ok_def)
  show ?thesis
  proof (cases "lp + 1 = PID_MAX \<or> ns \<le> lp + 1")
    case True
    then have "get_pid clone_flags c ts lp ns = Some (p, p, ns')"
      using scan assms(3) by (cases "lp + 1 = PID_MAX") (simp_all add: get_pid_def Let_def top next_pid_def over_max_PID_MAX)
    then show ?thesis using found p by blast
  next
    case False
    then have "get_pid clone_flags c ts lp ns = Some (lp + 1, lp + 1, ns)"
      using assms(3) by (simp add: get_pid_def Let_def top)
    moreover have "\<not> taken t (lp + 1)" "clear_above (lp + 1) ns t" if "t \<in> set ts" for t
      using assms(1) that False by (fastforce simp: pids_ok_def clear_above_def taken_iff)+
    ultimately show ?thesis using False lp assms(1) by (auto simp: pids_ok_def)
  qed
qed

text \<open>
  C10: \<^verbatim>\<open>get_pid\<close> ends, and with a fresh identifier.  While no identifier between
  \<^verbatim>\<open>last_pid\<close> and \<^verbatim>\<open>next_safe\<close> is in use and there are at most 8116 tasks, the search through
  the task list, which starts again after every clash and goes around at \<^verbatim>\<open>PID_MAX\<close>, returns;
  the identifier is positive, below \<^verbatim>\<open>PID_MAX\<close> and not the process, group, thread group or
  session identifier of any task; and no identifier up to the new \<^verbatim>\<open>next_safe\<close> is in use.
\<close>

theorem get_pid_fresh:
  assumes "pids_ok ts last_pid next_safe" "length ts \<le> 8116" "clone_flags AND CLONE_PID = 0"
  shows "\<exists>p ns'. get_pid clone_flags c ts last_pid next_safe = Some (p, p, ns') \<and> 0 < p \<and> p < PID_MAX \<and>
    list_all (\<lambda>t. pid t \<noteq> p \<and> pgrp t \<noteq> p \<and> tgid t \<noteq> p \<and> session t \<noteq> p) ts \<and> pids_ok ts p ns'"
proof -
  obtain p ns' where "get_pid clone_flags c ts last_pid next_safe = Some (p, p, ns')" "0 < p"
      "\<forall>t \<in> set ts. \<not> taken t p" "pids_ok ts p ns'"
    using get_pid_ok [OF assms(1) _ assms(3), of c] assms(2) by auto
  moreover from this(4) have "p < PID_MAX" by (simp add: pids_ok_def)
  ultimately show ?thesis by (auto simp: list_all_iff taken_def)
qed

theorem get_pid_fresh_witness:
  "\<exists>p ns'. get_pid 0 7 [\<lparr>pid = 300, pgrp = 301, tgid = 300, session = 303\<rparr>] 32767 PID_MAX = Some (p, p, ns') \<and> p \<noteq> 301"
proof -
  let ?ts = "[\<lparr>pid = 300, pgrp = 301, tgid = 300, session = 303\<rparr>]"
  have "pids_ok ?ts 32767 PID_MAX" by (simp add: pids_ok_def clear_above_def ids_def PID_MAX_def)
  from get_pid_fresh [OF this, of 0 7] show ?thesis by auto
qed

end
