(* ===== verification/Tasks.thy ===== *)
theory Tasks
  imports Creds Pids
begin

unbundle bit_operations_syntax

text \<open>
  Processes: \<^verbatim>\<open>do_fork\<close> of \<^verbatim>\<open>kernel/fork.c\<close>, \<^verbatim>\<open>release_task\<close> and the reparenting of
  \<^verbatim>\<open>kernel/exit.c\<close>, the hash table of process identifiers, process groups, sessions and
  priorities of \<^verbatim>\<open>kernel/sys.c\<close>, and the capability calls of \<^verbatim>\<open>kernel/capability.c\<close>.
  A pointer to a task is its process identifier; that no two tasks share one is part of the
  invariant.  The calling process is an argument, the entry of the task list for \<^verbatim>\<open>current\<close>.
\<close>

section \<open>The state\<close>

record task = idents +
  leader :: bool
  did_exec :: bool
  p_opptr :: int
  p_pptr :: int
  ptrace :: u32
  tty :: "nat option"
  tty_old_pgrp :: int
  nice :: int
  rlim_nproc :: u32
  cr :: cred

type_synonym pidhash = "int \<Rightarrow> int list"

record kern =
  tasks :: "task list"
  pidhash :: pidhash
  last_pid :: int
  next_safe :: int
  nr_threads :: int
  max_threads :: int
  users :: uidhash

definition ESRCH :: int where "ESRCH = 3"
definition ENOMEM :: int where "ENOMEM = 12"
definition EACCES :: int where "EACCES = 13"

text \<open>An assignment through a pointer to a task, and the task a pointer stands for.\<close>

definition on_task :: "int \<Rightarrow> (task \<Rightarrow> task) \<Rightarrow> task list \<Rightarrow> task list" where
  "on_task p f ts = map (\<lambda>t. if pid t = p then f t else t) ts"

definition deref :: "int \<Rightarrow> task list \<Rightarrow> task option" where
  "deref p ts = find (\<lambda>t. pid t = p) ts"

section \<open>The hash table of process identifiers\<close>

definition PIDHASH_SZ :: int where "PIDHASH_SZ = 1024"

definition pid_hashfn :: "int \<Rightarrow> int" where
  "pid_hashfn x = (drop_bit 8 x XOR x) AND (PIDHASH_SZ - 1)"

definition hash_pid :: "int \<Rightarrow> pidhash \<Rightarrow> pidhash" where
  "hash_pid p h = h(pid_hashfn p := p # h (pid_hashfn p))"

definition unhash_pid :: "int \<Rightarrow> pidhash \<Rightarrow> pidhash" where
  "unhash_pid p h = h(pid_hashfn p := remove1 p (h (pid_hashfn p)))"

fun chain_find :: "int \<Rightarrow> int list \<Rightarrow> int option" where
  "chain_find p [] = None"
| "chain_find p (q # qs) = (if q \<noteq> p then chain_find p qs else Some q)"

definition find_task_by_pid :: "int \<Rightarrow> kern \<Rightarrow> task option" where
  "find_task_by_pid p k =
     (case chain_find p (pidhash k (pid_hashfn p)) of None \<Rightarrow> None | Some q \<Rightarrow> deref q (tasks k))"

section \<open>Creating a process\<close>

definition CLONE_FS :: u32 where "CLONE_FS = 0x200"
definition CLONE_PTRACE :: u32 where "CLONE_PTRACE = 0x2000"
definition CLONE_PARENT :: u32 where "CLONE_PARENT = 0x8000"
definition CLONE_THREAD :: u32 where "CLONE_THREAD = 0x10000"
definition CLONE_NEWNS :: u32 where "CLONE_NEWNS = 0x20000"
definition PF_FORKNOEXEC :: u32 where "PF_FORKNOEXEC = 0x40"
definition PF_USEDFPU :: u32 where "PF_USEDFPU = 0x100000"
definition PT_PTRACED :: u32 where "PT_PTRACED = 1"
definition CAP_SETPCAP :: nat where "CAP_SETPCAP = 8"
definition CAP_SYS_ADMIN :: nat where "CAP_SYS_ADMIN = 21"
definition CAP_SYS_NICE :: nat where "CAP_SYS_NICE = 23"
definition CAP_SYS_RESOURCE :: nat where "CAP_SYS_RESOURCE = 24"

text \<open>The limit of threads for the machine's memory: the thread structure takes two pages.\<close>

definition fork_init :: "u32 \<Rightarrow> u32" where
  "fork_init mempages = mempages div 2 div 8"

definition copy_flags :: "u32 \<Rightarrow> task \<Rightarrow> task" where
  "copy_flags clone_flags p =
     (let new_flags = flags (cr p) AND NOT (PF_SUPERPRIV OR PF_USEDFPU) OR PF_FORKNOEXEC;
          p = (if clone_flags AND CLONE_PTRACE = 0 then p\<lparr>ptrace := 0\<rparr> else p) in
      p\<lparr>cr := (cr p)\<lparr>flags := new_flags\<rparr>\<rparr>)"

text \<open>The results of the memory allocation and of the copying functions that \<^verbatim>\<open>do_fork\<close> calls.\<close>

record fork_env =
  alloc_task_struct :: bool
  copy_files :: int
  copy_fs :: int
  copy_sighand :: int
  copy_mm :: int
  copy_namespace :: int
  copy_thread :: int

definition user_processes :: "uid_t \<Rightarrow> uidhash \<Rightarrow> int" where
  "user_processes u h = (case find (\<lambda>up. us_uid up = u) (h (uidhashfn u)) of Some up \<Rightarrow> us_processes up | None \<Rightarrow> 0)"

definition put_user_count :: "uid_t \<Rightarrow> uidhash \<Rightarrow> uidhash" where
  "put_user_count u h = free_uid u (on_user u (\<lambda>up. up\<lparr>us_processes := us_processes up - 1\<rparr>) h)"

definition get_user_count :: "uid_t \<Rightarrow> uidhash \<Rightarrow> uidhash" where
  "get_user_count u h =
     on_user u (\<lambda>up. up\<lparr>us_processes := us_processes up + 1\<rparr>) (on_user u (\<lambda>up. up\<lparr>us_count := us_count up + 1\<rparr>) h)"

text \<open>\<^verbatim>\<open>over && !capable(CAP_SYS_ADMIN) && !capable(CAP_SYS_RESOURCE)\<close>\<close>

definition over_limit :: "bool \<Rightarrow> cred \<Rightarrow> bool \<times> cred" where
  "over_limit over t =
     (if \<not> over then (False, t)
      else let (a, t) = capable CAP_SYS_ADMIN t in
        if a then (False, t) else let (r, t) = capable CAP_SYS_RESOURCE t in (\<not> r, t))"

text \<open>\<^verbatim>\<open>SET_LINKS\<close> appends to the task list.\<close>

definition link_task :: "task \<Rightarrow> kern \<Rightarrow> kern" where
  "link_task p k = k\<lparr>tasks := tasks k @ [p], pidhash := hash_pid (pid p) (pidhash k), nr_threads := nr_threads k + 1\<rparr>"

definition fork_child :: "u32 \<Rightarrow> int \<Rightarrow> task \<Rightarrow> task" where
  "fork_child clone_flags retval c =
     (let p = copy_flags clone_flags (c\<lparr>did_exec := False\<rparr>);
          p = p\<lparr>pid := retval, leader := False, tty_old_pgrp := 0, tgid := retval,
                p_opptr := p_opptr c, p_pptr := p_pptr c\<rparr>;
          p = (if clone_flags AND CLONE_PARENT = 0
               then let p = p\<lparr>p_opptr := pid c\<rparr> in if ptrace p AND PT_PTRACED = 0 then p\<lparr>p_pptr := pid c\<rparr> else p
               else p) in
      if clone_flags AND CLONE_THREAD \<noteq> 0 then p\<lparr>tgid := tgid c\<rparr> else p)"

definition do_fork :: "u32 \<Rightarrow> fork_env \<Rightarrow> task \<Rightarrow> kern \<Rightarrow> (int \<times> kern) option" where
  "do_fork clone_flags e c k =
     (let u = user (cr c) in
      if clone_flags AND (CLONE_NEWNS OR CLONE_FS) = (CLONE_NEWNS OR CLONE_FS) then Some (- EINVAL, k)
      else if clone_flags AND CLONE_PID \<noteq> 0 \<and> pid c \<noteq> 0 then Some (- EPERM, k)
      else if \<not> alloc_task_struct e then Some (- ENOMEM, k)
      else
       let (refused, cr1) = over_limit (rlim_nproc c \<le> of_int (user_processes u (users k))) (cr c);
           k = k\<lparr>tasks := on_task (pid c) (\<lambda>t. t\<lparr>cr := cr1\<rparr>) (tasks k)\<rparr> in
       if refused then Some (- EAGAIN, k)
       else
        let k = k\<lparr>users := get_user_count u (users k)\<rparr>;
            bad_fork = (\<lambda>k. k\<lparr>users := put_user_count u (users k)\<rparr>) in
        if max_threads k \<le> nr_threads k then Some (- EAGAIN, bad_fork k)
        else
         (case get_pid clone_flags (pid c) (tasks k) (last_pid k) (next_safe k) of
            None \<Rightarrow> None
          | Some (p_pid, lp, ns) \<Rightarrow>
              let k = k\<lparr>last_pid := lp, next_safe := ns\<rparr> in
              if p_pid = 0 \<and> pid c \<noteq> 0 then Some (- EAGAIN, bad_fork k)
              else if copy_files e \<noteq> 0 then Some (- ENOMEM, bad_fork k)
              else if copy_fs e \<noteq> 0 then Some (- ENOMEM, bad_fork k)
              else if copy_sighand e \<noteq> 0 then Some (- ENOMEM, bad_fork k)
              else if copy_mm e \<noteq> 0 then Some (- ENOMEM, bad_fork k)
              else if copy_namespace e \<noteq> 0 then Some (- ENOMEM, bad_fork k)
              else if copy_thread e \<noteq> 0 then Some (copy_thread e, bad_fork k)
              else Some (p_pid, link_task (fork_child clone_flags p_pid c) k)))"

section \<open>The end of a process\<close>

text \<open>
  The children of a process that ends go to another thread of its group, or to init; which one
  the walk along the thread group finds is the argument \<open>reaper\<close>.
\<close>

definition forget_original_parent :: "int \<Rightarrow> int \<Rightarrow> int \<Rightarrow> task list \<Rightarrow> task list" where
  "forget_original_parent child_reaper reaper father ts =
     (let reaper = (if reaper = father then child_reaper else reaper) in
      map (\<lambda>p. if p_opptr p = father then p\<lparr>p_opptr := (if pid p = reaper then child_reaper else reaper)\<rparr> else p) ts)"

definition exit_children :: "int \<Rightarrow> task list \<Rightarrow> task list" where
  "exit_children father ts =
     map (\<lambda>p. if p_pptr p = father then p\<lparr>ptrace := 0, p_pptr := p_opptr p\<rparr> else p) ts"

definition unhash_process :: "int \<Rightarrow> kern \<Rightarrow> kern" where
  "unhash_process p k = k\<lparr>nr_threads := nr_threads k - 1, pidhash := unhash_pid p (pidhash k),
     tasks := filter (\<lambda>t. pid t \<noteq> p) (tasks k)\<rparr>"

definition release_task :: "task \<Rightarrow> task \<Rightarrow> kern \<Rightarrow> kern" where
  "release_task p c k =
     (if pid p \<noteq> pid c then unhash_process (pid p) (k\<lparr>users := put_user_count (user (cr p)) (users k)\<rparr>) else k)"

section \<open>Process groups and sessions\<close>

definition sys_setpgid :: "int \<Rightarrow> int \<Rightarrow> task \<Rightarrow> kern \<Rightarrow> int \<times> kern" where
  "sys_setpgid p_id pgid c k =
     (let p_id = (if p_id = 0 then pid c else p_id);
          pgid = (if pgid = 0 then p_id else pgid) in
      if pgid < 0 then (- EINVAL, k)
      else
       (case find_task_by_pid p_id k of
          None \<Rightarrow> (- ESRCH, k)
        | Some p \<Rightarrow>
            let child = (p_pptr p = pid c \<or> p_opptr p = pid c) in
            if child \<and> session p \<noteq> session c then (- EPERM, k)
            else if child \<and> did_exec p then (- EACCES, k)
            else if \<not> child \<and> pid p \<noteq> pid c then (- ESRCH, k)
            else if leader p then (- EPERM, k)
            else if pgid \<noteq> p_id \<and> \<not> list_ex (\<lambda>tmp. pgrp tmp = pgid \<and> session tmp = session c) (tasks k) then (- EPERM, k)
            else (0, k\<lparr>tasks := on_task p_id (\<lambda>t. t\<lparr>pgrp := pgid\<rparr>) (tasks k)\<rparr>)))"

definition sys_getpgid :: "int \<Rightarrow> task \<Rightarrow> kern \<Rightarrow> int" where
  "sys_getpgid p_id c k =
     (if p_id = 0 then pgrp c else case find_task_by_pid p_id k of None \<Rightarrow> - ESRCH | Some p \<Rightarrow> pgrp p)"

definition sys_getsid :: "int \<Rightarrow> task \<Rightarrow> kern \<Rightarrow> int" where
  "sys_getsid p_id c k =
     (if p_id = 0 then session c else case find_task_by_pid p_id k of None \<Rightarrow> - ESRCH | Some p \<Rightarrow> session p)"

definition sys_setsid :: "task \<Rightarrow> kern \<Rightarrow> int \<times> kern" where
  "sys_setsid c k =
     (if list_ex (\<lambda>p. pgrp p = pid c) (tasks k) then (- EPERM, k)
      else (pid c, k\<lparr>tasks := on_task (pid c)
        (\<lambda>t. t\<lparr>leader := True, session := pid t, pgrp := pid t, tty := None, tty_old_pgrp := 0\<rparr>) (tasks k)\<rparr>))"

fun session_of_pgrp_loop :: "int \<Rightarrow> int \<Rightarrow> task list \<Rightarrow> int" where
  "session_of_pgrp_loop grp fallback [] = fallback"
| "session_of_pgrp_loop grp fallback (p # ps) =
     (if session p \<le> 0 then session_of_pgrp_loop grp fallback ps
      else if pgrp p = grp then session p
      else session_of_pgrp_loop grp (if pid p = grp then session p else fallback) ps)"

definition session_of_pgrp :: "int \<Rightarrow> kern \<Rightarrow> int" where
  "session_of_pgrp grp k = session_of_pgrp_loop grp (- 1) (tasks k)"

section \<open>Priorities\<close>

definition proc_sel :: "task \<Rightarrow> int \<Rightarrow> int \<Rightarrow> task \<Rightarrow> bool" where
  "proc_sel p which who c =
     (pid p \<noteq> 0 \<and>
      (if which = 0 then who = 0 \<and> pid p = pid c \<or> pid p = who
       else if which = 1 then pgrp p = (if who = 0 then pgrp c else who)
       else if which = 2 then uid (cr p) = (if who = 0 then uid (cr c) else of_int who)
       else False))"

fun setpriority_loop :: "int \<Rightarrow> int \<Rightarrow> int \<Rightarrow> task \<Rightarrow> int \<Rightarrow> cred \<Rightarrow> task list \<Rightarrow> int \<times> cred \<times> task list" where
  "setpriority_loop which who niceval c error ccr [] = (error, ccr, [])"
| "setpriority_loop which who niceval c error ccr (p # ps) =
     (let (p, error, ccr) =
        (if \<not> proc_sel p which who c then (p, error, ccr)
         else
          let (ok, ccr) = or_capable (uid (cr p) = euid (cr c) \<or> uid (cr p) = uid (cr c)) CAP_SYS_NICE ccr in
          if \<not> ok then (p, - EPERM, ccr)
          else
           let error = (if error = - ESRCH then 0 else error);
               (ok, ccr) = or_capable (\<not> niceval < nice p) CAP_SYS_NICE ccr in
           if \<not> ok then (p, - EACCES, ccr) else (p\<lparr>nice := niceval\<rparr>, error, ccr));
        (error, ccr, ps) = setpriority_loop which who niceval c error ccr ps in
      (error, ccr, p # ps))"

definition sys_setpriority :: "int \<Rightarrow> int \<Rightarrow> int \<Rightarrow> task \<Rightarrow> kern \<Rightarrow> int \<times> kern" where
  "sys_setpriority which who niceval c k =
     (if 2 < which \<or> which < 0 then (- EINVAL, k)
      else
       let niceval = (if niceval < - 20 then - 20 else niceval);
           niceval = (if 19 < niceval then 19 else niceval);
           (error, ccr, ts) = setpriority_loop which who niceval c (- ESRCH) (cr c) (tasks k) in
       (error, k\<lparr>tasks := on_task (pid c) (\<lambda>t. t\<lparr>cr := ccr\<rparr>) ts\<rparr>))"

definition sys_getpriority :: "int \<Rightarrow> int \<Rightarrow> task \<Rightarrow> kern \<Rightarrow> int" where
  "sys_getpriority which who c k =
     (if 2 < which \<or> which < 0 then - EINVAL
      else fold (\<lambda>p retval. if \<not> proc_sel p which who c then retval
                            else if retval < 20 - nice p then 20 - nice p else retval)
             (tasks k) (- ESRCH))"

section \<open>Capabilities of other processes\<close>

definition LINUX_CAPABILITY_VERSION :: u32 where "LINUX_CAPABILITY_VERSION = 0x19980330"

definition with_caps :: "cap_t \<Rightarrow> cap_t \<Rightarrow> cap_t \<Rightarrow> task \<Rightarrow> task" where
  "with_caps effective inheritable permitted t =
     t\<lparr>cr := (cr t)\<lparr>cap_effective := effective, cap_inheritable := inheritable, cap_permitted := permitted\<rparr>\<rparr>"

definition cap_set_pg :: "int \<Rightarrow> (task \<Rightarrow> task) \<Rightarrow> task list \<Rightarrow> task list" where
  "cap_set_pg grp set_caps ts = map (\<lambda>t. if pgrp t \<noteq> grp then t else set_caps t) ts"

definition cap_set_all :: "int \<Rightarrow> (task \<Rightarrow> task) \<Rightarrow> task list \<Rightarrow> task list" where
  "cap_set_all current set_caps ts = map (\<lambda>t. if pid t = current \<or> pid t = 1 then t else set_caps t) ts"

definition sys_capget :: "u32 \<Rightarrow> int \<Rightarrow> task \<Rightarrow> kern \<Rightarrow> int + cap_t \<times> cap_t \<times> cap_t" where
  "sys_capget version p_id c k =
     (if version \<noteq> LINUX_CAPABILITY_VERSION then Inl (- EINVAL)
      else if p_id < 0 then Inl (- EINVAL)
      else
       (case if p_id \<noteq> 0 \<and> p_id \<noteq> pid c then find_task_by_pid p_id k else Some c of
          None \<Rightarrow> Inl (- ESRCH)
        | Some target \<Rightarrow> Inr (cap_effective (cr target), cap_permitted (cr target), cap_inheritable (cr target))))"

definition sys_capset :: "u32 \<Rightarrow> int \<Rightarrow> cap_t \<Rightarrow> cap_t \<Rightarrow> cap_t \<Rightarrow> task \<Rightarrow> kern \<Rightarrow> int \<times> kern" where
  "sys_capset version p_id effective inheritable permitted c k =
     (if version \<noteq> LINUX_CAPABILITY_VERSION then (- EINVAL, k)
      else
       let (ok, ccr) = or_capable (p_id = 0) CAP_SETPCAP (cr c);
           k = k\<lparr>tasks := on_task (pid c) (\<lambda>t. t\<lparr>cr := ccr\<rparr>) (tasks k)\<rparr>;
           set_caps = with_caps effective inheritable permitted in
       if \<not> ok then (- EPERM, k)
       else
        (case if 0 < p_id \<and> p_id \<noteq> pid c then find_task_by_pid p_id k else Some (c\<lparr>cr := ccr\<rparr>) of
           None \<Rightarrow> (- ESRCH, k)
         | Some target \<Rightarrow>
             if \<not> cap_issubset inheritable (cap_combine (cap_inheritable (cr target)) (cap_permitted ccr)) then (- EPERM, k)
             else if \<not> cap_issubset permitted (cap_combine (cap_permitted (cr target)) (cap_permitted ccr)) then (- EPERM, k)
             else if \<not> cap_issubset effective permitted then (- EPERM, k)
             else if p_id < 0 then
               (0, k\<lparr>tasks := (if p_id = - 1 then cap_set_all (pid c) set_caps (tasks k)
                              else cap_set_pg (- p_id) set_caps (tasks k))\<rparr>)
             else (0, k\<lparr>tasks := on_task (pid target) set_caps (tasks k)\<rparr>)))"

section \<open>Steps of the system\<close>

text \<open>
  One call of one process.  A process that is released has no children left, since
  \<^verbatim>\<open>exit_notify\<close> has given them away; who takes them is a process of the list.
\<close>

inductive kstep :: "kern \<Rightarrow> kern \<Rightarrow> bool" where
  Fork: "c \<in> set (tasks k) \<Longrightarrow> do_fork clone_flags e c k = Some (ret, k') \<Longrightarrow> kstep k k'"
| Exit: "c \<in> set (tasks k) \<Longrightarrow> pid c \<noteq> child_reaper \<Longrightarrow> child_reaper \<in> pid ` set (tasks k) \<Longrightarrow> reaper \<in> pid ` set (tasks k) \<Longrightarrow>
    kstep k (k\<lparr>tasks := exit_children (pid c) (forget_original_parent child_reaper reaper (pid c) (tasks k))\<rparr>)"
| Release: "p \<in> set (tasks k) \<Longrightarrow> c \<in> set (tasks k) \<Longrightarrow>
    \<forall>t \<in> set (tasks k). p_pptr t \<noteq> pid p \<and> p_opptr t \<noteq> pid p \<Longrightarrow> kstep k (release_task p c k)"
| Setpgid: "c \<in> set (tasks k) \<Longrightarrow> kstep k (snd (sys_setpgid p_id pgid c k))"
| Setsid: "c \<in> set (tasks k) \<Longrightarrow> kstep k (snd (sys_setsid c k))"
| Setpriority: "c \<in> set (tasks k) \<Longrightarrow> kstep k (snd (sys_setpriority which who niceval c k))"
| Capset: "c \<in> set (tasks k) \<Longrightarrow> kstep k (snd (sys_capset version p_id effective inheritable permitted c k))"
| Identity: "c \<in> set (tasks k) \<Longrightarrow> exec_call sb call (users k, cr c) = (h, cr1) \<Longrightarrow>
    kstep k (k\<lparr>users := h, tasks := on_task (pid c) (\<lambda>t. t\<lparr>cr := cr1\<rparr>) (tasks k)\<rparr>)"

end
