(* ===== verification/Task_Safety.thy ===== *)
theory Task_Safety
  imports Tasks
begin

unbundle bit_operations_syntax

text \<open>
  The state of the process tables is kept well formed by every step: the user cache counts the
  processes of every user, process identifiers are distinct and found through the hash table,
  process groups do not cross sessions, capabilities do not appear.  The locale
  \<open>cred_closed\<close> carries a property through all identity calls; it is interpreted on the user
  counts and on the capability sets.
\<close>

section \<open>The user cache as a function\<close>

definition user_at :: "uidhash \<Rightarrow> uid_t \<Rightarrow> user_struct option" where
  "user_at h u = find (\<lambda>up. us_uid up = u) (h (uidhashfn u))"

definition chains_ok :: "uidhash \<Rightarrow> bool" where
  "chains_ok h \<longleftrightarrow> (\<forall>e. distinct (map us_uid (h e)))"

lemma find_map_same:
  assumes "\<And>up. us_uid (f up) = us_uid up"
  shows "find (\<lambda>up. us_uid up = v) (map (\<lambda>up. if us_uid up = u then f up else up) ups) =
    (if v = u then map_option f (find (\<lambda>up. us_uid up = v) ups) else find (\<lambda>up. us_uid up = v) ups)"
  by (induction ups) (auto simp: assms)

lemma map_uid_same:
  assumes "\<And>up. us_uid (f up) = us_uid up"
  shows "map us_uid (map (\<lambda>up. if us_uid up = u then f up else up) ups) = map us_uid ups"
  by (induction ups) (auto simp: assms)

lemma on_user_at:
  assumes "\<And>up. us_uid (f up) = us_uid up"
  shows "user_at (on_user u f h) v = (if v = u then map_option f (user_at h u) else user_at h v)"
  by (auto simp: user_at_def on_user_def find_map_same [of f, OF assms])

lemma on_user_chains:
  assumes "\<And>up. us_uid (f up) = us_uid up"
  shows "chains_ok (on_user u f h) \<longleftrightarrow> chains_ok h"
  by (auto simp: chains_ok_def on_user_def map_uid_same [of f, OF assms] simp del: map_map)

lemma find_remove:
  assumes "distinct (map us_uid ups)"
  shows "find (\<lambda>up. us_uid up = v) (uid_hash_remove u ups) = (if v = u then None else find (\<lambda>up. us_uid up = v) ups)"
  using assms by (induction ups) (auto simp: find_None_iff image_iff)

lemma remove_uids: "map us_uid (uid_hash_remove u ups) = remove1 u (map us_uid ups)"
  by (induction ups) auto

lemma find_uid: "find (\<lambda>up. us_uid up = u) ups = None \<longleftrightarrow> u \<notin> us_uid ` set ups"
  by (auto simp: find_None_iff)

lemma find_uid_distinct:
  "distinct (map us_uid ups) \<Longrightarrow> (\<exists>up \<in> set ups. us_uid up = u \<and> P up) \<longleftrightarrow>
    (\<exists>up. find (\<lambda>up. us_uid up = u) ups = Some up \<and> P up)"
  by (induction ups) (auto intro: rev_image_eqI)

definition held :: "user_struct \<Rightarrow> user_struct" where "held up = up\<lparr>us_count := us_count up + 1\<rparr>"
definition dropped :: "user_struct \<Rightarrow> user_struct" where "dropped up = up\<lparr>us_count := us_count up - 1\<rparr>"

lemma held_uid [simp]: "us_uid (held up) = us_uid up" "us_uid (dropped up) = us_uid up"
  by (simp_all add: held_def dropped_def)

lemma uid_hash_find_eq:
  "distinct (map us_uid ups) \<Longrightarrow> uid_hash_find u ups =
    (if u \<in> us_uid ` set ups then Some (map (\<lambda>up. if us_uid up = u then held up else up) ups) else None)"
proof (induction ups)
  case (Cons up ups)
  show ?case
  proof (cases "us_uid up = u")
    case True
    then have "map (\<lambda>up. if us_uid up = u then held up else up) ups = ups"
      using Cons.prems by (intro map_idI) (auto intro: rev_image_eqI)
    then show ?thesis using True by (simp add: held_def)
  qed (use Cons in auto)
qed simp

lemma alloc_uid_at:
  assumes "chains_ok h"
  shows "alloc_uid mem u h =
    (case user_at h u of
       Some _ \<Rightarrow> (True, on_user u held h)
     | None \<Rightarrow> if \<not> mem then (False, h)
         else (True, h(uidhashfn u := \<lparr>us_uid = u, us_count = 1, us_processes = 0\<rparr> # h (uidhashfn u))))"
proof -
  have d: "distinct (map us_uid (h (uidhashfn u)))" using assms by (simp add: chains_ok_def)
  show ?thesis
    using find_uid [of u "h (uidhashfn u)"]
    by (auto simp: alloc_uid_def uid_hash_find_eq [OF d] user_at_def on_user_def uid_hash_insert_def split: option.splits)
qed

lemma free_uid_at:
  assumes "chains_ok h"
  shows "chains_ok (free_uid u h)"
    "user_at (free_uid u h) v = (if v \<noteq> u then user_at h v else
       case user_at h u of None \<Rightarrow> None | Some up \<Rightarrow> if us_count up = 1 then None else Some (dropped up))"
proof -
  define h1 where "h1 = on_user u dropped h"
  have ok: "chains_ok h1" using assms by (simp add: h1_def on_user_chains)
  have at: "user_at h1 v = (if v = u then map_option dropped (user_at h u) else user_at h v)" for v
    by (simp add: h1_def on_user_at)
  have d: "distinct (map us_uid (h1 e))" for e using ok by (simp add: chains_ok_def)
  have zero: "(\<exists>up \<in> set (h1 (uidhashfn u)). us_uid up = u \<and> us_count up = 0) \<longleftrightarrow>
      (\<exists>up. user_at h1 u = Some up \<and> us_count up = 0)"
    unfolding user_at_def by (rule find_uid_distinct [OF d])
  have eq: "free_uid u h = (if \<exists>up. user_at h1 u = Some up \<and> us_count up = 0
      then h1(uidhashfn u := uid_hash_remove u (h1 (uidhashfn u))) else h1)"
    unfolding free_uid_def Let_def dropped_def [abs_def, symmetric] h1_def [symmetric] zero ..
  show "chains_ok (free_uid u h)"
    using d by (auto simp: eq chains_ok_def remove_uids)
  show "user_at (free_uid u h) v = (if v \<noteq> u then user_at h v else
       case user_at h u of None \<Rightarrow> None | Some up \<Rightarrow> if us_count up = 1 then None else Some (dropped up))"
  proof -
    have "user_at (h1(uidhashfn u := uid_hash_remove u (h1 (uidhashfn u)))) v = (if v = u then None else user_at h1 v)"
      using find_remove [OF d] by (auto simp: user_at_def)
    then show ?thesis using at by (auto simp: eq dropped_def split: option.splits)
  qed
qed

text \<open>The table says of every user how many processes there are, and holds the users that have some.\<close>

definition counted :: "(uid_t \<Rightarrow> nat) \<Rightarrow> uidhash \<Rightarrow> bool" where
  "counted N h \<longleftrightarrow> chains_ok h \<and>
     (\<forall>u. user_at h u = (if N u = 0 then None else Some \<lparr>us_uid = u, us_count = int (N u), us_processes = int (N u)\<rparr>))"

definition moved :: "uid_t \<Rightarrow> uid_t \<Rightarrow> (uid_t \<Rightarrow> nat) \<Rightarrow> uid_t \<Rightarrow> nat" where
  "moved a b N = (let N = N(a := N a - 1) in N(b := N b + 1))"

lemma moved_same [simp]: "0 < N a \<Longrightarrow> moved a a N = N"
  by (auto simp: moved_def)

lemma counted_get: "counted N h \<Longrightarrow> 0 < N u \<Longrightarrow> counted (N(u := N u + 1)) (get_user_count u h)"
  by (auto simp: counted_def get_user_count_def on_user_at on_user_chains)

lemma counted_put: "counted N h \<Longrightarrow> 0 < N u \<Longrightarrow> counted (N(u := N u - 1)) (put_user_count u h)"
  by (auto simp: counted_def put_user_count_def on_user_at on_user_chains free_uid_at dropped_def of_nat_diff)

lemma counted_alloc:
  assumes "counted N h" "alloc_uid mem u h = (True, h')"
  shows "chains_ok h'" "user_at h' v = (if v = u then Some \<lparr>us_uid = u, us_count = int (N u) + 1, us_processes = int (N u)\<rparr> else user_at h v)"
proof -
  have ok: "chains_ok h" and at: "\<And>u. user_at h u = (if N u = 0 then None else Some \<lparr>us_uid = u, us_count = int (N u), us_processes = int (N u)\<rparr>)"
    using assms(1) by (auto simp: counted_def)
  have new: "u \<notin> us_uid ` set (h (uidhashfn u))" if "N u = 0"
    using at [of u] that find_uid [of u "h (uidhashfn u)"] by (simp add: user_at_def)
  have "chains_ok h' \<and> user_at h' v =
      (if v = u then Some \<lparr>us_uid = u, us_count = int (N u) + 1, us_processes = int (N u)\<rparr> else user_at h v)" for v
  proof (cases "N u = 0")
    case True
    then have "h' = h(uidhashfn u := \<lparr>us_uid = u, us_count = 1, us_processes = 0\<rparr> # h (uidhashfn u))"
      using assms(2) at [of u] by (auto simp: alloc_uid_at [OF ok] split: if_splits)
    then show ?thesis using True new ok by (auto simp: user_at_def chains_ok_def)
  next
    case False
    then have "h' = on_user u held h" using assms(2) at [of u] by (auto simp: alloc_uid_at [OF ok])
    then show ?thesis using False at [of u] ok by (simp add: on_user_at on_user_chains held_def)
  qed
  then show "chains_ok h'" "user_at h' v =
      (if v = u then Some \<lparr>us_uid = u, us_count = int (N u) + 1, us_processes = int (N u)\<rparr> else user_at h v)"
    by blast+
qed

lemma counted_set_user:
  assumes "counted N h" "0 < N (user t)" "set_user mem u d (h, t) = (ret, (h', t'))"
  shows "counted (moved (user t) (user t') N) h'"
proof (cases "fst (alloc_uid mem u h)")
  case False
  then have "h' = snd (alloc_uid mem u h)" "t' = t" using assms(3) by (auto simp: set_user_def split: prod.splits if_splits)
  moreover have "snd (alloc_uid mem u h) = h"
    using False assms(1) by (auto simp: alloc_uid_at counted_def split: option.splits if_splits)
  ultimately show ?thesis using assms by simp
next
  case True
  then obtain h1 where h1: "alloc_uid mem u h = (True, h1)" by (metis prod.exhaust fst_conv)
  define p1 :: "user_struct \<Rightarrow> user_struct" where "p1 = (\<lambda>up. up\<lparr>us_processes := us_processes up - 1\<rparr>)"
  define p2 :: "user_struct \<Rightarrow> user_struct" where "p2 = (\<lambda>up. up\<lparr>us_processes := us_processes up + 1\<rparr>)"
  have [simp]: "us_uid (p1 up) = us_uid up" "us_uid (p2 up) = us_uid up" for up by (simp_all add: p1_def p2_def)
  have h': "h' = free_uid (user t) (on_user u p2 (on_user (user t) p1 h1))" "user t' = u"
    using assms(3) h1 by (auto simp: set_user_def p1_def p2_def Let_def undumpable_if_def)
  note a = counted_alloc [OF assms(1) h1]
  have "user_at h v = (if N v = 0 then None else Some \<lparr>us_uid = v, us_count = int (N v), us_processes = int (N v)\<rparr>)" for v
    using assms(1) by (simp add: counted_def)
  then show ?thesis
    using assms(2) unfolding counted_def h'
    by (auto simp: a free_uid_at on_user_at on_user_chains moved_def p1_def p2_def dropped_def of_nat_diff)
qed

section \<open>What every identity call keeps\<close>

lemma capable_sel [simp]:
  "user (snd (capable cap t)) = user t" "user (snd (or_capable b cap t)) = user t"
  "cap_effective (snd (capable cap t)) = cap_effective t" "cap_effective (snd (or_capable b cap t)) = cap_effective t"
  "cap_permitted (snd (capable cap t)) = cap_permitted t" "cap_permitted (snd (or_capable b cap t)) = cap_permitted t"
  "cap_inheritable (snd (capable cap t)) = cap_inheritable t" "cap_inheritable (snd (or_capable b cap t)) = cap_inheritable t"
  by (simp_all add: capable_def or_capable_def)

lemma user_undumpable [simp]: "user (undumpable_if b t) = user t"
  by (simp add: undumpable_if_def)

definition same_power :: "cred \<Rightarrow> cred \<Rightarrow> bool" where
  "same_power t t' \<longleftrightarrow> user t' = user t \<and> cap_effective t' = cap_effective t \<and> cap_permitted t' = cap_permitted t \<and>
     cap_inheritable t' = cap_inheritable t"

lemma same_power_capable: "same_power t (snd (capable cap t))" "same_power t (snd (or_capable b cap t))"
  by (simp_all add: same_power_def)

lemma same_power_groups:
  "same_power t (snd (sys_setregid r e t))" "same_power t (snd (sys_setgid g t))"
  "same_power t (snd (sys_setresgid r e sg t))" "same_power t (snd (sys_setfsgid g t))"
  "same_power t (snd (sys_setgroups gs t))" "same_power t (snd (prctl_keepcaps a t))"
  by (simp_all add: same_power_def sys_setregid_def sys_setgid_def sys_setresgid_def sys_setfsgid_def sys_setgroups_def
    prctl_keepcaps_def capable_def or_capable_def Let_def)

text \<open>
  A property of the user cache and a process that survives a change of the real user through
  \<^verbatim>\<open>set_user\<close>, the emulation, and the two calls that set capabilities, and that depends on
  nothing else than the user and the capability sets, survives every identity call.
\<close>

locale cred_closed =
  fixes Q :: "kstate \<Rightarrow> bool"
  assumes plain: "Q (h, t) \<Longrightarrow> same_power t t' \<Longrightarrow> Q (h, t')"
    and set_user: "Q k \<Longrightarrow> Q (snd (set_user mem u d k))"
    and emulate: "Q (h, t) \<Longrightarrow> Q (h, cap_emulate_setxuid a b c t)"
    and setfsuid: "Q (h, t) \<Longrightarrow> Q (h, snd (sys_setfsuid sb u t))"
    and capset: "Q (h, t) \<Longrightarrow> Q (h, snd (sys_capset_self e i p t))"
begin

lemma fixup: "Q (h, t) \<Longrightarrow> same_power t t' \<Longrightarrow> Q (snd (fixup sb a b c (h, t')))"
  using plain emulate by (auto simp: fixup_def)

lemma set_user_if:
  assumes "Q (h, s)" "(if c then set_user mem u d (h, s) else (0, (h, s))) = (ret, (h1, t1))"
  shows "Q (h1, t1)"
  using assms set_user [OF assms(1), of mem u d] by (cases c) auto

lemma setuid:
  assumes "Q (h, t)"
  shows "Q (snd (sys_setuid sb mem u (h, t)))"
proof -
  obtain cap s where cap: "capable CAP_SETUID t = (cap, s)" by (metis prod.exhaust)
  then have s: "Q (h, s)" using same_power_capable(1) [of t CAP_SETUID] by (intro plain [OF assms]) simp
  obtain ret h1 t1 where k1: "(if u \<noteq> uid t then set_user mem u (euid t \<noteq> u) (h, s) else (0, (h, s))) = (ret, (h1, t1))"
    by (metis prod.exhaust)
  note q1 = set_user_if [OF s k1]
  show ?thesis
  proof (cases cap)
    case True
    show ?thesis
      using k1 q1 True by (cases "ret < 0")
        (simp_all add: sys_setuid_def Let_def cap split del: if_split, rule fixup [OF q1], auto simp: same_power_def)
  next
    case False
    then show ?thesis using s by (auto simp: sys_setuid_def Let_def cap intro!: fixup [OF s] simp: same_power_def)
  qed
qed

lemma setreuid:
  assumes "Q (h, t)"
  shows "Q (snd (sys_setreuid sb mem ru eu (h, t)))"
proof -
  let ?b1 = "ru = - 1 \<or> uid t = ru \<or> euid t = ru"
  obtain ok1 s1 where c1: "or_capable ?b1 CAP_SETUID t = (ok1, s1)" by (metis prod.exhaust)
  let ?b2 = "eu = - 1 \<or> uid t = eu \<or> euid s1 = eu \<or> suid s1 = eu"
  obtain ok2 s2 where c2: "or_capable ?b2 CAP_SETUID s1 = (ok2, s2)" by (metis prod.exhaust)
  have s1: "Q (h, s1)" using same_power_capable(2) [of t ?b1 CAP_SETUID] c1 by (intro plain [OF assms]) simp
  have s2: "Q (h, s2)" using same_power_capable(2) [of s1 ?b2 CAP_SETUID] c2 by (intro plain [OF s1]) simp
  let ?nr = "if ru \<noteq> - 1 then ru else uid t" and ?ne = "if eu \<noteq> - 1 then eu else euid t"
  obtain ret h1 t1 where k1: "(if ?nr \<noteq> uid t then set_user mem ?nr (?ne \<noteq> euid t) (h, s2) else (0, (h, s2))) = (ret, (h1, t1))"
    by (metis prod.exhaust)
  note q1 = set_user_if [OF s2 k1]
  show ?thesis
  proof (cases "ok1 \<and> ok2")
    case True
    then show ?thesis
      using k1 q1 by (cases "ret < 0")
        (simp_all add: sys_setreuid_def Let_def c1 c2 cong: if_cong split del: if_split, rule fixup [OF q1], auto simp: same_power_def)
  next
    case False
    then show ?thesis using s1 s2 by (auto simp: sys_setreuid_def Let_def c1 c2)
  qed
qed

lemma setresuid:
  assumes "Q (h, t)"
  shows "Q (snd (sys_setresuid sb mem ru eu su (h, t)))"
proof -
  obtain cap s where cap: "capable CAP_SETUID t = (cap, s)" by (metis prod.exhaust)
  then have s: "Q (h, s)" using same_power_capable(1) [of t CAP_SETUID] by (intro plain [OF assms]) simp
  obtain ret h1 t1 where k1: "(if ru \<noteq> - 1 \<and> ru \<noteq> uid s then set_user mem ru (eu \<noteq> euid s) (h, s) else (0, (h, s))) = (ret, (h1, t1))"
    by (metis prod.exhaust)
  note q1 = set_user_if [OF s k1]
  define bad where "bad \<longleftrightarrow> \<not> cap \<and> \<not> (one_of ru (uid s) (euid s) (suid s) \<and> one_of eu (uid s) (euid s) (suid s) \<and> one_of su (uid s) (euid s) (suid s))"
  show ?thesis
  proof (cases bad)
    case False
    then have ok: "(\<not> cap \<and> \<not> one_of ru (uid s) (euid s) (suid s)) = False" "(\<not> cap \<and> \<not> one_of eu (uid s) (euid s) (suid s)) = False"
        "(\<not> cap \<and> \<not> one_of su (uid s) (euid s) (suid s)) = False"
      by (auto simp: bad_def)
    show ?thesis
      using k1 q1 by (cases "ret < 0")
        (simp_all only: sys_setresuid_def Let_def cap ok prod.case if_False if_True k1 snd_conv, rule fixup [OF q1], auto simp: same_power_def)
  next
    case True
    then show ?thesis using s by (auto simp: sys_setresuid_def Let_def cap bad_def)
  qed
qed

lemma exec_keeps: "Q k \<Longrightarrow> Q (exec_call sb call k)"
  by (cases k; cases call) (auto intro: plain same_power_groups setuid setreuid setresuid setfsuid capset)

end

lemma moved_moved: "0 < N a \<Longrightarrow> moved b c (moved a b N) = moved a c N"
  by (auto simp: moved_def fun_eq_iff)

lemma moved_pos: "0 < moved a b N b"
  by (simp add: moved_def)

lemma user_same [simp]:
  "user (cap_emulate_setxuid a b c t) = user t" "user (snd (sys_setfsuid sb u t)) = user t"
  "user (snd (sys_capset_self e i p t)) = user t"
  by (simp_all add: cap_emulate_setxuid_def sys_setfsuid_def sys_capset_self_def capable_def or_capable_def Let_def)

interpretation user_counts: cred_closed "\<lambda>(h, t). 0 < N a \<and> counted (moved a (user t) N) h" for N a
proof unfold_locales
  fix k :: kstate and mem u d
  assume "case k of (h, t) \<Rightarrow> 0 < N a \<and> counted (moved a (user t) N) h"
  then obtain h t where k: "k = (h, t)" "0 < N a" "counted (moved a (user t) N) h" by (cases k) auto
  obtain ret h' t' where s: "set_user mem u d (h, t) = (ret, (h', t'))" by (metis prod.exhaust)
  show "case snd (set_user mem u d k) of (h, t) \<Rightarrow> 0 < N a \<and> counted (moved a (user t) N) h"
    using counted_set_user [OF k(3) moved_pos s] moved_moved [of N a] k(1,2) s by simp
qed (auto simp: same_power_def)

lemma counted_exec_call:
  assumes "counted N (fst k)" "0 < N (user (snd k))"
  shows "counted (moved (user (snd k)) (user (snd (exec_call sb call k))) N) (fst (exec_call sb call k))"
  using user_counts.exec_keeps [of N "user (snd k)" k sb call] assms by (simp add: case_prod_beta)

section \<open>Well-formed states\<close>

text \<open>Process groups do not cross sessions; a group named after a process is in its session.\<close>

definition sessions_ok :: "task list \<Rightarrow> bool" where
  "sessions_ok ts \<longleftrightarrow> (\<forall>s \<in> set ts. \<forall>t \<in> set ts. pgrp s = pgrp t \<or> pgrp s = pid t \<longrightarrow> session s = session t)"

definition task_ok :: "int set \<Rightarrow> task \<Rightarrow> bool" where
  "task_ok ps t \<longleftrightarrow> 0 < pid t \<and> p_pptr t \<in> insert 0 ps \<and> p_opptr t \<in> insert 0 ps \<and>
     (leader t \<longrightarrow> session t = pid t \<and> pgrp t = pid t) \<and> - 20 \<le> nice t \<and> nice t \<le> 19"

definition hash_ok :: "int set \<Rightarrow> pidhash \<Rightarrow> bool" where
  "hash_ok ps h \<longleftrightarrow> (\<forall>e. distinct (h e) \<and> set (h e) = {q \<in> ps. pid_hashfn q = e})"

definition core_ok :: "kern \<Rightarrow> bool" where
  "core_ok k \<longleftrightarrow> distinct (map pid (tasks k)) \<and> (\<forall>t \<in> set (tasks k). task_ok (pid ` set (tasks k)) t) \<and>
     sessions_ok (tasks k) \<and> pids_ok (tasks k) (last_pid k) (next_safe k) \<and>
     hash_ok (pid ` set (tasks k)) (pidhash k) \<and> nr_threads k = int (length (tasks k)) \<and>
     nr_threads k \<le> max_threads k \<and> max_threads k \<le> 8116"

text \<open>The idle process counts for root.\<close>

definition procs :: "task list \<Rightarrow> uid_t \<Rightarrow> nat" where
  "procs ts u = length (filter (\<lambda>t. user (cr t) = u) ts) + (if u = 0 then 1 else 0)"

definition kern_ok :: "kern \<Rightarrow> bool" where
  "kern_ok k \<longleftrightarrow> core_ok k \<and> counted (procs (tasks k)) (users k)"

lemma procs_append [simp]:
  "procs (xs @ t # ys) u = procs (xs @ ys) u + (if user (cr t) = u then 1 else 0)"
  by (simp add: procs_def)

lemma procs_pos: "t \<in> set ts \<Longrightarrow> 0 < procs ts (user (cr t))"
  by (auto simp: procs_def filter_empty_conv length_greater_0_conv [symmetric] simp del: length_greater_0_conv intro!: trans_less_add1)

lemma on_task_split:
  assumes "distinct (map pid ts)" "c \<in> set ts"
  obtains xs ys where "ts = xs @ c # ys" "\<And>f. on_task (pid c) f ts = xs @ f c # ys"
proof -
  obtain xs ys where ts: "ts = xs @ c # ys" using assms(2) by (meson split_list)
  have "on_task (pid c) f ts = xs @ f c # ys" for f
    using assms(1) unfolding ts on_task_def by (auto intro!: map_idI) (metis image_eqI)+
  then show thesis using ts that by blast
qed

text \<open>Fields that most calls leave alone.\<close>

definition same_ids :: "task \<Rightarrow> task \<Rightarrow> bool" where
  "same_ids t t' \<longleftrightarrow> pid t' = pid t \<and> pgrp t' = pgrp t \<and> tgid t' = tgid t \<and> session t' = session t \<and>
     leader t' = leader t \<and> p_opptr t' = p_opptr t \<and> p_pptr t' = p_pptr t"

definition framed :: "task \<Rightarrow> task \<Rightarrow> bool" where
  "framed t t' \<longleftrightarrow> same_ids t t' \<and> (nice t' = nice t \<or> - 20 \<le> nice t' \<and> nice t' \<le> 19)"

lemma framed_pids: "list_all2 framed ts ts' \<Longrightarrow> map pid ts' = map pid ts"
  by (induction rule: list_all2_induct) (auto simp: framed_def same_ids_def)

lemma framed_set: "list_all2 framed ts ts' \<Longrightarrow> t' \<in> set ts' \<Longrightarrow> \<exists>t \<in> set ts. framed t t'"
  by (induction rule: list_all2_induct) auto

lemma core_framed:
  assumes "core_ok k" "list_all2 framed (tasks k) ts'"
  shows "core_ok (k\<lparr>tasks := ts'\<rparr>)"
proof -
  have pids: "map pid ts' = map pid (tasks k)" using framed_pids [OF assms(2)] .
  then have ps: "pid ` set ts' = pid ` set (tasks k)" by (metis set_map)
  have old: "\<exists>t \<in> set (tasks k). framed t t'" if "t' \<in> set ts'" for t' using framed_set [OF assms(2) that] .
  have "task_ok (pid ` set (tasks k)) t'" if t': "t' \<in> set ts'" for t'
    using old [OF t'] assms(1) by (auto simp: core_ok_def task_ok_def framed_def same_ids_def)
  moreover have "sessions_ok ts'"
    using old assms(1) unfolding sessions_ok_def core_ok_def framed_def same_ids_def by metis
  moreover have "pids_ok ts' (last_pid k) (next_safe k)"
    using old assms(1) by (fastforce simp: core_ok_def pids_ok_def clear_above_def ids_def framed_def same_ids_def)
  ultimately show ?thesis
    using assms pids ps list_all2_lengthD [OF assms(2)] by (simp add: core_ok_def)
qed

lemma core_users [simp]: "core_ok (k\<lparr>users := h\<rparr>) = core_ok k" "core_ok (k\<lparr>tasks := ts, users := h\<rparr>) = core_ok (k\<lparr>tasks := ts\<rparr>)"
  by (simp_all add: core_ok_def)

lemma framed_on_task:
  assumes "\<And>t. framed t (f t)"
  shows "list_all2 framed ts (on_task p f ts)"
  using assms by (auto simp: on_task_def list_all2_conv_all_nth framed_def same_ids_def)

lemma framed_cr [simp]: "framed t (t\<lparr>cr := x\<rparr>)"
  by (simp add: framed_def same_ids_def)

section \<open>Looking up a process\<close>

lemma chain_find_iff: "chain_find p qs = (if p \<in> set qs then Some p else None)"
  by (induction qs) auto

lemma deref_iff:
  assumes "distinct (map pid ts)"
  shows "deref p ts = Some t \<longleftrightarrow> t \<in> set ts \<and> pid t = p"
  using assms unfolding deref_def by (induction ts) (auto intro: rev_image_eqI)

lemma find_task_iff:
  assumes "core_ok k"
  shows "find_task_by_pid p k = Some t \<longleftrightarrow> t \<in> set (tasks k) \<and> pid t = p"
proof -
  have "p \<in> set (pidhash k (pid_hashfn p)) \<longleftrightarrow> p \<in> pid ` set (tasks k)"
    using assms by (auto simp: core_ok_def hash_ok_def)
  moreover have "distinct (map pid (tasks k))" using assms by (simp add: core_ok_def)
  ultimately show ?thesis
    by (auto simp: find_task_by_pid_def chain_find_iff deref_iff split: option.splits)
qed

lemma find_task_None: "core_ok k \<Longrightarrow> find_task_by_pid p k = None \<longleftrightarrow> p \<notin> pid ` set (tasks k)"
  using find_task_iff [of k p] not_Some_eq [of "find_task_by_pid p k"] unfolding image_iff by metis

lemma hash_ok_hash: "hash_ok ps h \<Longrightarrow> p \<notin> ps \<Longrightarrow> hash_ok (insert p ps) (hash_pid p h)"
  by (auto simp: hash_ok_def hash_pid_def)

lemma hash_ok_unhash: "hash_ok ps h \<Longrightarrow> hash_ok (ps - {p}) (unhash_pid p h)"
  by (auto simp: hash_ok_def unhash_pid_def)

section \<open>Every call keeps the state well formed\<close>

lemma core_changed:
  assumes "core_ok k" "tasks k = xs @ p # ys" "pid p' = pid p" "task_ok (pid ` set (tasks k)) p'"
    "ids p' \<subseteq> \<Union> (ids ` set (tasks k))" "sessions_ok (xs @ p' # ys)"
  shows "core_ok (k\<lparr>tasks := xs @ p' # ys\<rparr>)"
proof -
  have "clear_above (last_pid k) (next_safe k) p'"
    using assms(1,5) unfolding core_ok_def pids_ok_def clear_above_def by fast
  then show ?thesis using assms by (auto simp: core_ok_def pids_ok_def)
qed

lemma sessions_changed:
  assumes "sessions_ok (xs @ p # ys)" "pid p' = pid p"
    "\<forall>t \<in> set (xs @ ys). (pgrp p' = pgrp t \<or> pgrp p' = pid t \<or> pgrp t = pid p' \<longrightarrow> session t = session p')"
  shows "sessions_ok (xs @ p' # ys)"
proof -
  have old: "session s = session t" if "s \<in> set (xs @ ys)" "t \<in> set (xs @ ys)" "pgrp s = pgrp t \<or> pgrp s = pid t" for s t
    using assms(1) [unfolded sessions_ok_def, rule_format, of s t] that by simp
  have new: "session t = session p'" if "t \<in> set (xs @ ys)" "pgrp p' = pgrp t \<or> pgrp p' = pid t \<or> pgrp t = pid p'" for t
    using assms(3) that by blast
  show ?thesis
    unfolding sessions_ok_def
  proof (intro ballI impI)
    fix s t
    assume "s \<in> set (xs @ p' # ys)" "t \<in> set (xs @ p' # ys)" and eq: "pgrp s = pgrp t \<or> pgrp s = pid t"
    then consider "s = p'" "t = p'" | "s = p'" "t \<in> set (xs @ ys)" | "s \<in> set (xs @ ys)" "t = p'"
      | "s \<in> set (xs @ ys)" "t \<in> set (xs @ ys)" by auto
    then show "session s = session t"
    proof cases
      case 2
      from new [OF this(2)] eq show ?thesis unfolding \<open>s = p'\<close> by metis
    next
      case 3
      from new [OF this(1)] eq show ?thesis unfolding \<open>t = p'\<close> by metis
    next
      case 4
      then show ?thesis using eq by (intro old)
    qed simp
  qed
qed

lemma core_setsid:
  assumes "core_ok k" "c \<in> set (tasks k)"
  shows "core_ok (snd (sys_setsid c k))"
proof (cases "list_ex (\<lambda>p. pgrp p = pid c) (tasks k)")
  case False
  have d: "distinct (map pid (tasks k))" using assms by (simp add: core_ok_def)
  obtain xs ys where ts: "tasks k = xs @ c # ys" "\<And>f. on_task (pid c) f (tasks k) = xs @ f c # ys"
    using on_task_split [OF d assms(2)] by blast
  define c' where "c' = c\<lparr>leader := True, session := pid c, pgrp := pid c, tty := None, tty_old_pgrp := 0\<rparr>"
  have eq: "snd (sys_setsid c k) = k\<lparr>tasks := xs @ c' # ys\<rparr>"
    using False by (simp add: sys_setsid_def ts(2) c'_def)
  have "pgrp t \<noteq> pid c" "pid t \<noteq> pid c" if "t \<in> set (xs @ ys)" for t
    using False d that by (auto simp: list_ex_iff ts(1)) (metis image_eqI)+
  note others = this
  have "sessions_ok (xs @ c # ys)" using assms(1) by (simp add: core_ok_def ts(1))
  then have "sessions_ok (xs @ c' # ys)"
  proof (rule sessions_changed)
    show "\<forall>t \<in> set (xs @ ys). pgrp c' = pgrp t \<or> pgrp c' = pid t \<or> pgrp t = pid c' \<longrightarrow> session t = session c'"
    proof
      fix t assume "t \<in> set (xs @ ys)"
      from others [OF this] show "pgrp c' = pgrp t \<or> pgrp c' = pid t \<or> pgrp t = pid c' \<longrightarrow> session t = session c'"
        by (simp add: c'_def)
    qed
  qed (simp add: c'_def)
  then show ?thesis
    unfolding eq using assms ts(1) by (intro core_changed) (auto simp: core_ok_def task_ok_def ids_def c'_def)
qed (use assms in \<open>simp add: sys_setsid_def\<close>)

lemma core_setpgid:
  assumes "core_ok k" "c \<in> set (tasks k)"
  shows "core_ok (snd (sys_setpgid p_id pgid c k))"
proof (cases "snd (sys_setpgid p_id pgid c k) = k")
  case False
  define q where "q = (if p_id = 0 then pid c else p_id)"
  define g where "g = (if pgid = 0 then q else pgid)"
  obtain p where p: "find_task_by_pid q k = Some p" "p_pptr p = pid c \<or> p_opptr p = pid c \<longrightarrow> session p = session c"
      "p_pptr p = pid c \<or> p_opptr p = pid c \<or> pid p = pid c" "\<not> leader p"
      "g = q \<or> list_ex (\<lambda>tmp. pgrp tmp = g \<and> session tmp = session c) (tasks k)"
    and eq: "snd (sys_setpgid p_id pgid c k) = k\<lparr>tasks := on_task q (\<lambda>t. t\<lparr>pgrp := g\<rparr>) (tasks k)\<rparr>"
    using False by (auto simp: sys_setpgid_def q_def [symmetric] g_def [symmetric] Let_def split: option.splits if_splits)
  have d: "distinct (map pid (tasks k))" using assms by (simp add: core_ok_def)
  have mem: "p \<in> set (tasks k)" "pid p = q" using p(1) find_task_iff [OF assms(1)] by auto
  have ses: "session p = session c"
    using p(2,3) mem(1) assms(2) d by (metis deref_iff option.inject)
  obtain xs ys where ts: "tasks k = xs @ p # ys" "\<And>f. on_task q f (tasks k) = xs @ f p # ys"
    using on_task_split [OF d mem(1)] mem(2) by blast
  have so: "sessions_ok (tasks k)" using assms(1) by (simp add: core_ok_def)
  have "session t = session p" if "t \<in> set (tasks k)" "g = pgrp t \<or> g = pid t \<or> pgrp t = pid p" for t
  proof -
    have "t = p" if "pid t = pid p" using that \<open>t \<in> set (tasks k)\<close> mem(1) d by (metis deref_iff option.inject)
    then show ?thesis using so that mem p(5) ses unfolding sessions_ok_def list_ex_iff by metis
  qed
  note same = this
  have "sessions_ok (xs @ p\<lparr>pgrp := g\<rparr> # ys)"
  proof (rule sessions_changed [OF so [unfolded ts(1)]])
    show "\<forall>t \<in> set (xs @ ys). pgrp (p\<lparr>pgrp := g\<rparr>) = pgrp t \<or> pgrp (p\<lparr>pgrp := g\<rparr>) = pid t \<or> pgrp t = pid (p\<lparr>pgrp := g\<rparr>) \<longrightarrow>
        session t = session (p\<lparr>pgrp := g\<rparr>)"
      using same by (simp add: ts(1))
  qed simp
  moreover have "ids (p\<lparr>pgrp := g\<rparr>) \<subseteq> \<Union> (ids ` set (tasks k))"
    using mem p(5) by (auto simp: ids_def list_ex_iff)
  ultimately show ?thesis
    unfolding eq ts(2) using assms(1) mem p(4) by (intro core_changed [OF assms(1) ts(1)]) (auto simp: core_ok_def task_ok_def)
qed (use assms in simp)

lemma framed_setpriority:
  assumes "- 20 \<le> niceval" "niceval \<le> 19" "setpriority_loop which who niceval c error ccr ts = (error', ccr', ts')"
  shows "list_all2 framed ts ts' \<and> map cr ts' = map cr ts \<and> same_power ccr ccr'"
  using assms(3)
proof (induction ts arbitrary: error ccr error' ccr' ts')
  case (Cons p ps)
  define r where "r = (if \<not> proc_sel p which who c then (p, error, ccr)
         else
          let (ok, ccr) = or_capable (uid (cr p) = euid (cr c) \<or> uid (cr p) = uid (cr c)) CAP_SYS_NICE ccr in
          if \<not> ok then (p, - EPERM, ccr)
          else
           let error = (if error = - ESRCH then 0 else error);
               (ok, ccr) = or_capable (\<not> niceval < nice p) CAP_SYS_NICE ccr in
           if \<not> ok then (p, - EACCES, ccr) else (p\<lparr>nice := niceval\<rparr>, error, ccr))"
  obtain p' error1 ccr1 where r: "r = (p', error1, ccr1)" by (metis prod.exhaust)
  obtain error2 ccr2 ps' where l: "setpriority_loop which who niceval c error1 ccr1 ps = (error2, ccr2, ps')"
    by (metis prod.exhaust)
  have res: "ts' = p' # ps'" "ccr' = ccr2"
    using Cons.prems unfolding setpriority_loop.simps r_def [symmetric] by (simp_all add: r l)
  have "same_power ccr ccr1 \<and> (p' = p \<or> p' = p\<lparr>nice := niceval\<rparr>)"
    using r unfolding r_def by (auto simp: Let_def or_capable_def capable_def same_power_def split: if_splits)
  moreover have "framed p p" "framed p (p\<lparr>nice := niceval\<rparr>)"
    using assms(1,2) by (auto simp: framed_def same_ids_def)
  ultimately show ?case using Cons.IH [OF l] res by (auto simp: same_power_def)
qed (simp add: same_power_def)

lemma procs_count: "procs ts = (\<lambda>u. count_list (map (user \<circ> cr) ts) u + (if u = 0 then 1 else 0))"
  by (induction ts) (auto simp: procs_def fun_eq_iff)

lemma procs_users: "map (user \<circ> cr) ts' = map (user \<circ> cr) ts \<Longrightarrow> procs ts' = procs ts"
  by (simp only: procs_count)

lemma kern_framed:
  assumes "kern_ok k" "list_all2 framed (tasks k) ts'" "map (user \<circ> cr) ts' = map (user \<circ> cr) (tasks k)"
  shows "kern_ok (k\<lparr>tasks := ts'\<rparr>)"
  using assms(1) core_framed [of k ts'] assms(2) procs_users [OF assms(3)] by (simp add: kern_ok_def)

lemma on_task_cr:
  assumes "distinct (map pid ts)" "c \<in> set ts"
  shows "procs (on_task (pid c) (\<lambda>t. t\<lparr>cr := x\<rparr>) ts) = moved (user (cr c)) (user x) (procs ts)"
proof -
  obtain xs ys where "ts = xs @ c # ys" "\<And>f. on_task (pid c) f ts = xs @ f c # ys"
    using on_task_split [OF assms] by blast
  then show ?thesis by (auto simp: moved_def fun_eq_iff)
qed

lemma kern_identity:
  assumes "kern_ok k" "c \<in> set (tasks k)" "exec_call sb call (users k, cr c) = (h, cr1)"
  shows "kern_ok (k\<lparr>users := h, tasks := on_task (pid c) (\<lambda>t. t\<lparr>cr := cr1\<rparr>) (tasks k)\<rparr>)"
proof -
  have "core_ok (k\<lparr>tasks := on_task (pid c) (\<lambda>t. t\<lparr>cr := cr1\<rparr>) (tasks k)\<rparr>)"
    using assms(1) by (intro core_framed framed_on_task) (auto simp: kern_ok_def)
  moreover have "counted (moved (user (cr c)) (user cr1) (procs (tasks k))) h"
    using counted_exec_call [of "procs (tasks k)" "(users k, cr c)" sb call] assms procs_pos by (simp add: kern_ok_def)
  moreover have "distinct (map pid (tasks k))" using assms(1) by (simp add: kern_ok_def core_ok_def)
  ultimately show ?thesis
    using assms(2) by (simp add: kern_ok_def on_task_cr core_ok_def)
qed

lemma same_user_cr:
  assumes "kern_ok k" "c \<in> set (tasks k)" "user x = user (cr c)"
  shows "kern_ok (k\<lparr>tasks := on_task (pid c) (\<lambda>t. t\<lparr>cr := x\<rparr>) (tasks k)\<rparr>)"
proof -
  have "distinct (map pid (tasks k))" using assms(1) by (simp add: kern_ok_def core_ok_def)
  then show ?thesis
    using assms core_framed [of k, OF _ framed_on_task] by (simp add: kern_ok_def on_task_cr procs_pos)
qed

lemma kern_exit:
  assumes "kern_ok k" "child_reaper \<in> pid ` set (tasks k)" "reaper \<in> pid ` set (tasks k)"
  shows "kern_ok (k\<lparr>tasks := exit_children f (forget_original_parent child_reaper reaper f (tasks k))\<rparr>)"
proof -
  define g :: "task \<Rightarrow> task" where "g = (\<lambda>p. let reaper = (if reaper = f then child_reaper else reaper);
      p = (if p_opptr p = f then p\<lparr>p_opptr := (if pid p = reaper then child_reaper else reaper)\<rparr> else p) in
    if p_pptr p = f then p\<lparr>ptrace := 0, p_pptr := p_opptr p\<rparr> else p)"
  have eq: "exit_children f (forget_original_parent child_reaper reaper f (tasks k)) = map g (tasks k)"
    by (simp add: exit_children_def forget_original_parent_def g_def Let_def)
  have same: "pid (g t) = pid t" "pgrp (g t) = pgrp t" "tgid (g t) = tgid t" "session (g t) = session t"
      "leader (g t) = leader t" "nice (g t) = nice t" "cr (g t) = cr t" for t
    by (auto simp: g_def Let_def)
  have par: "p_opptr (g t) \<in> {p_opptr t, child_reaper, reaper}" "p_pptr (g t) \<in> {p_pptr t, p_opptr t, child_reaper, reaper}" for t
    by (auto simp: g_def Let_def)
  have ps: "pid ` g ` set (tasks k) = pid ` set (tasks k)" by (auto simp: same image_iff)
  have "task_ok (pid ` set (tasks k)) (g t)" if "task_ok (pid ` set (tasks k)) t" for t
    using that par [of t] assms(2,3) unfolding task_ok_def same by auto
  moreover have "sessions_ok (map g (tasks k)) = sessions_ok (tasks k)"
    by (simp add: sessions_ok_def same)
  moreover have "pids_ok (map g (tasks k)) = pids_ok (tasks k)"
    by (simp add: pids_ok_def clear_above_def ids_def same fun_eq_iff)
  moreover have "procs (map g (tasks k)) = procs (tasks k)" by (rule procs_users) (simp add: same)
  ultimately show ?thesis
    using assms(1) unfolding eq kern_ok_def core_ok_def by (simp add: ps same comp_def)
qed

lemma sessions_subset: "sessions_ok ts \<Longrightarrow> set ts' \<subseteq> set ts \<Longrightarrow> sessions_ok ts'"
  unfolding sessions_ok_def by blast

lemma pids_subset: "pids_ok ts lp ns \<Longrightarrow> set ts' \<subseteq> set ts \<Longrightarrow> pids_ok ts' lp ns"
  unfolding pids_ok_def by blast

lemma kern_release:
  assumes "kern_ok k" "p \<in> set (tasks k)" "\<forall>t \<in> set (tasks k). p_pptr t \<noteq> pid p \<and> p_opptr t \<noteq> pid p"
  shows "kern_ok (release_task p c k)"
proof (cases "pid p = pid c")
  case False
  have ok: "core_ok k" "distinct (map pid (tasks k))" using assms(1) by (auto simp: kern_ok_def core_ok_def)
  obtain xs ys where ts: "tasks k = xs @ p # ys" using assms(2) by (meson split_list)
  have "filter (\<lambda>t. pid t \<noteq> pid p) zs = zs" if "pid p \<notin> pid ` set zs" for zs :: "task list"
    using that by (induction zs) auto
  then have rest: "filter (\<lambda>t. pid t \<noteq> pid p) (tasks k) = xs @ ys" and ps: "pid ` set (xs @ ys) = pid ` set (tasks k) - {pid p}"
    using ok(2) by (auto simp: ts) (metis image_eqI)+
  have "core_ok (k\<lparr>nr_threads := nr_threads k - 1, pidhash := unhash_pid (pid p) (pidhash k), tasks := xs @ ys\<rparr>)"
  proof -
    have "task_ok (pid ` set (xs @ ys)) t" if "t \<in> set (xs @ ys)" for t
    proof -
      have "t \<in> set (tasks k)" using that by (auto simp: ts)
      then have "task_ok (pid ` set (tasks k)) t" "p_pptr t \<noteq> pid p" "p_opptr t \<noteq> pid p"
        using ok(1) assms(3) by (auto simp: core_ok_def)
      then show ?thesis unfolding ps task_ok_def by blast
    qed
    moreover have "hash_ok (pid ` set (xs @ ys)) (unhash_pid (pid p) (pidhash k))"
      unfolding ps using ok(1) by (intro hash_ok_unhash) (simp add: core_ok_def)
    moreover have "sessions_ok (xs @ ys)" "pids_ok (xs @ ys) (last_pid k) (next_safe k)"
      using ok(1) sessions_subset [of "tasks k" "xs @ ys"] pids_subset [of "tasks k" _ _ "xs @ ys"] by (auto simp: core_ok_def ts)
    ultimately show ?thesis using ok by (simp add: core_ok_def ts)
  qed
  moreover have "procs (xs @ ys) = (procs (tasks k))(user (cr p) := procs (tasks k) (user (cr p)) - 1)"
    by (auto simp: ts)
  ultimately show ?thesis
    using assms(1) counted_put [of "procs (tasks k)" "users k" "user (cr p)"] procs_pos [OF assms(2)] False rest
    by (simp add: release_task_def unhash_process_def kern_ok_def core_ok_def)
qed (use assms in \<open>simp add: release_task_def\<close>)

lemma kern_mapped:
  assumes "kern_ok k" "\<And>t. framed t (f t)" "\<And>t. user (cr (f t)) = user (cr t)"
  shows "kern_ok (k\<lparr>tasks := map f (tasks k)\<rparr>)"
  using assms by (intro kern_framed) (simp_all add: list_all2_conv_all_nth)

lemma kern_capset:
  assumes "kern_ok k" "c \<in> set (tasks k)"
  shows "kern_ok (snd (sys_capset version p_id effective inheritable permitted c k))"
proof -
  obtain ok ccr where cap: "or_capable (p_id = 0) CAP_SETPCAP (cr c) = (ok, ccr)" by (metis prod.exhaust)
  then have "user ccr = user (cr c)" by (metis capable_sel(2) snd_conv)
  define k1 where "k1 = k\<lparr>tasks := on_task (pid c) (\<lambda>t. t\<lparr>cr := ccr\<rparr>) (tasks k)\<rparr>"
  have k1: "kern_ok k1" unfolding k1_def by (rule same_user_cr [OF assms]) fact
  define f where "f = with_caps effective inheritable permitted"
  have "framed t t" "framed t (f t)" "user (cr (f t)) = user (cr t)" for t
    by (simp_all add: f_def with_caps_def framed_def same_ids_def)
  then have "kern_ok (k1\<lparr>tasks := map (\<lambda>t. if P t then t else f t) (tasks k1)\<rparr>)"
      "kern_ok (k1\<lparr>tasks := map (\<lambda>t. if P t then f t else t) (tasks k1)\<rparr>)" for P
    by (intro kern_mapped [OF k1]; simp)+
  note maps = this
  show ?thesis
    unfolding sys_capset_def Let_def cap prod.case k1_def [symmetric] f_def [symmetric]
    using assms(1) k1 maps by (auto simp: cap_set_all_def cap_set_pg_def on_task_def split: option.splits)
qed

lemma core_link:
  assumes "core_ok k" "c \<in> set (tasks k)" "\<forall>t \<in> set (tasks k). \<not> taken t (pid n)" "0 < pid n" "last_pid k = pid n"
      "nr_threads k < max_threads k"
    and n: "pgrp n = pgrp c" "session n = session c" "tgid n = pid n \<or> tgid n = tgid c" "\<not> leader n" "nice n = nice c"
      "p_opptr n = p_opptr c \<or> p_opptr n = pid c" "p_pptr n = p_pptr c \<or> p_pptr n = pid c"
  shows "core_ok (link_task n k)"
proof -
  let ?ps = "pid ` set (tasks k)"
  have c: "task_ok ?ps c" using assms(1,2) by (simp add: core_ok_def)
  have fresh: "pid t \<noteq> pid n" "pgrp t \<noteq> pid n" if "t \<in> set (tasks k)" for t
    using assms(3) that by (auto simp: taken_def)
  have "pid n \<notin> ?ps" using fresh(1) by (metis imageE)
  then have "hash_ok (insert (pid n) ?ps) (hash_pid (pid n) (pidhash k))"
    using assms(1) by (intro hash_ok_hash) (simp_all add: core_ok_def)
  moreover have "task_ok (insert (pid n) ?ps) n" using c n assms(2,4) by (auto simp: task_ok_def)
  moreover have "task_ok (insert (pid n) ?ps) t" if "t \<in> set (tasks k)" for t
    using assms(1) that by (auto simp: core_ok_def task_ok_def)
  moreover have "clear_above (pid n) (next_safe k) n"
  proof -
    have "clear_above (pid n) (next_safe k) c" using assms(1,2,5) by (auto simp: core_ok_def pids_ok_def)
    then show ?thesis using n by (auto simp: clear_above_def ids_def)
  qed
  moreover have "sessions_ok (tasks k @ [n])"
  proof -
    have old: "session s = session t" if "s \<in> set (tasks k)" "t \<in> set (tasks k)" "pgrp s = pgrp t \<or> pgrp s = pid t" for s t
      using assms(1) that unfolding core_ok_def sessions_ok_def by blast
    have "session s = session t" if st: "s \<in> insert n (set (tasks k))" "t \<in> insert n (set (tasks k))"
        and eq: "pgrp s = pgrp t \<or> pgrp s = pid t" for s t
    proof -
      consider "s = n" "t = n" | "s = n" "t \<in> set (tasks k)" | "s \<in> set (tasks k)" "t = n"
        | "s \<in> set (tasks k)" "t \<in> set (tasks k)" using st by blast
      then show ?thesis
      proof cases
        case 2
        then show ?thesis using old [OF assms(2) 2(2)] eq n(1,2) by metis
      next
        case 3
        then show ?thesis using old [OF 3(1) assms(2)] fresh(2) [OF 3(1)] eq n(1,2) by metis
      next
        case 4
        then show ?thesis using eq by (intro old)
      qed simp
    qed
    then show ?thesis
      unfolding sessions_ok_def set_append list.set Un_insert_right sup_bot_right by blast
  qed
  ultimately show ?thesis
    using assms(1,5,6) \<open>pid n \<notin> ?ps\<close> by (simp add: core_ok_def link_task_def pids_ok_def)
qed

lemma fork_child_fields:
  "pid (fork_child f p c) = p" "pgrp (fork_child f p c) = pgrp c" "session (fork_child f p c) = session c"
  "tgid (fork_child f p c) = p \<or> tgid (fork_child f p c) = tgid c" "\<not> leader (fork_child f p c)"
  "nice (fork_child f p c) = nice c" "user (cr (fork_child f p c)) = user (cr c)"
  "p_opptr (fork_child f p c) = p_opptr c \<or> p_opptr (fork_child f p c) = pid c"
  "p_pptr (fork_child f p c) = p_pptr c \<or> p_pptr (fork_child f p c) = pid c"
  by (simp_all add: fork_child_def copy_flags_def Let_def)

lemma kern_fork:
  assumes "kern_ok k" "c \<in> set (tasks k)"
  shows "\<exists>ret k'. do_fork clone_flags e c k = Some (ret, k') \<and> kern_ok k'"
proof (cases "clone_flags AND (CLONE_NEWNS OR CLONE_FS) = (CLONE_NEWNS OR CLONE_FS) \<or> clone_flags AND CLONE_PID \<noteq> 0 \<or> \<not> alloc_task_struct e")
  case True
  have "pid c \<noteq> 0" using assms by (auto simp: kern_ok_def core_ok_def task_ok_def)
  then show ?thesis using True assms(1) by (auto simp: do_fork_def Let_def)
next
  case False
  define u where "u = user (cr c)"
  obtain refused cr1 where lim: "over_limit (rlim_nproc c \<le> of_int (user_processes u (users k))) (cr c) = (refused, cr1)"
    by (metis prod.exhaust)
  then have "user cr1 = user (cr c)" by (auto simp: over_limit_def capable_def Let_def split: if_splits)
  define k1 where "k1 = k\<lparr>tasks := on_task (pid c) (\<lambda>t. t\<lparr>cr := cr1\<rparr>) (tasks k)\<rparr>"
  have k1: "kern_ok k1" unfolding k1_def by (rule same_user_cr [OF assms]) fact
  have c: "c\<lparr>cr := cr1\<rparr> \<in> set (tasks k1)" using assms(2) by (auto simp: k1_def on_task_def)
  then have "0 < procs (tasks k1) u" using procs_pos [OF c] \<open>user cr1 = _\<close> by (simp add: u_def)
  then have got: "counted ((procs (tasks k1))(u := procs (tasks k1) u + 1)) (get_user_count u (users k1))"
    using k1 by (intro counted_get) (simp_all add: kern_ok_def)
  define k2 where "k2 = k1\<lparr>users := get_user_count u (users k1)\<rparr>"
  define bad :: "kern \<Rightarrow> kern" where "bad = (\<lambda>k. k\<lparr>users := put_user_count u (users k)\<rparr>)"
  have bad: "kern_ok (bad (k2\<lparr>last_pid := lp, next_safe := ns\<rparr>))" if "pids_ok (tasks k1) lp ns" for lp ns
    using k1 that counted_put [OF got, of u] by (simp add: kern_ok_def core_ok_def bad_def k2_def)
  have unfold: "do_fork clone_flags e c k =
      (if refused then Some (- EAGAIN, k1)
       else if max_threads k2 \<le> nr_threads k2 then Some (- EAGAIN, bad k2)
       else case get_pid clone_flags (pid c) (tasks k2) (last_pid k2) (next_safe k2) of
            None \<Rightarrow> None
          | Some (p_pid, lp, ns) \<Rightarrow>
              let k = k2\<lparr>last_pid := lp, next_safe := ns\<rparr> in
              if p_pid = 0 \<and> pid c \<noteq> 0 then Some (- EAGAIN, bad k)
              else if copy_files e \<noteq> 0 then Some (- ENOMEM, bad k)
              else if copy_fs e \<noteq> 0 then Some (- ENOMEM, bad k)
              else if copy_sighand e \<noteq> 0 then Some (- ENOMEM, bad k)
              else if copy_mm e \<noteq> 0 then Some (- ENOMEM, bad k)
              else if copy_namespace e \<noteq> 0 then Some (- ENOMEM, bad k)
              else if copy_thread e \<noteq> 0 then Some (copy_thread e, bad k)
              else Some (p_pid, link_task (fork_child clone_flags p_pid c) k))"
    using False unfolding do_fork_def Let_def u_def [symmetric] lim prod.case k1_def [symmetric] k2_def [symmetric] bad_def by simp
  show ?thesis
  proof (cases "refused \<or> max_threads k2 \<le> nr_threads k2")
    case True
    have "bad k2 = bad (k2\<lparr>last_pid := last_pid k1, next_safe := next_safe k1\<rparr>)" by (simp add: bad_def k2_def)
    then show ?thesis using True k1 bad [of "last_pid k1" "next_safe k1"] by (auto simp: unfold kern_ok_def core_ok_def)
  next
    case room: False
    have ok: "pids_ok (tasks k2) (last_pid k2) (next_safe k2)" "4 * length (tasks k2) < 32467"
      using room k1 by (auto simp: k2_def kern_ok_def core_ok_def)
    obtain p ns where p: "get_pid clone_flags (pid c) (tasks k2) (last_pid k2) (next_safe k2) = Some (p, p, ns)" "0 < p"
        "\<forall>t \<in> set (tasks k2). \<not> taken t p" "pids_ok (tasks k2) p ns"
      using get_pid_ok [OF ok] False by blast
    define k3 where "k3 = k2\<lparr>last_pid := p, next_safe := ns\<rparr>"
    define n where "n = fork_child clone_flags p c"
    have "core_ok k3" using k1 p(4) by (simp add: k3_def k2_def kern_ok_def core_ok_def)
    then have "core_ok (link_task n k3)"
      by (rule core_link [where c = "c\<lparr>cr := cr1\<rparr>"]) (use room c p fork_child_fields [of clone_flags p c] in \<open>simp_all add: k3_def k2_def n_def\<close>)
    moreover have "procs (tasks k1 @ [n]) = (procs (tasks k1))(u := procs (tasks k1) u + 1)"
      by (auto simp: procs_def n_def fork_child_fields u_def)
    ultimately have "kern_ok (link_task n k3)"
      using got by (simp add: kern_ok_def link_task_def k3_def k2_def)
    moreover have "kern_ok (bad k3)" using bad p(4) by (simp add: k3_def k2_def)
    ultimately show ?thesis using room p(1,2) by (simp add: unfold k3_def [symmetric] n_def [symmetric])
  qed
qed

lemma kern_setpriority:
  assumes "kern_ok k" "c \<in> set (tasks k)"
  shows "kern_ok (snd (sys_setpriority which who niceval c k))"
proof (cases "2 < which \<or> which < 0")
  case False
  define n where "n = (let n = (if niceval < - 20 then - 20 else niceval) in if 19 < n then 19 else n)"
  obtain error ccr ts where l: "setpriority_loop which who n c (- ESRCH) (cr c) (tasks k) = (error, ccr, ts)"
    by (metis prod.exhaust)
  have "- 20 \<le> n" "n \<le> 19" by (auto simp: n_def Let_def)
  note fr = framed_setpriority [OF this l]
  have users: "map (user \<circ> cr) ts = map (user \<circ> cr) (tasks k)" using fr by (metis map_map)
  with fr have k1: "kern_ok (k\<lparr>tasks := ts\<rparr>)" using assms(1) by (intro kern_framed) auto
  obtain c1 where c1: "c1 \<in> set ts" "pid c1 = pid c" "user (cr c1) = user (cr c)"
  proof -
    obtain i where i: "i < length (tasks k)" "tasks k ! i = c" using assms(2) by (metis in_set_conv_nth)
    have "framed (tasks k ! i) (ts ! i)" "length ts = length (tasks k)"
      using fr i(1) by (auto simp: list_all2_conv_all_nth)
    moreover have "user (cr (ts ! i)) = user (cr (tasks k ! i))"
      using fr i(1) by (metis calculation(2) nth_map)
    ultimately show thesis using i by (intro that [of "ts ! i"]) (auto simp: framed_def same_ids_def)
  qed
  have "kern_ok (k\<lparr>tasks := on_task (pid c) (\<lambda>t. t\<lparr>cr := ccr\<rparr>) ts\<rparr>)"
    using same_user_cr [OF k1, of c1 ccr] c1 fr by (simp add: same_power_def)
  then show ?thesis
    using False l by (simp add: sys_setpriority_def n_def Let_def)
qed (use assms in \<open>auto simp: sys_setpriority_def\<close>)

lemma core_kern:
  assumes "kern_ok k" "core_ok k'" "users k' = users k" "map (user \<circ> cr) (tasks k') = map (user \<circ> cr) (tasks k)"
  shows "kern_ok k'"
  using assms procs_users [OF assms(4)] by (simp add: kern_ok_def)

lemma on_task_users:
  "map (user \<circ> cr) (on_task p (\<lambda>t. t\<lparr>pgrp := g\<rparr>) ts) = map (user \<circ> cr) ts"
  by (simp add: on_task_def)

lemma setpgid_effect:
  "snd (sys_setpgid p_id pgid c k) = k \<or>
    (\<exists>q g. snd (sys_setpgid p_id pgid c k) = k\<lparr>tasks := on_task q (\<lambda>t. t\<lparr>pgrp := g\<rparr>) (tasks k)\<rparr>)"
proof -
  define q where "q = (if p_id = 0 then pid c else p_id)"
  define g where "g = (if pgid = 0 then q else pgid)"
  show ?thesis
    unfolding sys_setpgid_def Let_def q_def [symmetric] g_def [symmetric] by (auto split: option.splits)
qed

lemma kern_setpgid:
  assumes "kern_ok k" "c \<in> set (tasks k)"
  shows "kern_ok (snd (sys_setpgid p_id pgid c k))"
proof (rule core_kern [OF assms(1)])
  show "core_ok (snd (sys_setpgid p_id pgid c k))" using assms by (intro core_setpgid) (simp_all add: kern_ok_def)
  show "users (snd (sys_setpgid p_id pgid c k)) = users k"
      "map (user \<circ> cr) (tasks (snd (sys_setpgid p_id pgid c k))) = map (user \<circ> cr) (tasks k)"
    using setpgid_effect [of p_id pgid c k] on_task_users by force+
qed

lemma kern_setsid:
  assumes "kern_ok k" "c \<in> set (tasks k)"
  shows "kern_ok (snd (sys_setsid c k))"
  using assms core_setsid [of k c]
  by (intro core_kern [OF assms(1)]) (auto simp: kern_ok_def sys_setsid_def on_task_def)

lemma kstep_ok: "kstep k k' \<Longrightarrow> kern_ok k \<Longrightarrow> kern_ok k'"
proof (induction rule: kstep.induct)
  case (Fork c k clone_flags e ret k')
  then show ?case using kern_fork [of k c clone_flags e] by auto
qed (simp_all add: kern_exit kern_release kern_setpgid kern_setsid kern_setpriority kern_capset kern_identity)

lemma ksteps_ok: "kstep\<^sup>*\<^sup>* k k' \<Longrightarrow> kern_ok k \<Longrightarrow> kern_ok k'"
  by (induction rule: rtranclp_induct) (auto intro: kstep_ok)

section \<open>Capabilities never appear\<close>

definition caps_in :: "cap_t \<Rightarrow> cred \<Rightarrow> bool" where
  "caps_in M t \<longleftrightarrow> cap_issubset (cap_effective t) (cap_permitted t) \<and> cap_issubset (cap_permitted t) M \<and> cap_issubset (cap_inheritable t) M"

lemma caps_in_setfsuid:
  assumes "caps_in M t"
  shows "caps_in M (snd (sys_setfsuid sb u t))"
proof -
  have "cap_issubset e (cap_permitted t) \<Longrightarrow> caps_in M (t'\<lparr>cap_effective := e\<rparr>)" if "same_power t t'" for e t'
    using assms that by (simp add: caps_in_def same_power_def)
  moreover have "cap_issubset (cap_effective t AND NOT CAP_FS_MASK) (cap_permitted t)"
      "cap_issubset (cap_effective t OR (cap_permitted t AND CAP_FS_MASK)) (cap_permitted t)"
    using assms by (simp_all add: caps_in_def)
  ultimately show ?thesis
    using assms by (auto simp: sys_setfsuid_def or_capable_def capable_def Let_def caps_in_def same_power_def)
qed

interpretation caps: cred_closed "\<lambda>(h, t). caps_in M t" for M
proof unfold_locales
  fix k :: kstate and mem u d
  assume "case k of (h, t) \<Rightarrow> caps_in M t"
  then show "case snd (set_user mem u d k) of (h, t) \<Rightarrow> caps_in M t"
    by (cases k) (auto simp: set_user_def caps_in_def Let_def split: prod.splits)
next
  fix h t e i p
  assume "case (h, t) of (h, t) \<Rightarrow> caps_in M t"
  then show "case (h, snd (sys_capset_self e i p t)) of (h, t) \<Rightarrow> caps_in M t"
    by (auto simp: sys_capset_self_def caps_in_def cap_issubset_iff cap_combine_def bit_simps)
qed (auto simp: same_power_def caps_in_setfsuid, auto simp: caps_in_def cap_emulate_setxuid_def Let_def)

definition caps_ok :: "cap_t \<Rightarrow> kern \<Rightarrow> bool" where
  "caps_ok M k \<longleftrightarrow> (\<forall>t \<in> set (tasks k). caps_in M (cr t))"

lemma caps_in_same: "same_power t t' \<Longrightarrow> caps_in M t' = caps_in M t"
  by (simp add: caps_in_def same_power_def)

lemma same_power_over_limit: "same_power t (snd (over_limit b t))"
  by (auto simp: over_limit_def capable_def same_power_def Let_def)

lemma fork_child_power: "same_power (cr c) (cr (fork_child f p c))"
  by (simp add: fork_child_def copy_flags_def same_power_def Let_def)

text \<open>What a call of \<^verbatim>\<open>do_fork\<close> does to the task list.\<close>

lemma fork_effect:
  assumes "do_fork f e c k = Some (ret, k')"
  shows "\<exists>b. let ts = on_task (pid c) (\<lambda>t. t\<lparr>cr := snd (over_limit b (cr c))\<rparr>) (tasks k) in
    (tasks k' = tasks k \<or> tasks k' = ts) \<and> pidhash k' = pidhash k \<and> nr_threads k' = nr_threads k \<and>
      (ret < 0 \<or> ret = copy_thread e \<and> ret \<noteq> 0) \<or>
    tasks k' = ts @ [fork_child f ret c] \<and> (\<exists>lp ns. get_pid f (pid c) ts (last_pid k) (next_safe k) = Some (ret, lp, ns)) \<and>
      \<not> fst (over_limit (rlim_nproc c \<le> of_int (user_processes (user (cr c)) (users k))) (cr c))"
proof -
  define b where "b \<longleftrightarrow> rlim_nproc c \<le> of_int (user_processes (user (cr c)) (users k))"
  obtain refused x where lim: "over_limit b (cr c) = (refused, x)" by (metis prod.exhaust)
  show ?thesis
    using assms unfolding do_fork_def Let_def b_def [symmetric] lim prod.case
    by (intro exI [of _ b]) (auto simp: lim link_task_def EINVAL_def EPERM_def ENOMEM_def EAGAIN_def split: if_splits option.splits)
qed

lemma caps_ok_on_task:
  assumes "caps_ok M k" "\<And>t. caps_in M (cr t) \<Longrightarrow> caps_in M (cr (f t))"
  shows "\<forall>t \<in> set (on_task p f (tasks k)). caps_in M (cr t)"
  using assms by (auto simp: caps_ok_def on_task_def)

lemma caps_fork:
  assumes "caps_ok M k" "c \<in> set (tasks k)" "do_fork f e c k = Some (ret, k')"
  shows "caps_ok M k'"
proof -
  have c: "caps_in M (cr c)" using assms by (simp add: caps_ok_def)
  then have "caps_in M (snd (over_limit b (cr c)))" "caps_in M (cr (fork_child f ret c))" for b
    using caps_in_same [OF same_power_over_limit] caps_in_same [OF fork_child_power] by blast+
  then show ?thesis
    using fork_effect [OF assms(3)] assms(1) unfolding Let_def
    by (elim exE disjE conjE) (auto simp: caps_ok_def on_task_def)
qed

lemma caps_capset:
  assumes "caps_ok M k" "core_ok k" "c \<in> set (tasks k)"
  shows "caps_ok M (snd (sys_capset version p_id effective inheritable permitted c k))"
proof -
  obtain ok ccr where cap: "or_capable (p_id = 0) CAP_SETPCAP (cr c) = (ok, ccr)" by (metis prod.exhaust)
  then have "same_power (cr c) ccr" by (metis same_power_capable(2) snd_conv)
  then have ccr: "caps_in M ccr" using assms caps_in_same by (auto simp: caps_ok_def)
  define k1 where "k1 = k\<lparr>tasks := on_task (pid c) (\<lambda>t. t\<lparr>cr := ccr\<rparr>) (tasks k)\<rparr>"
  have k1: "caps_ok M k1" using assms(1) ccr by (auto simp: k1_def caps_ok_def on_task_def)
  have core1: "core_ok k1" unfolding k1_def using assms(2) by (intro core_framed framed_on_task) auto
  define target where "target = (if 0 < p_id \<and> p_id \<noteq> pid c then find_task_by_pid p_id k1 else Some (c\<lparr>cr := ccr\<rparr>))"
  have tg: "caps_in M (cr t)" if "target = Some t" for t
    using that k1 ccr find_task_iff [OF core1] by (auto simp: target_def caps_ok_def split: if_splits)
  define f where "f = with_caps effective inheritable permitted"
  have new: "caps_in M (cr (f t'))" if "target = Some t" "cap_issubset effective permitted"
      "cap_issubset inheritable (cap_combine (cap_inheritable (cr t)) (cap_permitted ccr))"
      "cap_issubset permitted (cap_combine (cap_permitted (cr t)) (cap_permitted ccr))" for t t'
    using tg [OF that(1)] ccr that(2-)
    by (auto simp: f_def with_caps_def caps_in_def cap_issubset_iff cap_combine_def bit_simps)
  show ?thesis
    unfolding sys_capset_def Let_def cap prod.case k1_def [symmetric] f_def [symmetric] target_def [symmetric]
    using assms(1) k1 new
    by (cases target) (auto simp: caps_ok_def cap_set_all_def cap_set_pg_def on_task_def)
qed

lemma caps_setpriority:
  assumes "caps_ok M k" "c \<in> set (tasks k)"
  shows "caps_ok M (snd (sys_setpriority which who niceval c k))"
proof (cases "2 < which \<or> which < 0")
  case False
  define n where "n = (let n = (if niceval < - 20 then - 20 else niceval) in if 19 < n then 19 else n)"
  obtain error ccr ts where l: "setpriority_loop which who n c (- ESRCH) (cr c) (tasks k) = (error, ccr, ts)"
    by (metis prod.exhaust)
  have "- 20 \<le> n" "n \<le> 19" by (auto simp: n_def Let_def)
  note fr = framed_setpriority [OF this l]
  have "cr ` set ts = cr ` set (tasks k)" using fr by (metis set_map)
  then have "\<forall>t \<in> set ts. caps_in M (cr t)" using assms(1) by (force simp: caps_ok_def)
  moreover have "caps_in M ccr" using fr assms caps_in_same by (auto simp: caps_ok_def)
  ultimately show ?thesis
    using False l by (auto simp: sys_setpriority_def n_def Let_def caps_ok_def on_task_def)
qed (use assms in \<open>auto simp: sys_setpriority_def\<close>)

lemma kstep_caps: "kstep k k' \<Longrightarrow> kern_ok k \<Longrightarrow> caps_ok M k \<Longrightarrow> caps_ok M k'"
proof (induction rule: kstep.induct)
  case (Fork c k clone_flags e ret k')
  show ?case by (rule caps_fork [OF Fork.prems(2) Fork.hyps])
next
  case (Exit c k child_reaper reaper)
  then show ?case by (auto simp: caps_ok_def exit_children_def forget_original_parent_def Let_def)
next
  case (Release p k c)
  then show ?case by (auto simp: caps_ok_def release_task_def unhash_process_def)
next
  case (Setpgid c k p_id pgid)
  then show ?case using setpgid_effect [of p_id pgid c k] by (auto simp: caps_ok_def on_task_def)
next
  case (Setsid c k)
  then show ?case by (auto simp: caps_ok_def sys_setsid_def on_task_def)
next
  case (Setpriority c k which who niceval)
  show ?case by (rule caps_setpriority [OF Setpriority.prems(2) Setpriority.hyps])
next
  case (Capset c k version p_id effective inheritable permitted)
  then show ?case using caps_capset [OF Capset.prems(2) _ Capset.hyps] by (simp add: kern_ok_def)
next
  case (Identity c k sb call h cr1)
  have "caps_in M cr1" using caps.exec_keeps [of M "(users k, cr c)" sb call] Identity by (simp add: caps_ok_def)
  then show ?case using Identity by (auto simp: caps_ok_def on_task_def)
qed

lemma ksteps_caps: "kstep\<^sup>*\<^sup>* k k' \<Longrightarrow> kern_ok k \<Longrightarrow> caps_ok M k \<Longrightarrow> caps_ok M k'"
  by (induction rule: rtranclp_induct) (auto intro: kstep_caps ksteps_ok)

lemma session_of_pgrp_loop_member:
  "t \<in> set ts \<Longrightarrow> pgrp t = g \<Longrightarrow> 0 < session t \<Longrightarrow> \<forall>s \<in> set ts. pgrp s = g \<longrightarrow> session s = v \<Longrightarrow>
    session_of_pgrp_loop g fallback ts = v"
  by (induction ts arbitrary: fallback) auto

section \<open>A running system\<close>

definition init_cred :: "uid_t \<Rightarrow> cap_t \<Rightarrow> cred" where
  "init_cred u caps = \<lparr>uid = u, euid = u, suid = u, fsuid = u, gid = u, egid = u, sgid = u, fsgid = u, groups = [],
     cap_effective = caps, cap_inheritable = 0, cap_permitted = caps, keep_capabilities = False, dumpable = True,
     flags = 0, user = u\<rparr>"

definition init_proc :: task where
  "init_proc = \<lparr>pid = 1, pgrp = 0, tgid = 1, session = 0, leader = False, did_exec = True, p_opptr = 0, p_pptr = 0,
     ptrace = 0, tty = None, tty_old_pgrp = 0, nice = 0, rlim_nproc = 512, cr = init_cred 0 0xfffffeff\<rparr>"

definition shell :: task where
  "shell = \<lparr>pid = 2, pgrp = 2, tgid = 2, session = 2, leader = True, did_exec = True, p_opptr = 1, p_pptr = 1,
     ptrace = 0, tty = Some 1, tty_old_pgrp = 0, nice = 0, rlim_nproc = 3, cr = init_cred 500 0\<rparr>"

definition running :: kern where
  "running = \<lparr>tasks = [init_proc, shell], pidhash = (\<lambda>e. if e = 1 then [1] else if e = 2 then [2] else []),
     last_pid = 2, next_safe = PID_MAX, nr_threads = 2, max_threads = 1024,
     users = (\<lambda>e. if e = 0 then [\<lparr>us_uid = 0, us_count = 2, us_processes = 2\<rparr>]
                  else if e = 245 then [\<lparr>us_uid = 500, us_count = 1, us_processes = 1\<rparr>] else [])\<rparr>"

lemma running_ok: "kern_ok running"
proof -
  have "pids_ok (tasks running) (last_pid running) (next_safe running)"
    by (simp add: running_def init_proc_def shell_def pids_ok_def clear_above_def ids_def PID_MAX_def)
  moreover have "hash_ok (pid ` set (tasks running)) (pidhash running)"
    by (auto simp: running_def init_proc_def shell_def hash_ok_def pid_hashfn_def PIDHASH_SZ_def)
  moreover have "sessions_ok (tasks running)"
    by (simp add: running_def init_proc_def shell_def sessions_ok_def)
  moreover have "\<forall>t \<in> set (tasks running). task_ok (pid ` set (tasks running)) t"
    by (simp add: running_def init_proc_def shell_def task_ok_def)
  moreover have "counted (procs (tasks running)) (users running)"
    by (auto simp: counted_def chains_ok_def running_def user_at_def procs_def init_proc_def shell_def init_cred_def uidhashfn_def)
  ultimately show ?thesis
    by (simp add: kern_ok_def core_ok_def) (simp add: running_def init_proc_def shell_def)
qed

definition copies_ok :: fork_env where
  "copies_ok = \<lparr>alloc_task_struct = True, copy_files = 0, copy_fs = 0, copy_sighand = 0, copy_mm = 0, copy_namespace = 0,
     copy_thread = 0\<rparr>"

section \<open>Properties\<close>

text \<open>
  C4: the process tables stay well formed.  From a well-formed state, whatever sequence of forks,
  exits, releases, group, session, priority, capability and identity calls is made by whichever
  processes, the state is well formed again: the identifiers are distinct, the hash table finds
  exactly the processes of the list, process groups stay within a session, parents exist, nice
  values are between -20 and 19, and the user cache counts the processes of every user.  In every
  such state a call of \<^verbatim>\<open>do_fork\<close> returns.
\<close>

theorem tasks_wellformed:
  assumes "kern_ok k" "kstep\<^sup>*\<^sup>* k k'"
  shows "kern_ok k' \<and> distinct (map pid (tasks k')) \<and>
    (\<forall>p. find_task_by_pid p k' = find (\<lambda>t. pid t = p) (tasks k')) \<and>
    (\<forall>c f e. c \<in> set (tasks k') \<longrightarrow> (\<exists>ret k''. do_fork f e c k' = Some (ret, k'')))"
proof -
  have ok: "kern_ok k'" "core_ok k'" using ksteps_ok [OF assms(2,1)] by (auto simp: kern_ok_def)
  then have d: "distinct (map pid (tasks k'))" by (simp add: core_ok_def)
  have "find_task_by_pid p k' = deref p (tasks k')" for p
    using find_task_iff [OF ok(2), of p] deref_iff [OF d, of p] by (metis option.exhaust)
  then show ?thesis using ok d kern_fork [OF ok(1)] by (auto simp: deref_def) blast
qed

theorem tasks_wellformed_witness:
  "kern_ok (snd (sys_setsid init_proc running)) \<and>
    find_task_by_pid 2 (snd (sys_setsid init_proc running)) = find (\<lambda>t. pid t = 2) (tasks (snd (sys_setsid init_proc running)))"
proof -
  have "init_proc \<in> set (tasks running)" by (simp add: running_def)
  then have "kstep\<^sup>*\<^sup>* running (snd (sys_setsid init_proc running))" by (intro r_into_rtranclp kstep.Setsid)
  from tasks_wellformed [OF running_ok this] show ?thesis by blast
qed

lemma over_limit_flags: "(snd (over_limit b t))\<lparr>flags := x\<rparr> = t\<lparr>flags := x\<rparr>"
  by (simp add: over_limit_def capable_def Let_def)

lemma counted_same: "counted N h \<Longrightarrow> counted N h' \<Longrightarrow> user_at h u = user_at h' u"
  by (simp add: counted_def)

lemma fork_cases:
  assumes "kern_ok k" "c \<in> set (tasks k)" "do_fork f e c k = Some (ret, k')"
  shows "(\<exists>b. (tasks k' = tasks k \<or> tasks k' = on_task (pid c) (\<lambda>t. t\<lparr>cr := snd (over_limit b (cr c))\<rparr>) (tasks k)) \<and>
      pidhash k' = pidhash k \<and> nr_threads k' = nr_threads k \<and> (ret < 0 \<or> ret = copy_thread e \<and> ret \<noteq> 0)) \<or>
    (\<exists>b. tasks k' = on_task (pid c) (\<lambda>t. t\<lparr>cr := snd (over_limit b (cr c))\<rparr>) (tasks k) @ [fork_child f ret c] \<and> 0 < ret \<and>
      \<not> fst (over_limit (rlim_nproc c \<le> of_int (user_processes (user (cr c)) (users k))) (cr c)))"
proof -
  have "kern_ok k'" using kern_fork [OF assms(1,2), of f e] assms(3) by auto
  then have "0 < ret" if "fork_child f ret c \<in> set (tasks k')"
    using that fork_child_fields(1) [of f ret c] by (auto simp: kern_ok_def core_ok_def task_ok_def)
  then show ?thesis using fork_effect [OF assms(3)] unfolding Let_def by (elim exE disjE conjE) auto
qed

text \<open>
  C39: a fork that fails leaves nothing behind.  When \<^verbatim>\<open>do_fork\<close> returns an error, from whichever
  of its checks or copying functions, the task list is the same except for the accounting flag that
  a check of capabilities sets, the hash table and the number of threads are the same, and every
  user's entry in the user cache has its old counts.
\<close>

theorem fork_failure_restores:
  assumes "kern_ok k" "c \<in> set (tasks k)" "do_fork f e c k = Some (ret, k')" "ret < 0"
  shows "map (\<lambda>t. t\<lparr>cr := (cr t)\<lparr>flags := 0\<rparr>\<rparr>) (tasks k') = map (\<lambda>t. t\<lparr>cr := (cr t)\<lparr>flags := 0\<rparr>\<rparr>) (tasks k) \<and>
    pidhash k' = pidhash k \<and> nr_threads k' = nr_threads k \<and> (\<forall>u. user_at (users k') u = user_at (users k) u)"
proof -
  have d: "distinct (map pid (tasks k))" using assms(1) by (simp add: kern_ok_def core_ok_def)
  obtain b where eff: "tasks k' = tasks k \<or> tasks k' = on_task (pid c) (\<lambda>t. t\<lparr>cr := snd (over_limit b (cr c))\<rparr>) (tasks k)"
      "pidhash k' = pidhash k" "nr_threads k' = nr_threads k"
    using fork_cases [OF assms(1-3)] assms(4) by (elim disjE exE conjE) auto
  obtain xs ys where ts: "tasks k = xs @ c # ys" "\<And>f. on_task (pid c) f (tasks k) = xs @ f c # ys"
    using on_task_split [OF d assms(2)] by blast
  have same: "map (\<lambda>t. t\<lparr>cr := (cr t)\<lparr>flags := 0\<rparr>\<rparr>) (tasks k') = map (\<lambda>t. t\<lparr>cr := (cr t)\<lparr>flags := 0\<rparr>\<rparr>) (tasks k)"
    using eff(1) unfolding ts(2) by (auto simp: ts(1) over_limit_flags)
  have "map (user \<circ> cr) (tasks k') = map (user \<circ> cr) (tasks k)"
    using eff(1) same_power_over_limit [of "cr c" b] unfolding ts(2) by (auto simp: ts(1) same_power_def)
  then have "procs (tasks k') = procs (tasks k)" by (rule procs_users)
  moreover have "kern_ok k'" using kern_fork [OF assms(1,2), of f e] assms(3) by auto
  ultimately show ?thesis using same eff(2,3) assms(1) counted_same by (auto simp: kern_ok_def)
qed

theorem fork_failure_restores_witness:
  "\<exists>k'. do_fork 0 (copies_ok\<lparr>copy_mm := - 12\<rparr>) shell running = Some (- 12, k') \<and> user_at (users k') 500 = user_at (users running) 500"
proof -
  have c: "shell \<in> set (tasks running)" by (simp add: running_def)
  obtain ret k' where r: "do_fork 0 (copies_ok\<lparr>copy_mm := - 12\<rparr>) shell running = Some (ret, k')"
    using kern_fork [OF running_ok c] by blast
  have "\<not> (3 :: u32) \<le> 1" by (simp add: word_le_nat_alt)
  then have ret: "map_option fst (do_fork 0 (copies_ok\<lparr>copy_mm := - 12\<rparr>) shell running) = Some (- 12)"
    by (simp add: do_fork_def get_pid_def over_max_def copies_ok_def running_def shell_def init_proc_def init_cred_def over_limit_def
      user_processes_def uidhashfn_def on_task_def PID_MAX_def CLONE_NEWNS_def CLONE_FS_def CLONE_PID_def ENOMEM_def Let_def)
  then have "ret = - 12" using r by simp
  then show ?thesis using fork_failure_restores [OF running_ok c r] r by auto
qed

lemma not_capable_limit:
  assumes "\<not> cap_raised (cap_effective t) CAP_SYS_ADMIN" "\<not> cap_raised (cap_effective t) CAP_SYS_RESOURCE"
  shows "fst (over_limit b t) = b"
  using assms by (simp add: over_limit_def capable_def)

lemma procs_le: "procs ts u \<le> length ts + 1"
  by (simp add: procs_def le_SucI)

text \<open>
  C14: the process limit holds.  When a process without CAP_SYS_ADMIN and CAP_SYS_RESOURCE forks
  successfully, its user has, the new process included, at most as many processes as the limit
  RLIMIT_NPROC of the process.  The count is of the task list itself, not of the user cache.
\<close>

theorem fork_respects_limit:
  assumes "kern_ok k" "c \<in> set (tasks k)" "do_fork f e c k = Some (ret, k')" "0 < ret" "copy_thread e \<le> 0"
    "\<not> cap_raised (cap_effective (cr c)) CAP_SYS_ADMIN" "\<not> cap_raised (cap_effective (cr c)) CAP_SYS_RESOURCE"
  shows "procs (tasks k') (user (cr c)) \<le> unat (rlim_nproc c)"
proof -
  let ?u = "user (cr c)"
  obtain b where ts: "tasks k' = on_task (pid c) (\<lambda>t. t\<lparr>cr := snd (over_limit b (cr c))\<rparr>) (tasks k) @ [fork_child f ret c]"
      and lim: "\<not> rlim_nproc c \<le> of_int (user_processes ?u (users k))"
    using fork_cases [OF assms(1-3)] assms(4,5) not_capable_limit [OF assms(6,7)] by auto
  have d: "distinct (map pid (tasks k))" using assms(1) by (simp add: kern_ok_def core_ok_def)
  have pos: "0 < procs (tasks k) ?u" using procs_pos [OF assms(2)] .
  have "user (snd (over_limit b (cr c))) = ?u" using same_power_over_limit [of "cr c" b] by (simp add: same_power_def)
  then have "procs (tasks k') ?u = procs (tasks k) ?u + 1"
    unfolding ts using on_task_cr [OF d assms(2), of "snd (over_limit b (cr c))"] pos
    by (simp add: procs_append [of _ _ "[]", simplified] fork_child_fields)
  moreover have "user_processes ?u (users k) = int (procs (tasks k) ?u)"
    using assms(1) pos by (auto simp: kern_ok_def counted_def user_processes_def user_at_def)
  moreover have "procs (tasks k) ?u < 2 ^ 32"
    using assms(1) procs_le [of "tasks k" ?u] by (simp add: kern_ok_def core_ok_def)
  ultimately show ?thesis using lim by (simp add: word_le_nat_alt unat_of_nat)
qed

theorem fork_respects_limit_witness:
  "\<exists>k'. do_fork 0 copies_ok shell running = Some (3, k') \<and> procs (tasks k') 500 \<le> 3"
proof -
  have c: "shell \<in> set (tasks running)" by (simp add: running_def)
  obtain ret k' where r: "do_fork 0 copies_ok shell running = Some (ret, k')"
    using kern_fork [OF running_ok c] by blast
  have "\<not> (3 :: u32) \<le> 1" by (simp add: word_le_nat_alt)
  then have "map_option fst (do_fork 0 copies_ok shell running) = Some 3"
    by (simp add: do_fork_def get_pid_def over_max_def copies_ok_def running_def shell_def init_proc_def init_cred_def over_limit_def
      user_processes_def uidhashfn_def on_task_def PID_MAX_def CLONE_NEWNS_def CLONE_FS_def CLONE_PID_def Let_def)
  then have ret: "ret = 3" using r by simp
  have "procs (tasks k') (user (cr shell)) \<le> unat (rlim_nproc shell)"
    by (rule fork_respects_limit [OF running_ok c r])
      (simp_all add: ret copies_ok_def shell_def init_cred_def cap_raised_def)
  then show ?thesis using r ret by (simp add: shell_def init_cred_def)
qed

text \<open>
  C34: the session of a process group is well defined.  For every process of a well-formed state
  that is in a session, \<^verbatim>\<open>session_of_pgrp\<close> of its process group is its own session, whichever
  member of the group the search meets first.
\<close>

theorem session_of_pgrp_sound:
  assumes "kern_ok k" "t \<in> set (tasks k)" "0 < session t"
  shows "session_of_pgrp (pgrp t) k = session t"
proof -
  have "\<forall>s \<in> set (tasks k). pgrp s = pgrp t \<longrightarrow> session s = session t"
    using assms(1,2) unfolding kern_ok_def core_ok_def sessions_ok_def by blast
  then show ?thesis
    unfolding session_of_pgrp_def by (rule session_of_pgrp_loop_member [OF assms(2) refl assms(3)])
qed

theorem session_of_pgrp_sound_witness: "session_of_pgrp 2 running = 2"
  using session_of_pgrp_sound [OF running_ok, of shell] by (simp add: running_def shell_def)

text \<open>
  C13: capabilities do not appear.  If every process has its effective capabilities among its
  permitted ones, and its permitted and inheritable ones within a set \<open>M\<close>, then no sequence of
  steps, including \<^verbatim>\<open>capset\<close> on other processes, on process groups and on all processes, gives
  any process a capability outside \<open>M\<close>, or an effective one that it is not permitted.
\<close>

theorem capabilities_never_appear:
  assumes "kern_ok k" "caps_ok M k" "kstep\<^sup>*\<^sup>* k k'"
  shows "list_all (\<lambda>t. cap_issubset (cap_effective (cr t)) (cap_permitted (cr t)) \<and>
    cap_issubset (cap_permitted (cr t)) M \<and> cap_issubset (cap_inheritable (cr t)) M) (tasks k')"
  using ksteps_caps [OF assms(3,1,2)] by (simp add: caps_ok_def caps_in_def list_all_iff)

theorem capabilities_never_appear_witness:
  "list_all (\<lambda>t. cap_issubset (cap_permitted (cr t)) 0xfffffeff)
    (tasks (snd (sys_capset LINUX_CAPABILITY_VERSION (- 1) 0xffffffff 0xffffffff 0xffffffff init_proc running)))"
proof -
  let ?k = "snd (sys_capset LINUX_CAPABILITY_VERSION (- 1) 0xffffffff 0xffffffff 0xffffffff init_proc running)"
  have "init_proc \<in> set (tasks running)" by (simp add: running_def)
  then have "kstep\<^sup>*\<^sup>* running ?k" by (intro r_into_rtranclp kstep.Capset)
  moreover have "caps_ok 0xfffffeff running"
    by (simp add: caps_ok_def caps_in_def running_def init_proc_def shell_def init_cred_def)
  ultimately show ?thesis
    using capabilities_never_appear [OF running_ok] by (force simp: list_all_iff)
qed

end
