(* ===== verification/Timer.thy ===== *)
theory Timer
  imports Prelude
begin

unbundle bit_operations_syntax

text \<open>
  The timer wheel of \<^verbatim>\<open>kernel/timer.c\<close>.  A timer is a number; a list head is an address, either
  in one of the five vectors or the local list of \<^verbatim>\<open>run_timer_list\<close>, and the state maps every
  address to the timers linked there, in order.  A timer function is a list of the timer calls that
  it makes.  The timers called are recorded with the expiry time they had and the tick they were
  called in.
\<close>

section \<open>The wheel\<close>

datatype head = Root nat | Level nat nat | Queued

record wheel =
  vec :: "head \<Rightarrow> nat list"
  tv1_index :: nat
  tvn_index :: "nat \<Rightarrow> nat"
  timer_jiffies :: u32
  run_timer_list_running :: "head option"
  expires :: "nat \<Rightarrow> u32"
  linked :: "nat \<Rightarrow> bool"
  calls :: "(nat \<times> u32 \<times> u32) list"

definition init_timervecs :: "(nat \<Rightarrow> u32) \<Rightarrow> wheel" where
  "init_timervecs e = \<lparr>vec = (\<lambda>_. []), tv1_index = 0, tvn_index = (\<lambda>_. 0), timer_jiffies = 0,
     run_timer_list_running = None, expires = e, linked = (\<lambda>_. False), calls = []\<rparr>"

definition list_del :: "nat \<Rightarrow> wheel \<Rightarrow> wheel" where
  "list_del i w = w\<lparr>vec := (\<lambda>h. remove1 i (vec w h))\<rparr>"

definition list_add_tail :: "nat \<Rightarrow> head \<Rightarrow> wheel \<Rightarrow> wheel" where
  "list_add_tail i h w = w\<lparr>vec := (vec w)(h := vec w h @ [i]), linked := (linked w)(i := True)\<rparr>"

text \<open>The vector for an expiry time; \<^verbatim>\<open>idx <= 0xffffffffUL\<close> holds for every 32-bit number.\<close>

definition timer_vec_for :: "u32 \<Rightarrow> wheel \<Rightarrow> head" where
  "timer_vec_for e w =
     (let idx = e - timer_jiffies w in
      case run_timer_list_running w of
        Some q \<Rightarrow> q
      | None \<Rightarrow>
          if idx < 0x100 then Root (unat (e AND 0xff))
          else if idx < 0x4000 then Level 1 (unat (drop_bit 8 e AND 0x3f))
          else if idx < 0x100000 then Level 2 (unat (drop_bit 14 e AND 0x3f))
          else if idx < 0x4000000 then Level 3 (unat (drop_bit 20 e AND 0x3f))
          else if sint idx < 0 then Root (tv1_index w)
          else Level 4 (unat (drop_bit 26 e AND 0x3f)))"

definition internal_add_timer :: "nat \<Rightarrow> wheel \<Rightarrow> wheel" where
  "internal_add_timer i w = list_add_tail i (timer_vec_for (expires w i) w) w"

definition timer_pending :: "nat \<Rightarrow> wheel \<Rightarrow> bool" where
  "timer_pending i w = linked w i"

definition add_timer :: "nat \<Rightarrow> wheel \<Rightarrow> wheel" where
  "add_timer i w = (if timer_pending i w then w else internal_add_timer i w)"

definition detach_timer :: "nat \<Rightarrow> wheel \<Rightarrow> bool \<times> wheel" where
  "detach_timer i w = (if \<not> timer_pending i w then (False, w) else (True, list_del i w))"

definition mod_timer :: "nat \<Rightarrow> u32 \<Rightarrow> wheel \<Rightarrow> bool \<times> wheel" where
  "mod_timer i e w =
     (let w = w\<lparr>expires := (expires w)(i := e)\<rparr>; (ret, w) = detach_timer i w in (ret, internal_add_timer i w))"

definition del_timer :: "nat \<Rightarrow> wheel \<Rightarrow> bool \<times> wheel" where
  "del_timer i w = (let (ret, w) = detach_timer i w in (ret, w\<lparr>linked := (linked w)(i := False)\<rparr>))"

section \<open>Running the timers\<close>

text \<open>
  The timers of the current slot of a vector move down; none goes back to the list that is being
  emptied, so that the walk along the list is a walk along its contents.
\<close>

definition move :: "nat \<Rightarrow> wheel \<Rightarrow> wheel" where
  "move i w = internal_add_timer i (list_del i w)"

definition cascade_timers :: "nat \<Rightarrow> wheel \<Rightarrow> wheel" where
  "cascade_timers n w =
     (let head = Level n (tvn_index w n);
          w = fold move (vec w head) w in
      w\<lparr>vec := (vec w)(head := []), tvn_index := (tvn_index w)(n := (tvn_index w n + 1) mod 64)\<rparr>)"

function cascade_loop :: "nat \<Rightarrow> wheel \<Rightarrow> wheel" where
  "cascade_loop n w =
     (let w = cascade_timers n w in
      if tvn_index w n = 1 \<and> n + 1 < 5 then cascade_loop (n + 1) w else w)"
  by pat_completeness auto
termination by (relation "measure (\<lambda>(n, w). 5 - n)") auto

declare cascade_loop.simps [simp del]

text \<open>
  The calls others make.  To set the expiry time of a timer that is not pending and add it is what
  \<open>Mod\<close> does.
\<close>

datatype timer_op = Add nat | Mod nat u32 | Del nat

fun timer_call :: "timer_op \<Rightarrow> wheel \<Rightarrow> wheel" where
  "timer_call (Add i) w = add_timer i w"
| "timer_call (Mod i e) w = snd (mod_timer i e w)"
| "timer_call (Del i) w = snd (del_timer i w)"

text \<open>The function of a timer may look at everything before it makes its calls.\<close>

type_synonym timer_fn = "nat \<Rightarrow> wheel \<Rightarrow> timer_op list"

partial_function (option) fire :: "timer_fn \<Rightarrow> wheel \<Rightarrow> wheel option" where
  "fire fn w =
     (case vec w (Root (tv1_index w)) of
        [] \<Rightarrow> Some w
      | i # _ \<Rightarrow>
          let w = snd (del_timer i w);
              w = w\<lparr>calls := calls w @ [(i, expires w i, timer_jiffies w)]\<rparr> in
          fire fn (fold timer_call (fn i w) w))"

text \<open>
  One turn of the loop.  The timers that were set meanwhile are added from the local list, a
  variable that ends with the turn; here each is taken off that list as it is added, so that the
  list is empty when the next turn begins with a new one.
\<close>

definition tick :: "timer_fn \<Rightarrow> wheel \<Rightarrow> wheel option" where
  "tick fn w =
     (let w = (if tv1_index w = 0 then cascade_loop 1 w else w) in
      case fire fn (w\<lparr>run_timer_list_running := Some Queued\<rparr>) of
        None \<Rightarrow> None
      | Some w \<Rightarrow>
          let w = w\<lparr>run_timer_list_running := None, timer_jiffies := timer_jiffies w + 1,
                     tv1_index := (tv1_index w + 1) mod 256\<rparr> in
          Some (fold move (vec w Queued) w))"

partial_function (option) run_timer_list :: "timer_fn \<Rightarrow> u32 \<Rightarrow> wheel \<Rightarrow> wheel option" where
  "run_timer_list fn jiffies w =
     (if 0 \<le> sint (jiffies - timer_jiffies w)
      then (case tick fn w of None \<Rightarrow> None | Some w \<Rightarrow> run_timer_list fn jiffies w)
      else Some w)"

section \<open>Where a timer belongs\<close>

definition sh :: "nat \<Rightarrow> nat" where "sh n = 8 + 6 * (n - 1)"

text \<open>The distance of an expiry time from tick \<open>t\<close>, and whether it lies in the past.\<close>

definition dist :: "nat \<Rightarrow> u32 \<Rightarrow> nat" where "dist t e = unat (e - of_nat t)"

definition late :: "nat \<Rightarrow> u32 \<Rightarrow> bool" where "late t e \<longleftrightarrow> 2 ^ 31 \<le> dist t e"

fun fits :: "nat \<Rightarrow> (nat \<Rightarrow> nat) \<Rightarrow> head \<Rightarrow> u32 \<Rightarrow> bool" where
  "fits t C (Root s) e \<longleftrightarrow> s = t mod 256 \<and> late t e \<or> dist t e < 256 \<and> s = (t + dist t e) mod 256"
| "fits t C (Level n s) e \<longleftrightarrow> 1 \<le> n \<and> n \<le> 4 \<and> \<not> late t e \<and>
     C n \<le> (t + dist t e) div 2 ^ sh n \<and> (t + dist t e) div 2 ^ sh n < C n + 64 \<and> s = (t + dist t e) div 2 ^ sh n mod 64"
| "fits t C Queued e \<longleftrightarrow> True"

definition good :: "nat \<Rightarrow> (nat \<Rightarrow> nat) \<Rightarrow> bool" where
  "good t C \<longleftrightarrow> (\<forall>n. 1 \<le> n \<and> n \<le> 4 \<longrightarrow> t \<le> C n * 2 ^ sh n \<and> C n \<le> t div 2 ^ sh n + 1)"

lemma sh_simps [simp]: "sh 1 = 8" "sh (Suc 0) = 8" "sh 2 = 14" "sh 3 = 20" "sh 4 = 26"
  by (simp_all add: sh_def)

lemma unat32_less: "unat (w :: u32) < 2 ^ 32"
  by (rule order_less_le_trans [OF unsigned_less]) simp

lemma expires_dist: "unat e = (t + dist t e) mod 2 ^ 32"
proof -
  have "e = of_nat t + of_nat (dist t e)" by (simp add: dist_def)
  then have "e = of_nat (t + dist t e)" by simp
  then have "unat e = unat (of_nat (t + dist t e) :: u32)" by simp
  then show ?thesis by (simp only: unat_of_nat) simp
qed

lemma field_of_mod:
  fixes x :: nat
  assumes "s + k \<le> 32"
  shows "(x mod 2 ^ 32) div 2 ^ s mod 2 ^ k = x div 2 ^ s mod 2 ^ k"
proof -
  have "take_bit k (drop_bit s (take_bit 32 x)) = take_bit k (drop_bit s x)"
    using assms by (auto simp: bit_eq_iff bit_simps)
  then show ?thesis by (simp only: take_bit_eq_mod drop_bit_eq_div)
qed

lemma root_slot: "unat (e AND 0xff) = (t + dist t e) mod 256"
proof -
  have "e AND 0xff = take_bit 8 e" by (simp add: take_bit_eq_mask mask_eq_exp_minus_1)
  then have "unat (e AND 0xff) = take_bit 8 (unat e)" by (simp only: unsigned_take_bit_eq)
  then have "unat (e AND 0xff) = unat e mod 2 ^ 8" by (simp only: take_bit_eq_mod)
  then show ?thesis using field_of_mod [of 0 8 "t + dist t e"] expires_dist [of e t] by simp
qed

lemma level_slot:
  assumes "s \<le> 26"
  shows "unat (drop_bit s e AND 0x3f) = (t + dist t e) div 2 ^ s mod 64"
proof -
  have len32: "LENGTH(32) = 32" by simp
  have full: "take_bit 32 (unat e) = unat e" using unat32_less [of e] by (simp add: take_bit_nat_eq_self)
  have "drop_bit s e AND 0x3f = take_bit 6 (drop_bit s e)" by (simp add: take_bit_eq_mask mask_eq_exp_minus_1)
  then have "unat (drop_bit s e AND 0x3f) = take_bit 6 (drop_bit s (unat e))"
    by (simp only: unsigned_take_bit_eq unsigned_drop_bit_eq len32 full)
  then have "unat (drop_bit s e AND 0x3f) = unat e div 2 ^ s mod 2 ^ 6"
    by (simp only: take_bit_eq_mod drop_bit_eq_div)
  then show ?thesis using field_of_mod [of s 6 "t + dist t e"] assms expires_dist [of e t] by simp
qed

lemma sint_negative: "sint (w :: u32) < 0 \<longleftrightarrow> 2 ^ 31 \<le> unat w"
proof -
  have "sint w < 0 \<longleftrightarrow> bit w 31" by (simp add: sint_uint signed_take_bit_negative_iff bit_simps)
  also have "\<dots> \<longleftrightarrow> odd (unat w div 2 ^ 31)" by (metis bit_iff_odd bit_unsigned_iff possible_bit_nat)
  also have "\<dots> \<longleftrightarrow> 2 ^ 31 \<le> unat w"
  proof -
    have "unat w < 2 * 2 ^ 31" using unat32_less [of w] by simp
    then have "unat w div 2 ^ 31 = (if 2 ^ 31 \<le> unat w then 1 else 0)" by (auto simp: div_eq_0_iff intro!: div_nat_eqI)
    then show ?thesis by simp
  qed
  finally show ?thesis .
qed

lemma late_iff: "sint (e - of_nat t) < 0 \<longleftrightarrow> late t e"
  by (simp only: sint_negative late_def dist_def)

text \<open>A timer that is added between ticks is put where it belongs.\<close>

lemma vec_for_fits:
  assumes "timer_jiffies w = of_nat t" "tv1_index w = t mod 256" "run_timer_list_running w = None" "good t C"
  shows "fits t C (timer_vec_for e w) e"
proof -
  let ?d = "dist t e"
  have d: "e - of_nat t < k \<longleftrightarrow> ?d < unat k" for k by (simp add: dist_def word_less_nat_alt)
  have lev: "fits t C (Level n (unat (drop_bit (sh n) e AND 0x3f))) e"
    if n: "1 \<le> n" "n \<le> 4" and r: "2 ^ sh n \<le> ?d" "?d < 64 * 2 ^ sh n" "\<not> late t e" for n
  proof -
    have g: "t \<le> C n * 2 ^ sh n" "C n \<le> t div 2 ^ sh n + 1" using assms(4) n by (auto simp: good_def)
    have "C n \<le> (t + 2 ^ sh n) div 2 ^ sh n" using g(2) by (simp add: div_add_self2)
    also have "\<dots> \<le> (t + ?d) div 2 ^ sh n" using r(1) by (intro div_le_mono) simp
    finally have "C n \<le> (t + ?d) div 2 ^ sh n" .
    moreover have "t + ?d < (C n + 64) * 2 ^ sh n" using g(1) r(2) by (simp add: add_mult_distrib)
    then have "(t + ?d) div 2 ^ sh n < C n + 64" by (simp add: less_mult_imp_div_less)
    moreover have "sh n \<le> 26" using n(2) by (simp add: sh_def)
    ultimately show ?thesis using n r(3) level_slot [of "sh n" e t] by simp
  qed
  show ?thesis
    using lev [of 1] lev [of 2] lev [of 3] lev [of 4] root_slot [of e t]
    unfolding timer_vec_for_def Let_def assms(1,3) option.case d late_iff
    by (auto simp: late_def assms(2))
qed

section \<open>The invariant\<close>

definition once :: "wheel \<Rightarrow> bool" where
  "once w \<longleftrightarrow> (\<forall>h. distinct (vec w h)) \<and> (\<forall>h g i. i \<in> set (vec w h) \<longrightarrow> i \<in> set (vec w g) \<longrightarrow> h = g) \<and>
     (\<forall>i. linked w i \<longleftrightarrow> (\<exists>h. i \<in> set (vec w h)))"

text \<open>Everything is in place, except perhaps timer \<open>i\<close>, whose expiry time is being changed.\<close>

definition ok_but :: "nat set \<Rightarrow> nat \<Rightarrow> (nat \<Rightarrow> nat) \<Rightarrow> wheel \<Rightarrow> bool" where
  "ok_but X t C w \<longleftrightarrow> once w \<and> timer_jiffies w = of_nat t \<and> tv1_index w = t mod 256 \<and>
     (\<forall>n. 1 \<le> n \<and> n \<le> 4 \<longrightarrow> tvn_index w n = C n mod 64) \<and>
     (\<forall>h. \<forall>j \<in> set (vec w h). j \<notin> X \<longrightarrow> fits t C h (expires w j))"

abbreviation "wheel_ok \<equiv> ok_but {}"

lemma ok_but_mono: "ok_but X t C w \<Longrightarrow> X \<subseteq> Y \<Longrightarrow> ok_but Y t C w"
  unfolding ok_but_def by blast

lemma vec_for_del: "timer_vec_for e (list_del i w) = timer_vec_for e w"
  by (simp add: timer_vec_for_def list_del_def Let_def split: option.split)

lemma list_del_sel [simp]:
  "vec (list_del i w) h = remove1 i (vec w h)" "expires (list_del i w) = expires w" "linked (list_del i w) = linked w"
  by (simp_all add: list_del_def)

lemma move_vec: "vec (move i w) h = remove1 i (vec w h) @ (if h = timer_vec_for (expires w i) w then [i] else [])"
  by (simp add: move_def internal_add_timer_def list_add_tail_def vec_for_del)

lemma move_frame [simp]:
  "timer_jiffies (move i w) = timer_jiffies w" "tv1_index (move i w) = tv1_index w" "tvn_index (move i w) = tvn_index w"
  "run_timer_list_running (move i w) = run_timer_list_running w" "expires (move i w) = expires w" "calls (move i w) = calls w"
  "linked (move i w) = (linked w)(i := True)"
  by (simp_all add: move_def internal_add_timer_def list_add_tail_def list_del_def)

lemma move_other: "j \<noteq> i \<Longrightarrow> j \<in> set (vec (move i w) h) \<longleftrightarrow> j \<in> set (vec w h)"
  by (simp add: move_vec)

lemma once_del: "once w \<Longrightarrow> set (remove1 i (vec w h)) = set (vec w h) - {i}"
  by (simp add: once_def set_remove1_eq)

lemma once_move:
  assumes "once w"
  shows "once (move i w)"
proof -
  let ?p = "timer_vec_for (expires w i) w"
  have mem: "j \<in> set (vec (move i w) h) \<longleftrightarrow> (if j = i then h = ?p else j \<in> set (vec w h))" for j h
    by (auto simp: move_vec once_del [OF assms])
  have "distinct (vec (move i w) h)" for h
    using assms once_del [OF assms, of i h] by (auto simp: move_vec once_def distinct_remove1 simp del: set_remove1_eq)
  moreover have "linked (move i w) j \<longleftrightarrow> (\<exists>h. j \<in> set (vec (move i w) h))" for j
    using assms by (auto simp: mem once_def)
  moreover have "h = g" if "j \<in> set (vec (move i w) h)" "j \<in> set (vec (move i w) g)" for j h g
    using assms that unfolding mem once_def by (metis (full_types))
  ultimately show ?thesis unfolding once_def by blast
qed

lemma ok_move:
  assumes "ok_but {i} t C w" "good t C" "run_timer_list_running w \<in> {None, Some Queued}"
  shows "wheel_ok t C (move i w)"
proof -
  have on: "once w" using assms(1) by (simp add: ok_but_def)
  have "fits t C (timer_vec_for (expires w i) w) (expires w i)"
  proof (cases "run_timer_list_running w")
    case None
    then show ?thesis using assms by (intro vec_for_fits) (auto simp: ok_but_def)
  next
    case (Some q)
    then show ?thesis using assms(3) by (simp add: timer_vec_for_def)
  qed
  then have "fits t C h (expires w j)" if "j \<in> set (vec (move i w) h)" for h j
    using that assms(1) by (auto simp: move_vec ok_but_def once_del [OF on] split: if_splits)
  then show ?thesis using assms(1) once_move [OF on] by (simp add: ok_but_def)
qed

lemma not_linked: "once w \<Longrightarrow> \<not> linked w i \<Longrightarrow> list_del i w = w"
  by (auto simp: once_def list_del_def remove1_idem)

lemma add_timer_move: "once w \<Longrightarrow> add_timer i w = (if linked w i then w else move i w)"
  using not_linked [of w i] by (simp add: add_timer_def timer_pending_def move_def)

lemma mod_timer_move: "once w \<Longrightarrow> snd (mod_timer i e w) = move i (w\<lparr>expires := (expires w)(i := e)\<rparr>)"
  using not_linked [of "w\<lparr>expires := (expires w)(i := e)\<rparr>" i]
  by (simp add: mod_timer_def detach_timer_def timer_pending_def move_def Let_def once_def)

lemma del_timer_vec: "once w \<Longrightarrow> vec (snd (del_timer i w)) h = remove1 i (vec w h)"
  by (auto simp: del_timer_def detach_timer_def timer_pending_def list_del_def once_def remove1_idem)

lemma del_frame [simp]:
  "timer_jiffies (snd (del_timer i w)) = timer_jiffies w" "tv1_index (snd (del_timer i w)) = tv1_index w"
  "tvn_index (snd (del_timer i w)) = tvn_index w" "run_timer_list_running (snd (del_timer i w)) = run_timer_list_running w"
  "expires (snd (del_timer i w)) = expires w" "calls (snd (del_timer i w)) = calls w"
  "linked (snd (del_timer i w)) = (linked w)(i := False)"
  by (simp_all add: del_timer_def detach_timer_def list_del_def)

lemma ok_del:
  assumes "ok_but {i} t C w"
  shows "wheel_ok t C (snd (del_timer i w))"
proof -
  have on: "once w" using assms by (simp add: ok_but_def)
  have mem: "j \<in> set (vec (snd (del_timer i w)) h) \<longleftrightarrow> j \<noteq> i \<and> j \<in> set (vec w h)" for j h
    by (auto simp: del_timer_vec [OF on] once_del [OF on])
  have "once (snd (del_timer i w))"
    using on unfolding once_def mem by (simp add: del_timer_vec [OF on] distinct_remove1) blast
  then show ?thesis using assms by (simp add: ok_but_def mem)
qed

fun target :: "timer_op \<Rightarrow> nat" where
  "target (Add i) = i" | "target (Mod i e) = i" | "target (Del i) = i"

lemma call_frame:
  assumes "once w"
  shows "timer_jiffies (timer_call op w) = timer_jiffies w" "tv1_index (timer_call op w) = tv1_index w"
    "run_timer_list_running (timer_call op w) = run_timer_list_running w" "calls (timer_call op w) = calls w"
    "j \<noteq> target op \<Longrightarrow> expires (timer_call op w) j = expires w j"
    "j \<noteq> target op \<Longrightarrow> j \<in> set (vec (timer_call op w) h) \<longleftrightarrow> j \<in> set (vec w h)"
  using assms by (cases op; simp add: add_timer_move mod_timer_move move_other del_timer_vec)+

lemma ok_call:
  assumes "wheel_ok t C w" "good t C" "run_timer_list_running w \<in> {None, Some Queued}"
  shows "wheel_ok t C (timer_call op w)"
proof -
  have on: "once w" using assms(1) by (simp add: ok_but_def)
  have but: "ok_but {i} t C w" for i using assms(1) by (rule ok_but_mono) simp
  have "ok_but {i} t C (w\<lparr>expires := (expires w)(i := e)\<rparr>)" for i e
    using but [of i] by (auto simp: ok_but_def once_def)
  then show ?thesis
    using assms but on ok_move [OF _ assms(2)]
    by (cases op) (auto simp: add_timer_move mod_timer_move ok_del)
qed

section \<open>The timers of one tick\<close>

definition untouched :: "timer_fn \<Rightarrow> nat \<Rightarrow> bool" where
  "untouched fn j \<longleftrightarrow> (\<forall>i w. j \<notin> target ` set (fn i w))"

text \<open>What the calls of one timer function leave alone while the timers are run.\<close>

lemma calls_keep:
  fixes w :: wheel and ops :: "timer_op list"
  assumes "wheel_ok t C w" "good t C" "run_timer_list_running w = Some Queued"
  defines "w' \<equiv> fold timer_call ops w"
  shows "wheel_ok t C w' \<and> run_timer_list_running w' = Some Queued \<and> calls w' = calls w \<and>
    length (vec w' (Root s)) \<le> length (vec w (Root s)) \<and>
    (\<forall>j. j \<notin> target ` set ops \<longrightarrow> expires w' j = expires w j \<and> (\<forall>h. j \<in> set (vec w' h) \<longleftrightarrow> j \<in> set (vec w h)))"
  using assms(1,3) unfolding w'_def
proof (induction ops arbitrary: w)
  case (Cons op ops)
  have on: "once w" using Cons.prems by (simp add: ok_but_def)
  have ok1: "wheel_ok t C (timer_call op w)" using Cons.prems assms(2) by (intro ok_call) auto
  note fr = call_frame [OF on, where op = op]
  have run1: "run_timer_list_running (timer_call op w) = Some Queued" using fr(3) Cons.prems(2) by simp
  have len: "length (vec (timer_call op w) (Root s)) \<le> length (vec w (Root s))"
    using on Cons.prems(2)
    by (cases op) (auto simp: add_timer_move mod_timer_move del_timer_vec move_vec timer_vec_for_def length_remove1)
  show ?case using Cons.IH [OF ok1 run1] fr len by auto
qed simp

lemma fire_Nil: "vec w (Root (tv1_index w)) = [] \<Longrightarrow> fire fn w = Some w"
  by (subst fire.simps) simp

lemma fire_Cons:
  "vec w (Root (tv1_index w)) = i # is \<Longrightarrow> w1 = (snd (del_timer i w))\<lparr>calls := calls w @ [(i, expires w i, timer_jiffies w)]\<rparr> \<Longrightarrow>
     fire fn w = fire fn (fold timer_call (fn i w1) w1)"
  by (subst fire.simps) (simp add: Let_def)

definition due :: "nat \<Rightarrow> u32 \<Rightarrow> bool" where
  "due t e \<longleftrightarrow> late t e \<or> dist t e = 0"

lemma due_iff: "due t e \<longleftrightarrow> sint (e - of_nat t) \<le> 0"
proof -
  have "dist t e = 0 \<longleftrightarrow> e - of_nat t = 0" by (simp add: dist_def unat_eq_zero)
  moreover have "e - of_nat t = 0 \<longleftrightarrow> sint (e - of_nat t) = 0" by (simp only: signed_eq_0_iff)
  ultimately show ?thesis unfolding due_def late_iff [symmetric] by auto
qed

lemma mod_shift: "(t + d) mod 256 = t mod 256 \<Longrightarrow> d < 256 \<Longrightarrow> d = (0 :: nat)"
  using mod_eq_dvd_iff_nat [of t "t + d" 256] dvd_imp_le [of 256 d] by auto

lemma root_due: "fits t C (Root (t mod 256)) e \<Longrightarrow> due t e"
  using mod_shift [of t "dist t e"] by (auto simp: due_def)

lemma fire_ok:
  assumes "wheel_ok t C w" "good t C" "run_timer_list_running w = Some Queued"
  shows "\<exists>w' new. fire fn w = Some w' \<and> wheel_ok t C w' \<and> run_timer_list_running w' = Some Queued \<and>
    vec w' (Root (t mod 256)) = [] \<and> calls w' = calls w @ new \<and>
    (\<forall>(i, e, x) \<in> set new. x = of_nat t \<and> due t e) \<and>
    (\<forall>j. untouched fn j \<longrightarrow> expires w' j = expires w j \<and>
       (if j \<in> set (vec w (Root (t mod 256)))
        then filter (\<lambda>(i, e, x). i = j) new = [(j, expires w j, of_nat t)] \<and> (\<forall>h. j \<notin> set (vec w' h))
        else filter (\<lambda>(i, e, x). i = j) new = [] \<and> (\<forall>h. j \<in> set (vec w' h) \<longleftrightarrow> j \<in> set (vec w h))))"
  using assms(1,3)
proof (induction "length (vec w (Root (t mod 256)))" arbitrary: w rule: less_induct)
  case less
  let ?s = "Root (t mod 256)"
  have on: "once w" and idx: "tv1_index w = t mod 256" and jif: "timer_jiffies w = of_nat t"
    using less.prems by (auto simp: ok_but_def)
  show ?case
  proof (cases "vec w ?s")
    case Nil
    then show ?thesis using less.prems fire_Nil [of w fn] idx by (intro exI [of _ w] exI [of _ "[]"]) simp
  next
    case (Cons i "is")
    define w1 where "w1 = (snd (del_timer i w))\<lparr>calls := calls w @ [(i, expires w i, timer_jiffies w)]\<rparr>"
    have v1: "vec w1 h = remove1 i (vec w h)" for h by (simp add: w1_def del_timer_vec [OF on])
    have "wheel_ok t C (snd (del_timer i w))" by (rule ok_del, rule ok_but_mono [OF less.prems(1)]) simp
    then have ok1: "wheel_ok t C w1" by (simp add: w1_def ok_but_def once_def)
    have run1: "run_timer_list_running w1 = Some Queued" by (simp add: w1_def less.prems(2))
    define w2 where "w2 = fold timer_call (fn i w1) w1"
    note k2 = calls_keep [OF ok1 assms(2) run1, of "fn i w1" "t mod 256", folded w2_def]
    have "length (vec w2 ?s) < length (vec w ?s)" using k2 Cons by (simp add: v1)
    from less.hyps [OF this] k2 obtain w' new where r: "fire fn w2 = Some w'" "wheel_ok t C w'"
        "run_timer_list_running w' = Some Queued" "vec w' ?s = []" "calls w' = calls w2 @ new"
        "\<forall>(i, e, x) \<in> set new. x = of_nat t \<and> due t e"
      and un: "\<And>j. untouched fn j \<Longrightarrow> expires w' j = expires w2 j \<and>
       (if j \<in> set (vec w2 ?s)
        then filter (\<lambda>(i, e, x). i = j) new = [(j, expires w2 j, of_nat t)] \<and> (\<forall>h. j \<notin> set (vec w' h))
        else filter (\<lambda>(i, e, x). i = j) new = [] \<and> (\<forall>h. j \<in> set (vec w' h) \<longleftrightarrow> j \<in> set (vec w2 h)))"
      by blast
    have "fits t C ?s (expires w i)" using less.prems(1) Cons by (auto simp: ok_but_def simp del: fits.simps)
    then have d: "due t (expires w i)" by (rule root_due)
    have step: "fire fn w = Some w'" using fire_Cons [OF _ w1_def, of "is" fn] Cons idx r(1) by (simp add: w2_def)
    have c: "calls w' = calls w @ ((i, expires w i, of_nat t) # new)" using r(5) k2 by (simp add: w1_def jif)
    have keep: "expires w2 j = expires w j" "\<And>h. j \<in> set (vec w2 h) \<longleftrightarrow> j \<in> set (vec w h) \<and> j \<noteq> i" if "untouched fn j" for j
    proof -
      have "j \<notin> target ` set (fn i w1)" using that by (simp add: untouched_def)
      then have "expires w2 j = expires w1 j" "\<And>h. j \<in> set (vec w2 h) \<longleftrightarrow> j \<in> set (vec w1 h)" using k2 by blast+
      moreover have "expires w1 j = expires w j" by (simp add: w1_def)
      ultimately show "expires w2 j = expires w j" "\<And>h. j \<in> set (vec w2 h) \<longleftrightarrow> j \<in> set (vec w h) \<and> j \<noteq> i"
        by (auto simp: v1 once_del [OF on])
    qed
    have un': "expires w' j = expires w j \<and>
       (if j \<in> set (vec w ?s)
        then filter (\<lambda>(i, e, x). i = j) ((i, expires w i, of_nat t) # new) = [(j, expires w j, of_nat t)] \<and> (\<forall>h. j \<notin> set (vec w' h))
        else filter (\<lambda>(i, e, x). i = j) ((i, expires w i, of_nat t) # new) = [] \<and> (\<forall>h. j \<in> set (vec w' h) \<longleftrightarrow> j \<in> set (vec w h)))"
      if "untouched fn j" for j
      using un [OF that] keep [OF that] Cons by (cases "j = i") auto
    show ?thesis
      by (rule exI [of _ w'], rule exI [of _ "(i, expires w i, of_nat t) # new"])
        (use step r c d un' in \<open>simp del: filter.simps\<close>)
  qed
qed

section \<open>Cascading\<close>

text \<open>The number of the next slot of a vector, before and after the cascade of tick \<open>t\<close>.\<close>

definition before :: "nat \<Rightarrow> nat \<Rightarrow> nat" where
  "before t n = (if 2 ^ sh n dvd t then t div 2 ^ sh n else t div 2 ^ sh n + 1)"

definition after :: "nat \<Rightarrow> nat \<Rightarrow> nat" where
  "after t n = t div 2 ^ sh n + 1"

lemma after_before: "after t = before (t + 1)"
  by (auto simp: fun_eq_iff after_def before_def div_Suc dvd_eq_mod_eq_0)

lemma good_after: "good t (after t)"
  by (auto simp: good_def after_def) (simp add: dividend_less_div_times less_imp_le)

lemma good_before: "good t (before t)"
  by (auto simp: good_def before_def) (simp add: dividend_less_div_times less_imp_le)

lemma same_slot: "c \<le> b \<Longrightarrow> b < c + 64 \<Longrightarrow> b mod 64 = c mod 64 \<Longrightarrow> b = (c :: nat)"
  using mod_eq_dvd_iff_nat [of c b 64] dvd_imp_le [of 64 "b - c"] by (cases "c < b") auto

lemma due_block:
  assumes "fits t C (Level n (C n mod 64)) e" "C n * 2 ^ sh n = t"
  shows "dist t e < 2 ^ sh n"
proof -
  define b where "b = (t + dist t e) div 2 ^ sh n"
  have "C n \<le> b" "b < C n + 64" "C n mod 64 = b mod 64" using assms(1) unfolding fits.simps b_def [symmetric] by blast+
  then have "b = C n" by (metis same_slot)
  moreover have "t + dist t e < 2 ^ sh n + b * 2 ^ sh n" unfolding b_def by (rule dividend_less_div_times) simp
  ultimately show ?thesis using assms(2) by (metis add.commute add_less_cancel_left)
qed

lemma move_in_level:
  assumes "dist t e < 2 ^ sh n" "1 \<le> n" "n \<le> 4" "timer_jiffies w = of_nat t" "run_timer_list_running w = None"
  shows "timer_vec_for e w \<noteq> Level n s"
proof -
  have d: "e - of_nat t < k \<longleftrightarrow> dist t e < unat k" for k by (simp add: dist_def word_less_nat_alt)
  have "n = 1 \<or> n = 2 \<or> n = 3 \<or> n = 4" using assms(2,3) by auto
  then show ?thesis
    using assms(1) unfolding timer_vec_for_def Let_def assms(4,5) option.case d by (elim disjE) simp_all
qed

lemma vec_for_not_queued: "run_timer_list_running w = None \<Longrightarrow> timer_vec_for e w \<noteq> Queued"
  by (simp add: timer_vec_for_def Let_def)

lemma vec_for_cong:
  "timer_jiffies v = timer_jiffies w \<Longrightarrow> tv1_index v = tv1_index w \<Longrightarrow> run_timer_list_running v = run_timer_list_running w \<Longrightarrow>
    timer_vec_for e v = timer_vec_for e w"
  by (simp add: timer_vec_for_def Let_def split: option.split)

lemma fold_move:
  assumes "wheel_ok t C w" "good t C" "run_timer_list_running w = None"
  shows "wheel_ok t C (fold move is w) \<and> run_timer_list_running (fold move is w) = None \<and>
    expires (fold move is w) = expires w \<and> calls (fold move is w) = calls w \<and> tvn_index (fold move is w) = tvn_index w \<and>
    timer_jiffies (fold move is w) = timer_jiffies w \<and>
    (\<forall>i. linked (fold move is w) i \<longleftrightarrow> linked w i \<or> i \<in> set is) \<and>
    (\<forall>h. set (vec (fold move is w) h) = {i \<in> set (vec w h). i \<notin> set is} \<union> {i \<in> set is. timer_vec_for (expires w i) w = h})"
  using assms(1,3)
proof (induction "is" arbitrary: w)
  case (Cons i "is")
  have on: "once w" using Cons.prems by (simp add: ok_but_def)
  have ok1: "wheel_ok t C (move i w)"
    by (rule ok_move [OF ok_but_mono [OF Cons.prems(1)] assms(2)]) (simp_all add: Cons.prems(2))
  have tv: "timer_vec_for e (move i w) = timer_vec_for e w" for e by (rule vec_for_cong) simp_all
  have v1: "set (vec (move i w) h) = set (vec w h) - {i} \<union> (if h = timer_vec_for (expires w i) w then {i} else {})" for h
    by (simp add: move_vec once_del [OF on])
  show ?case using Cons.IH [OF ok1] Cons.prems(2) by (auto simp: tv v1)
qed auto

lemma cascade_ok:
  assumes "wheel_ok t C w" "good t C" "run_timer_list_running w = None" "1 \<le> n" "n \<le> 4" "C n * 2 ^ sh n = t"
  shows "wheel_ok t (C(n := C n + 1)) (cascade_timers n w) \<and> run_timer_list_running (cascade_timers n w) = None \<and>
    expires (cascade_timers n w) = expires w \<and> calls (cascade_timers n w) = calls w \<and>
    linked (cascade_timers n w) = linked w \<and> (vec (cascade_timers n w) Queued = [] \<longleftrightarrow> vec w Queued = [])"
proof -
  define head where "head = Level n (C n mod 64)"
  have on: "once w" and idx: "tvn_index w n = C n mod 64" and jif: "timer_jiffies w = of_nat t"
    using assms by (auto simp: ok_but_def)
  define w1 where "w1 = fold move (vec w head) w"
  note f = fold_move [OF assms(1-3), of "vec w head", folded w1_def]
  have eq: "cascade_timers n w = w1\<lparr>vec := (vec w1)(head := []), tvn_index := (tvn_index w1)(n := (tvn_index w1 n + 1) mod 64)\<rparr>"
    by (simp add: cascade_timers_def idx head_def w1_def Let_def)
  have "timer_vec_for (expires w i) w \<noteq> head" if "i \<in> set (vec w head)" for i
  proof -
    have "fits t C head (expires w i)" using assms(1) that by (auto simp: ok_but_def simp del: fits.simps)
    then have "dist t (expires w i) < 2 ^ sh n" unfolding head_def using assms(6) by (rule due_block)
    then show ?thesis unfolding head_def using assms jif by (intro move_in_level) auto
  qed
  then have "set (vec w1 head) = {}" using f by auto
  then have empty: "vec w1 head = []" by simp
  then have eq': "cascade_timers n w = w1\<lparr>tvn_index := (tvn_index w1)(n := (tvn_index w1 n + 1) mod 64)\<rparr>"
    unfolding eq by (simp add: fun_upd_idem)
  have fit: "fits t (C(n := C n + 1)) h (expires w1 j)" if "j \<in> set (vec w1 h)" for h j
  proof -
    have old: "fits t C h (expires w1 j)" using f that by (auto simp: ok_but_def simp del: fits.simps)
    show ?thesis
    proof (cases h)
      case (Level m s)
      have "C n \<noteq> (t + dist t (expires w1 j)) div 2 ^ sh n" if "m = n"
        using old empty \<open>j \<in> set (vec w1 h)\<close> that unfolding Level head_def by auto
      then show ?thesis using old Level by auto
    qed (use old in auto)
  qed
  have "once w1" and oth: "timer_jiffies w1 = of_nat t" "tv1_index w1 = t mod 256" "\<forall>n. 1 \<le> n \<and> n \<le> 4 \<longrightarrow> tvn_index w1 n = C n mod 64"
    using f by (auto simp: ok_but_def)
  then have "wheel_ok t (C(n := C n + 1)) (cascade_timers n w)"
    unfolding eq' ok_but_def using fit assms(4,5) by (auto simp: once_def mod_Suc_eq simp del: fits.simps)
  moreover have "linked w1 = linked w" using f on by (auto simp: fun_eq_iff once_def)
  moreover have "x \<notin> set (vec w head)" if "x \<in> set (vec w Queued)" for x
    using on that unfolding once_def head_def by (metis head.distinct(5))
  then have "set (vec w1 Queued) = set (vec w Queued)"
    using f vec_for_not_queued [OF assms(3)] by auto
  then have "vec w1 Queued = [] \<longleftrightarrow> vec w Queued = []" by (metis set_empty)
  ultimately show ?thesis using f by (simp add: eq')
qed

lemma ok_cong:
  assumes "\<And>n. 1 \<le> n \<Longrightarrow> n \<le> 4 \<Longrightarrow> C n = D n"
  shows "ok_but X t C w \<longleftrightarrow> ok_but X t D w"
proof -
  have "fits t C h e \<longleftrightarrow> fits t D h e" for h e using assms by (cases h) auto
  then show ?thesis using assms by (auto simp: ok_but_def)
qed

lemma sh_Suc: "1 \<le> n \<Longrightarrow> sh (Suc n) = sh n + 6"
  by (simp add: sh_def algebra_simps)

lemma one_more_mod: "(x + 1) mod 64 = 1 \<longleftrightarrow> 64 dvd (x :: nat)"
  by presburger

lemma next_level:
  fixes t :: nat
  assumes "1 \<le> n" "2 ^ sh n dvd t"
  shows "(t div 2 ^ sh n + 1) mod 64 = 1 \<longleftrightarrow> 2 ^ sh (Suc n) dvd t"
proof -
  have "(t div 2 ^ sh n + 1) mod 64 = 1 \<longleftrightarrow> 64 dvd t div 2 ^ sh n" by (rule one_more_mod)
  also have "\<dots> \<longleftrightarrow> 64 * 2 ^ sh n dvd t div 2 ^ sh n * 2 ^ sh n" by simp
  also have "\<dots> \<longleftrightarrow> 2 ^ sh (Suc n) dvd t" using assms by (simp add: sh_Suc power_add mult.commute)
  finally show ?thesis .
qed

lemma higher_level:
  assumes "\<not> 2 ^ sh n dvd t" "n \<le> m"
  shows "before t m = after t m"
proof -
  have "sh n \<le> sh m" using assms(2) by (simp add: sh_def)
  then have "\<not> 2 ^ sh m dvd t" using assms(1) le_imp_power_dvd [of "sh n" "sh m" "2 :: nat"] dvd_trans by blast
  then show ?thesis by (simp add: before_def after_def)
qed

definition same_timers :: "wheel \<Rightarrow> wheel \<Rightarrow> bool" where
  "same_timers w w' \<longleftrightarrow> run_timer_list_running w' = None \<and> expires w' = expires w \<and> calls w' = calls w \<and>
     linked w' = linked w \<and> (vec w' Queued = [] \<longleftrightarrow> vec w Queued = [])"

lemma cascade_loop_ok:
  assumes "1 \<le> n" "n \<le> 4" "2 ^ sh n dvd t" "run_timer_list_running w = None"
    "wheel_ok t (\<lambda>m. if m < n then after t m else before t m) w"
  shows "wheel_ok t (after t) (cascade_loop n w) \<and> same_timers w (cascade_loop n w)"
  using assms
proof (induction n w rule: cascade_loop.induct)
  case (1 n w)
  define C where "C = (\<lambda>m. if m < n then after t m else before t m)"
  have Cn: "C n = t div 2 ^ sh n" using 1(4) by (simp add: C_def before_def)
  have gC: "good t C" using good_after [of t] good_before [of t] by (auto simp: good_def C_def)
  define w1 where "w1 = cascade_timers n w"
  have c: "wheel_ok t (C(n := C n + 1)) w1" "same_timers w w1"
    using cascade_ok [of t C w n] 1(2-6) gC Cn by (auto simp: C_def w1_def same_timers_def)
  have C': "C(n := C n + 1) = (\<lambda>m. if m < Suc n then after t m else before t m)"
    by (auto simp: C_def fun_eq_iff after_def before_def 1(4))
  have i1: "tvn_index w1 n = 1 \<longleftrightarrow> 2 ^ sh (Suc n) dvd t"
    using c(1) 1(2,3) next_level [OF 1(2,4)] by (simp add: ok_but_def Cn)
  have u: "cascade_loop n w = (if tvn_index w1 n = 1 \<and> n + 1 < 5 then cascade_loop (n + 1) w1 else w1)"
    by (subst cascade_loop.simps) (simp add: w1_def Let_def)
  show ?case
  proof (cases "tvn_index w1 n = 1 \<and> n + 1 < 5")
    case True
    have run: "run_timer_list_running w1 = None" using c(2) by (simp add: same_timers_def)
    have "wheel_ok t (after t) (cascade_loop (n + 1) w1) \<and> same_timers w1 (cascade_loop (n + 1) w1)"
      using 1(1) [OF w1_def] True i1 run c(1)[unfolded C'] by simp
    then show ?thesis using True c(2) unfolding u by (simp add: same_timers_def)
  next
    case False
    have "wheel_ok t (after t) w1"
    proof (rule ok_cong [THEN iffD1, OF _ c(1)])
      fix m :: nat assume m: "1 \<le> m" "m \<le> 4"
      show "(C(n := C n + 1)) m = after t m"
      proof (cases "m < Suc n")
        case larger: False
        then have "\<not> 2 ^ sh (Suc n) dvd t" using False i1 m 1(3) by auto
        then show ?thesis using larger higher_level [of "Suc n" t m] unfolding C' by simp
      qed (unfold C', simp)
    qed
    then show ?thesis using False c(2) unfolding u by auto
  qed
qed

section \<open>One tick\<close>

lemma dist_Suc: "dist t e \<noteq> 0 \<Longrightarrow> dist (t + 1) e = dist t e - 1"
proof -
  assume "dist t e \<noteq> 0"
  then have "e - of_nat t \<noteq> 0" by (metis dist_def unat_0)
  then have "unat (e - of_nat t - 1) = unat (e - of_nat t) - 1" by (rule unat_minus_one)
  then show ?thesis by (simp add: dist_def algebra_simps)
qed

lemma level_not_due:
  assumes "fits t (after t) (Level n s) e"
  shows "\<not> due t e"
proof -
  have "dist t e \<noteq> 0"
  proof
    assume "dist t e = 0"
    with assms show False by (simp add: after_def)
  qed
  then show ?thesis using assms by (simp add: due_def)
qed

lemma root_slot_due: "fits t C (Root s) e \<Longrightarrow> due t e \<Longrightarrow> s = t mod 256"
  by (auto simp: due_def late_def)

lemma fits_Suc:
  assumes "fits t (after t) h e" "h \<noteq> Root (t mod 256)"
  shows "fits (t + 1) (before (t + 1)) h e"
proof (cases h)
  case (Root s)
  then have s: "dist t e < 256" "s = (t + dist t e) mod 256" using assms by auto
  have d: "dist t e \<noteq> 0"
  proof
    assume "dist t e = 0"
    with s assms(2) Root show False by simp
  qed
  then show ?thesis using Root s d dist_Suc [OF d] by auto
next
  case (Level n s)
  have "\<not> due t e" using level_not_due assms(1) Level by blast
  then have d: "dist t e \<noteq> 0" "\<not> late t e" by (auto simp: due_def)
  then have same: "t + 1 + dist (t + 1) e = t + dist t e" and "\<not> late (t + 1) e" using dist_Suc [OF d(1)] by (auto simp: late_def)
  then show ?thesis using assms(1) unfolding Level after_before fits.simps same by blast
qed simp

lemma advance_ok:
  assumes "wheel_ok t (after t) w" "vec w (Root (t mod 256)) = []"
  shows "wheel_ok (t + 1) (before (t + 1)) (w\<lparr>run_timer_list_running := None, timer_jiffies := timer_jiffies w + 1,
    tv1_index := (tv1_index w + 1) mod 256\<rparr>)"
proof -
  have "fits (t + 1) (before (t + 1)) h (expires w j)" if "j \<in> set (vec w h)" for h j
  proof (rule fits_Suc)
    show "fits t (after t) h (expires w j)" using assms(1) that by (auto simp: ok_but_def simp del: fits.simps)
    show "h \<noteq> Root (t mod 256)" using assms(2) that by auto
  qed
  then show ?thesis
    using assms(1) by (auto simp: ok_but_def once_def after_before mod_Suc_eq simp del: fits.simps)
qed

lemma cascaded_ok:
  assumes "wheel_ok t (before t) w" "run_timer_list_running w = None"
  defines "w1 \<equiv> if tv1_index w = 0 then cascade_loop 1 w else w"
  shows "wheel_ok t (after t) w1 \<and> same_timers w w1"
proof (cases "t mod 256 = 0")
  case True
  then have "2 ^ sh 1 dvd t" by (simp add: dvd_eq_mod_eq_0)
  moreover have "wheel_ok t (\<lambda>m. if m < 1 then after t m else before t m) w"
    by (rule ok_cong [THEN iffD1, OF _ assms(1)]) simp
  ultimately show ?thesis
    using cascade_loop_ok [of 1 t w] assms True by (simp add: ok_but_def)
next
  case False
  then have "\<not> 2 ^ sh 1 dvd t" by (simp add: dvd_eq_mod_eq_0)
  then have "wheel_ok t (after t) w"
    by (intro ok_cong [THEN iffD1, OF _ assms(1)]) (rule higher_level)
  then show ?thesis using assms False by (simp add: ok_but_def same_timers_def)
qed

lemma in_slot:
  assumes "wheel_ok t (after t) w" "vec w Queued = []"
  shows "j \<in> set (vec w (Root (t mod 256))) \<longleftrightarrow> linked w j \<and> due t (expires w j)"
proof -
  have lk: "linked w j \<longleftrightarrow> (\<exists>h. j \<in> set (vec w h))" using assms(1) by (simp add: ok_but_def once_def)
  have ft: "fits t (after t) h (expires w j)" if "j \<in> set (vec w h)" for h
    using assms(1) that by (auto simp: ok_but_def simp del: fits.simps)
  have "j \<in> set (vec w (Root (t mod 256)))" if "j \<in> set (vec w h)" "due t (expires w j)" for h
    using that ft [OF that(1)] assms(2) level_not_due root_slot_due by (cases h) (force simp del: fits.simps)+
  then show ?thesis using lk ft root_due by blast
qed

definition called :: "nat \<Rightarrow> (nat \<times> u32 \<times> u32) list \<Rightarrow> (nat \<times> u32 \<times> u32) list" where
  "called j l = filter (\<lambda>(i, e, x). i = j) l"

text \<open>The state between two runs, and what one tick does to timers that no timer function touches.\<close>

definition idle :: "nat \<Rightarrow> wheel \<Rightarrow> bool" where
  "idle t w \<longleftrightarrow> wheel_ok t (before t) w \<and> run_timer_list_running w = None \<and> vec w Queued = []"

definition tick_effect :: "timer_fn \<Rightarrow> nat \<Rightarrow> wheel \<Rightarrow> wheel \<Rightarrow> (nat \<times> u32 \<times> u32) list \<Rightarrow> bool" where
  "tick_effect fn t w w' new \<longleftrightarrow> (\<forall>j. untouched fn j \<longrightarrow> expires w' j = expires w j \<and>
     (if linked w j \<and> due t (expires w j) then called j new = [(j, expires w j, of_nat t)] \<and> \<not> linked w' j
      else called j new = [] \<and> linked w' j = linked w j))"

definition on_time :: "nat \<times> u32 \<times> u32 \<Rightarrow> bool" where
  "on_time = (\<lambda>(i, e, x). sint (e - x) \<le> 0)"

lemma tick_ok:
  assumes "idle t w"
  shows "\<exists>w' new. tick fn w = Some w' \<and> idle (t + 1) w' \<and> calls w' = calls w @ new \<and> (\<forall>c \<in> set new. on_time c) \<and>
    tick_effect fn t w w' new"
proof -
  note assms = assms [unfolded idle_def, THEN conjunct1] assms [unfolded idle_def, THEN conjunct2, THEN conjunct1]
    assms [unfolded idle_def, THEN conjunct2, THEN conjunct2]
  define w1 where "w1 = (if tv1_index w = 0 then cascade_loop 1 w else w)"
  have c: "wheel_ok t (after t) w1" "same_timers w w1" using cascaded_ok [OF assms(1,2)] by (auto simp: w1_def)
  define w2 where "w2 = w1\<lparr>run_timer_list_running := Some Queued\<rparr>"
  have ok2: "wheel_ok t (after t) w2" using c(1) by (simp add: w2_def ok_but_def once_def)
  obtain w3 new where f: "fire fn w2 = Some w3" "wheel_ok t (after t) w3" "vec w3 (Root (t mod 256)) = []"
      "calls w3 = calls w2 @ new" "\<forall>(i, e, x) \<in> set new. x = of_nat t \<and> due t e"
    and un: "\<And>j. untouched fn j \<Longrightarrow> expires w3 j = expires w2 j \<and>
       (if j \<in> set (vec w2 (Root (t mod 256)))
        then called j new = [(j, expires w2 j, of_nat t)] \<and> (\<forall>h. j \<notin> set (vec w3 h))
        else called j new = [] \<and> (\<forall>h. j \<in> set (vec w3 h) \<longleftrightarrow> j \<in> set (vec w2 h)))"
    using fire_ok [OF ok2 good_after, of fn] unfolding called_def w2_def by auto
  define w4 where "w4 = w3\<lparr>run_timer_list_running := None, timer_jiffies := timer_jiffies w3 + 1, tv1_index := (tv1_index w3 + 1) mod 256\<rparr>"
  have ok4: "wheel_ok (t + 1) (before (t + 1)) w4" unfolding w4_def by (rule advance_ok [OF f(2,3)])
  define w5 where "w5 = fold move (vec w4 Queued) w4"
  have run4: "run_timer_list_running w4 = None" by (simp add: w4_def)
  note m = fold_move [OF ok4 good_before run4, of "vec w4 Queued", folded w5_def]
  have "set (vec w5 Queued) = {}" using m vec_for_not_queued [OF run4] by auto
  then have q5: "vec w5 Queued = []" by simp
  have l5: "linked w5 j = linked w3 j" for j
  proof -
    have "linked w4 j" if "j \<in> set (vec w4 Queued)" using ok4 that by (auto simp: ok_but_def once_def)
    then show ?thesis using m by (auto simp: w4_def)
  qed
  have t: "tick fn w = Some w5" unfolding tick_def Let_def w1_def [symmetric] w2_def [symmetric] f(1) option.case w4_def [symmetric] w5_def ..
  have c5: "calls w5 = calls w @ new" "expires w5 = expires w3" using m f(4) c(2) by (auto simp: w4_def w2_def same_timers_def)
  have slot: "j \<in> set (vec w2 (Root (t mod 256))) \<longleftrightarrow> linked w j \<and> due t (expires w j)" for j
    using in_slot [OF c(1), of j] c(2) assms(3) by (simp add: w2_def same_timers_def)
  have lk: "linked v j \<longleftrightarrow> (\<exists>h. j \<in> set (vec v h))" if "ok_but X T C v" for v X T C j using that by (simp add: ok_but_def once_def)
  have w2w: "expires w2 = expires w" "linked w2 = linked w" using c(2) by (auto simp: w2_def same_timers_def)
  have "expires w5 j = expires w j \<and> (if linked w j \<and> due t (expires w j) then called j new = [(j, expires w j, of_nat t)] \<and> \<not> linked w5 j
        else called j new = [] \<and> linked w5 j = linked w j)" if "untouched fn j" for j
    using un [OF that] lk [OF f(2), of j] lk [OF ok2, of j] unfolding slot l5 c5 w2w by (auto split: if_splits)
  note u5 = this
  have ok5: "wheel_ok (t + 1) (before (t + 1)) w5" "run_timer_list_running w5 = None" using m by auto
  show ?thesis
    using t ok5 q5 c5(1) f(5) u5 unfolding idle_def tick_effect_def on_time_def
    by (intro exI [of _ w5] exI [of _ new]) (auto simp: due_iff)
qed

section \<open>Many ticks\<close>

primrec ticks :: "timer_fn \<Rightarrow> nat \<Rightarrow> wheel \<Rightarrow> wheel option" where
  "ticks fn 0 w = Some w"
| "ticks fn (Suc n) w = (case tick fn w of None \<Rightarrow> None | Some w \<Rightarrow> ticks fn n w)"

lemma called_append [simp]: "called j (xs @ ys) = called j xs @ called j ys"
  by (simp add: called_def)

definition ticks_effect :: "timer_fn \<Rightarrow> nat \<Rightarrow> nat \<Rightarrow> wheel \<Rightarrow> wheel \<Rightarrow> (nat \<times> u32 \<times> u32) list \<Rightarrow> bool" where
  "ticks_effect fn n t w w' new \<longleftrightarrow> (\<forall>j. untouched fn j \<longrightarrow> expires w' j = expires w j \<and>
     (linked w j \<longrightarrow> \<not> late t (expires w j) \<longrightarrow>
        (if dist t (expires w j) < n then called j new = [(j, expires w j, expires w j)] \<and> \<not> linked w' j
         else called j new = [] \<and> linked w' j)) \<and>
     (\<not> linked w j \<longrightarrow> called j new = [] \<and> \<not> linked w' j))"

lemma ticks_effect_Suc:
  assumes "tick_effect fn t w w1 new1" "ticks_effect fn n (t + 1) w1 w' new"
  shows "ticks_effect fn (Suc n) t w w' (new1 @ new)"
  unfolding ticks_effect_def
proof (intro allI impI)
  fix j assume un: "untouched fn j"
  let ?e = "expires w j"
  have now: "?e = of_nat t" if "dist t ?e = 0"
  proof -
    have "?e - of_nat t = 0" using that by (simp only: dist_def unat_eq_zero)
    then show ?thesis by simp
  qed
  have later: "dist t ?e < Suc n \<longleftrightarrow> dist (t + 1) ?e < n" "\<not> late (t + 1) ?e" if "dist t ?e \<noteq> 0" "\<not> late t ?e"
    using dist_Suc [OF that(1)] that by (auto simp: late_def)
  have one: "expires w1 j = ?e" "if linked w j \<and> due t ?e then called j new1 = [(j, ?e, of_nat t)] \<and> \<not> linked w1 j
      else called j new1 = [] \<and> linked w1 j = linked w j"
    using assms(1) un by (auto simp: tick_effect_def)
  have rest: "expires w' j = expires w1 j" "linked w1 j \<Longrightarrow> \<not> late (t + 1) (expires w1 j) \<Longrightarrow>
      (if dist (t + 1) (expires w1 j) < n then called j new = [(j, expires w1 j, expires w1 j)] \<and> \<not> linked w' j
       else called j new = [] \<and> linked w' j)" "\<not> linked w1 j \<Longrightarrow> called j new = [] \<and> \<not> linked w' j"
    using assms(2) un unfolding ticks_effect_def by blast+
  show "expires w' j = ?e \<and> (linked w j \<longrightarrow> \<not> late t ?e \<longrightarrow>
        (if dist t ?e < Suc n then called j (new1 @ new) = [(j, ?e, ?e)] \<and> \<not> linked w' j
         else called j (new1 @ new) = [] \<and> linked w' j)) \<and>
      (\<not> linked w j \<longrightarrow> called j (new1 @ new) = [] \<and> \<not> linked w' j)"
  proof (cases "linked w j \<and> dist t ?e \<noteq> 0 \<and> \<not> late t ?e")
    case True
    then show ?thesis using one rest later by (simp add: due_def)
  next
    case False
    then show ?thesis using one rest(1,3) now by (auto simp: due_def split: if_splits)
  qed
qed

lemma ticks_ok:
  assumes "idle t w"
  shows "\<exists>w' new. ticks fn n w = Some w' \<and> idle (t + n) w' \<and> calls w' = calls w @ new \<and> (\<forall>c \<in> set new. on_time c) \<and>
    ticks_effect fn n t w w' new"
  using assms
proof (induction n arbitrary: t w)
  case 0
  then show ?case by (intro exI [of _ w] exI [of _ "[]"]) (simp add: called_def ticks_effect_def)
next
  case (Suc n)
  obtain w1 new1 where t1: "tick fn w = Some w1" "idle (t + 1) w1" "calls w1 = calls w @ new1"
      "\<forall>c \<in> set new1. on_time c" "tick_effect fn t w w1 new1"
    using tick_ok [OF Suc.prems] by blast
  obtain w' new where t2: "ticks fn n w1 = Some w'" "idle (t + 1 + n) w'" "calls w' = calls w1 @ new"
      "\<forall>c \<in> set new. on_time c" "ticks_effect fn n (t + 1) w1 w' new"
    using Suc.IH [OF t1(2)] by blast
  have "ticks fn (Suc n) w = Some w'" "idle (t + Suc n) w'" "calls w' = calls w @ (new1 @ new)" "\<forall>c \<in> set (new1 @ new). on_time c"
    using t1 t2 by auto
  then show ?case using ticks_effect_Suc [OF t1(5) t2(5)] by blast
qed

lemma sint_pred:
  assumes "0 \<le> sint (w :: u32)"
  shows "sint (w - 1) = sint w - 1"
proof -
  have "sint w - 1 < 2 ^ 31" "- (2 ^ 31) \<le> sint w - 1" using sint_less [of w] assms by simp_all
  then show ?thesis by (simp add: sint_word_diff signed_take_bit_int_eq_self)
qed

lemma signed_small: "k < 2 ^ 31 \<Longrightarrow> signed_take_bit 31 (int k) = int k"
  by (intro signed_take_bit_int_eq_self) simp_all

lemma sint_dist:
  assumes "\<not> late t e"
  shows "sint (e - of_nat t) = int (dist t e)"
proof -
  have u: "uint w = int (unat w)" for w :: u32 by simp
  have len: "LENGTH(32) - Suc 0 = 31" by simp
  have "dist t e < 2 ^ 31" using assms by (simp only: late_def not_le)
  from signed_small [OF this] show ?thesis by (simp only: sint_uint u len dist_def)
qed

lemma run_ticks:
  assumes "idle t w" "sint (jiffies - timer_jiffies w) = int n - 1"
  shows "run_timer_list fn jiffies w = ticks fn n w"
  using assms
proof (induction n arbitrary: t w)
  case 0
  then show ?case by (subst run_timer_list.simps) simp
next
  case (Suc n)
  obtain w1 where t1: "tick fn w = Some w1" "idle (t + 1) w1"
    using tick_ok [OF Suc.prems(1), of fn] by blast
  have "timer_jiffies w1 = timer_jiffies w + 1"
    using Suc.prems(1) t1(2) by (simp add: idle_def ok_but_def)
  then have "jiffies - timer_jiffies w1 = (jiffies - timer_jiffies w) - 1" by simp
  moreover have "sint ((jiffies - timer_jiffies w) - 1) = int n - 1"
    using sint_pred [of "jiffies - timer_jiffies w"] Suc.prems(2) by simp
  ultimately have "sint (jiffies - timer_jiffies w1) = int n - 1" by (simp only:)
  from Suc.IH [OF t1(2) this] show ?case
    using Suc.prems(2) t1(1) by (subst run_timer_list.simps) simp
qed

section \<open>Every history of the wheel\<close>

datatype timer_event = Call timer_op | Run timer_fn u32

fun timer_run :: "timer_event list \<Rightarrow> wheel \<Rightarrow> wheel option" where
  "timer_run [] w = Some w"
| "timer_run (Call op # evs) w = timer_run evs (timer_call op w)"
| "timer_run (Run fn jiffies # evs) w =
     (case run_timer_list fn jiffies w of None \<Rightarrow> None | Some w \<Rightarrow> timer_run evs w)"

lemma idle_init: "idle 0 (init_timervecs e)"
  by (simp add: idle_def ok_but_def once_def init_timervecs_def before_def)

lemma idle_call:
  assumes "idle t w"
  shows "idle t (timer_call op w)" "calls (timer_call op w) = calls w"
proof -
  have on: "once w" and run: "run_timer_list_running w = None" and ok: "wheel_ok t (before t) w" and q: "vec w Queued = []"
    using assms by (auto simp: idle_def ok_but_def)
  have "Queued \<noteq> timer_vec_for x v" if "run_timer_list_running v = None" for x v
    using that by (simp add: timer_vec_for_def Let_def)
  then have "vec (timer_call op w) Queued = []"
    using on q run by (cases op) (auto simp: add_timer_move mod_timer_move del_timer_vec move_vec)
  then show "idle t (timer_call op w)"
    using ok_call [OF ok good_before] call_frame(3) [OF on] run by (simp add: idle_def)
  show "calls (timer_call op w) = calls w" by (rule call_frame(4) [OF on])
qed

lemma run_ok:
  fixes w :: wheel and jiffies :: u32
  assumes "idle t w"
  defines "n \<equiv> nat (sint (jiffies - timer_jiffies w) + 1)"
  shows "\<exists>w' new. run_timer_list fn jiffies w = Some w' \<and> idle (t + n) w' \<and> calls w' = calls w @ new \<and>
    (\<forall>c \<in> set new. on_time c) \<and> ticks_effect fn n t w w' new"
proof -
  have "run_timer_list fn jiffies w = ticks fn n w"
  proof (cases "0 \<le> sint (jiffies - timer_jiffies w)")
    case True
    then show ?thesis using run_ticks [OF assms(1), of jiffies n fn] by (simp add: n_def)
  next
    case False
    then show ?thesis by (subst run_timer_list.simps) (simp add: n_def)
  qed
  then show ?thesis using ticks_ok [OF assms(1), of fn n] by simp
qed

lemma timer_run_ok:
  assumes "idle t w" "\<forall>c \<in> set (calls w). on_time c"
  shows "\<exists>t' w'. timer_run evs w = Some w' \<and> idle t' w' \<and> (\<forall>c \<in> set (calls w'). on_time c)"
  using assms
proof (induction evs arbitrary: t w)
  case (Cons ev evs)
  show ?case
  proof (cases ev)
    case (Call op)
    then show ?thesis using Cons.IH [OF idle_call(1) [OF Cons.prems(1), of op]] Cons.prems idle_call(2) by simp
  next
    case (Run fn jiffies)
    obtain w' new where r: "run_timer_list fn jiffies w = Some w'" "calls w' = calls w @ new" "\<forall>c \<in> set new. on_time c"
        and i: "idle (t + nat (sint (jiffies - timer_jiffies w) + 1)) w'"
      using run_ok [OF Cons.prems(1)] by blast
    have "\<forall>c \<in> set (calls w'). on_time c" using r(2,3) Cons.prems(2) by auto
    from Cons.IH [OF i this] show ?thesis using Run r(1) by simp
  qed
qed auto

text \<open>What \<^verbatim>\<open>include/linux/timer.h\<close> says of \<open>mod_timer\<close>.\<close>

lemma mod_timer_is_del_add:
  assumes "idle t w"
  shows "snd (mod_timer i e w) = add_timer i ((snd (del_timer i w))\<lparr>expires := (expires w)(i := e)\<rparr>)"
proof -
  have on: "once w" using assms by (simp add: idle_def ok_but_def)
  show ?thesis
    using not_linked [OF on, of i]
    by (simp add: mod_timer_def del_timer_def add_timer_def detach_timer_def timer_pending_def internal_add_timer_def
        list_add_tail_def timer_vec_for_def list_del_def Let_def cong: option.case_cong)
qed

text \<open>
  C9: However the timer calls and the runs of the wheel follow each other, and whatever calls the
  timer functions make, every run comes to an end and no timer function is called before the tick in
  which its timer expires, with times compared modulo 2^32; a timer is pending exactly when it is
  on one list of the wheel.
\<close>

theorem timers_never_early:
  "\<exists>w. timer_run evs (init_timervecs exps) = Some w \<and> list_all (\<lambda>(i, e, tick). sint (e - tick) \<le> 0) (calls w) \<and>
     (\<forall>i. timer_pending i w \<longleftrightarrow> (\<exists>!h. i \<in> set (vec w h)))"
proof -
  obtain t w where w: "timer_run evs (init_timervecs exps) = Some w" "idle t w" "\<forall>c \<in> set (calls w). on_time c"
    using timer_run_ok [OF idle_init, of exps evs] by (auto simp: init_timervecs_def)
  have "once w" using w(2) by (simp add: idle_def ok_but_def)
  then have "timer_pending i w \<longleftrightarrow> (\<exists>!h. i \<in> set (vec w h))" for i
    unfolding once_def timer_pending_def by blast
  then show ?thesis using w by (simp add: list_all_iff on_time_def)
qed

text \<open>
  C8: In every state that calls and runs lead to, a timer that is set to a time \<open>e\<close> that is not
  in the past, and that no timer function touches, is called by the next run exactly when that run
  reaches \<open>e\<close>: once, with that expiry time and in the very tick \<open>e\<close>, and it is not pending
  afterwards; otherwise it is not called and stays pending.  This is so whatever list the timer is
  first put in and however often it is moved between the vectors.
\<close>

theorem timer_fires_exactly:
  assumes "timer_run evs (init_timervecs exps) = Some w" "0 \<le> sint (e - timer_jiffies w)" "untouched fn j"
  shows "\<exists>w' new. run_timer_list fn jiffies (snd (mod_timer j e w)) = Some w' \<and> calls w' = calls w @ new \<and>
    (if sint (e - timer_jiffies w) \<le> sint (jiffies - timer_jiffies w)
     then called j new = [(j, e, e)] \<and> \<not> timer_pending j w'
     else called j new = [] \<and> timer_pending j w')"
proof -
  obtain t where i: "idle t w" using timer_run_ok [OF idle_init, of exps evs] assms(1) by (auto simp: init_timervecs_def)
  define w1 where "w1 = timer_call (Mod j e) w"
  have i1: "idle t w1" "calls w1 = calls w" unfolding w1_def by (rule idle_call [OF i])+
  have on: "once w" and tj: "timer_jiffies w = of_nat t" "timer_jiffies w1 = of_nat t"
    using i i1 by (simp_all add: idle_def ok_but_def)
  have w1: "linked w1 j" "expires w1 j = e" by (simp_all add: w1_def mod_timer_move [OF on])
  define n where "n = nat (sint (jiffies - timer_jiffies w1) + 1)"
  obtain w' new where r: "run_timer_list fn jiffies w1 = Some w'" "idle (t + n) w'" "calls w' = calls w1 @ new"
      "ticks_effect fn n t w1 w' new"
    using run_ok [OF i1(1), where jiffies = jiffies and fn = fn] unfolding n_def by blast
  have nl: "\<not> late t e" using assms(2) by (simp add: tj flip: late_iff)
  have "dist t e < n \<longleftrightarrow> sint (e - timer_jiffies w) \<le> sint (jiffies - timer_jiffies w)"
    using sint_dist [OF nl] by (auto simp: n_def tj)
  then have "if sint (e - timer_jiffies w) \<le> sint (jiffies - timer_jiffies w)
     then called j new = [(j, e, e)] \<and> \<not> linked w' j else called j new = [] \<and> linked w' j"
    using r(4) assms(3) w1 nl by (simp add: ticks_effect_def)
  then show ?thesis using r(1,3) i1(2) by (simp add: w1_def timer_pending_def)
qed

theorem timer_fires_exactly_witness:
  "\<exists>w' new. run_timer_list (\<lambda>_ _. [Mod 3 9]) 70000 (snd (mod_timer 7 65536 (snd (mod_timer 3 9 (init_timervecs (\<lambda>_. 0)))))) = Some w' \<and>
     calls w' = new \<and> called 7 new = [(7, 65536, 65536)] \<and> \<not> timer_pending 7 w'"
  using timer_fires_exactly [of "[Call (Mod 3 9)]" "\<lambda>_. 0" "snd (mod_timer 3 9 (init_timervecs (\<lambda>_. 0)))" 65536 "\<lambda>_ _. [Mod 3 9]" 7 70000]
  by (simp add: untouched_def init_timervecs_def mod_timer_def detach_timer_def timer_pending_def internal_add_timer_def list_add_tail_def)

end
