(* ===== verification/Spec2Isabelle.thy ===== *)
theory Spec2Isabelle
  imports Serload Bootmem Proc_Files Jffs2_Compr Task_Safety Timer
begin

text \<open>
  Verification of the SIMpad Linux distribution: the host-side loader \<^verbatim>\<open>src/serload\<close> and the
  Linux 2.4.19-rmk7 kernel tree of the Siemens SIMpad under \<^verbatim>\<open>src/simpad-kernel/linux\<close>.

  \<^bold>\<open>The parts and how they interact.\<close>  The loader sends a boot image over a serial line to the
  SIMpad's boot loader.  The kernel that then runs takes its memory from the boot-time allocator,
  reads options from the command line, claims I/O and memory ranges in the resource tree, drives
  the board's write-only CS3 latch from several drivers (PCMCIA socket, LEDs, UART, power), and
  shows both in \<^verbatim>\<open>/proc\<close> with the kernel's own \<^verbatim>\<open>sprintf\<close>.  Its root file system is JFFS2 on
  flash, whose nodes are compressed.

  \<^bold>\<open>Theories and sources.\<close>
  \<^item> \<open>Prelude\<close>: machine words, lemmas on words and lists, the interfaces \<open>op_invariant\<close> (runs
    of operations that keep an invariant) and \<open>exclusive_claims\<close>.
  \<^item> \<open>Serload\<close>: \<^verbatim>\<open>serialdownload.cpp\<close>, \<^verbatim>\<open>main.cpp\<close>.  The port is a record with the bytes to
    be received, the bytes sent and scripts for the results of the system calls.  Loops that wait
    for a byte consume the received bytes; when these run out the result is \<open>None\<close>, the program
    waits for ever.  The download theorem is a liveness statement: against a boot loader that
    answers, every loop returns.
  \<^item> \<open>Simpad_Board\<close>: \<^verbatim>\<open>mach-sa1100/simpad.c\<close>, \<^verbatim>\<open>leds-simpad.c\<close>, \<^verbatim>\<open>simpad_pm.c\<close>,
    \<^verbatim>\<open>drivers/pcmcia/sa1100_simpad.c\<close>, and the GPIO edge and interrupt depth functions they
    call.  The board is a record with the latch, its shadow, the history of values stored to the
    latch, and one interrupt descriptor.  The locale \<open>shadow_latch\<close> is interpreted on it.
  \<^item> \<open>Resource\<close>: \<^verbatim>\<open>kernel/resource.c\<close>.  The tree of sibling lists is a datatype; a pointer to a
    conflicting entry is its position.  \<open>exclusive_claims\<close> is interpreted on
    \<^verbatim>\<open>request_region\<close> and \<^verbatim>\<open>release_region\<close>.
  \<^item> \<open>Bootmem\<close>: \<^verbatim>\<open>mm/bootmem.c\<close>.  The bitmap is a function from page numbers; the addresses are
    32-bit words and wrap; \<^verbatim>\<open>BUG()\<close> is the value \<open>Bug\<close>.
  \<^item> \<open>Kstring\<close>, \<open>Vsprintf\<close>, \<open>Cmdline\<close>: \<^verbatim>\<open>lib/string.c\<close>, \<^verbatim>\<open>lib/ctype.c\<close>, \<^verbatim>\<open>lib/vsprintf.c\<close>,
    \<^verbatim>\<open>lib/cmdline.c\<close>.  Memory is a function from addresses to characters; a search for a
    terminator that need not exist is a partial function.
  \<^item> \<open>Proc_Files\<close>: where they meet: the listing of the resource tree, the \<^verbatim>\<open>reserve=\<close> option and
    \<^verbatim>\<open>/proc/cs3\<close>.
  \<^item> \<open>Codec\<close>, \<open>Jffs2_Rtime\<close>, \<open>Jffs2_Rubin\<close>, \<open>Jffs2_Compr\<close>: \<^verbatim>\<open>fs/jffs2/compr.c\<close> and the two
    compressors it carries.  A buffer is a list of bytes and an access outside it is \<open>None\<close>.  The
    locale \<open>codec\<close> states what every compressor promises; it is interpreted on both.

  \<^bold>\<open>What the theorems show.\<close>  The loader delivers the image in order and the frames lose nothing.
  No run of board operations lets the shadow and the latch differ or powers both PCMCIA rails.
  Claimed ranges exclude each other and releasing undoes claiming.  Boot-time allocations are
  disjoint, aligned and found when they exist.  Formatted output stays in its buffer and is read
  back by the kernel's own parsers.  What JFFS2 compresses expands to the same bytes, for the
  run-length and for the arithmetic coder, also when the output runs full in the middle of a byte.
  The properties of kind error state departures of the code from what it means to do.

  \<^bold>\<open>Bounds.\<close>  There is no fuel.  Recursion that is not structural has a measure; loops that may
  run for ever are partial functions whose results are proved to exist where the theorem says so.
  Lengths of compressed buffers are below \<open>2 ^ 28\<close>, so that bit counts fit a word; JFFS2 passes at
  most a page.

  \<^bold>\<open>Not modelled.\<close>  The rest of the kernel tree: other architectures, the drivers of hardware the
  SIMpad does not have, networking, scheduling, virtual memory and the other file systems.  They
  are the stock 2.4.19 sources.  The flash layout and garbage collector of JFFS2 and the zlib
  library are not modelled; the zlib pair is an argument of the compressor choice, with the
  contract of a compressor as a named hypothesis.  \<^verbatim>\<open>src/xcalibrate\<close> and \<^verbatim>\<open>src/controlpanel\<close> are
  user interfaces on X11 and Qt toolkits that are not part of the sources.  Locks, console messages
  and memory barriers are left out: every operation is one step.
\<close>

end
